(* ===== verification/Prelude.thy ===== *)
theory Prelude
  imports Main "HOL-Library.Word" "HOL-Library.Multiset"
begin

section \<open>Shared vocabulary of the development\<close>

text \<open>
  This theory holds what every component of the development uses: the names of the machine
  integer types of the Rust sources, the shapes of results, polls and wakers, the generic
  contract of a transition system with an invariant, and the list, map and word lemmas that
  several components share.

  Conventions. A Rust function that may panic (an \<^verbatim>\<open>unwrap\<close> or \<^verbatim>\<open>expect\<close> of a
  \<^verbatim>\<open>None\<close>, an \<^verbatim>\<open>assert!\<close>, an \<^verbatim>\<open>unreachable!\<close>, an index out of range)
  returns an \<open>option\<close>, and \<open>None\<close> is the panic. A Rust \<^verbatim>\<open>Result\<close> is a sum:
  \<open>Inl\<close> is \<^verbatim>\<open>Err\<close> and \<open>Inr\<close> is \<^verbatim>\<open>Ok\<close>. Arithmetic on machine integers is that
  of a release build: it wraps around at the width of the type.
\<close>

named_theorems wf_defs \<open>definitions of the well-formedness invariants\<close>
named_theorems op_defs \<open>definitions of the operations\<close>
named_theorems shared_simps \<open>rewrite rules shared by the components\<close>

subsection \<open>Machine integers, wakers, results\<close>

type_synonym u8 = "8 word"
type_synonym u16 = "16 word"
type_synonym u32 = "32 word"
type_synonym u64 = "64 word"
type_synonym usize = "64 word"

text \<open>A \<^verbatim>\<open>Waker\<close> is an opaque handle; nodes of intrusive lists are named by their address.\<close>

type_synonym waker = nat
type_synonym node_id = nat

type_synonym ('a, 'e) result = "'e + 'a"

datatype 'a poll = Pending | Ready (ready_value: 'a)

definition is_ready :: "'a poll \<Rightarrow> bool" where
  "is_ready p = (case p of Pending \<Rightarrow> False | Ready _ \<Rightarrow> True)"

lemma is_ready_simps [simp]: "\<not> is_ready Pending" "is_ready (Ready x)"
  by (simp_all add: is_ready_def)

subsection \<open>Transition systems with an invariant\<close>

definition reachable :: "('s \<Rightarrow> bool) \<Rightarrow> ('s \<Rightarrow> 's \<Rightarrow> bool) \<Rightarrow> 's \<Rightarrow> bool" where
  "reachable init step t \<longleftrightarrow> (\<exists>s. init s \<and> step\<^sup>*\<^sup>* s t)"

lemma reachable_init [intro]: "init s \<Longrightarrow> reachable init step s"
  by (auto simp: reachable_def)

lemma reachable_step [intro]: "reachable init step s \<Longrightarrow> step s t \<Longrightarrow> reachable init step t"
  by (auto simp: reachable_def intro: rtranclp.rtrancl_into_rtrancl)

text \<open>The contract that every stateful component meets: its operations keep its invariant.\<close>

locale transition_inv =
  fixes init :: "'s \<Rightarrow> bool"
    and step :: "'s \<Rightarrow> 's \<Rightarrow> bool"
    and inv :: "'s \<Rightarrow> bool"
  assumes init_inv: "init s \<Longrightarrow> inv s"
    and step_inv: "inv s \<Longrightarrow> step s t \<Longrightarrow> inv t"
begin

lemma steps_inv: "step\<^sup>*\<^sup>* s t \<Longrightarrow> inv s \<Longrightarrow> inv t"
  by (induction rule: rtranclp_induct) (auto intro: step_inv)

lemma reachable_inv: "reachable init step s \<Longrightarrow> inv s"
  by (auto simp: reachable_def intro: steps_inv init_inv)

end

subsection \<open>Lists and maps\<close>

lemma set_remove1_distinct [shared_simps]: "distinct xs \<Longrightarrow> set (remove1 x xs) = set xs - {x}"
  by (rule set_remove1_eq)

lemma remove1_Nil_conv [simp]: "remove1 x xs = [] \<longleftrightarrow> xs = [] \<or> xs = [x]"
  by (cases xs) auto

lemma mem_remove1D: "y \<in> set (remove1 x xs) \<Longrightarrow> y \<in> set xs"
  by (induction xs) (auto split: if_splits)

lemma sum_list_map_remove1_nat:
  "x \<in> set xs \<Longrightarrow> f x + sum_list (map f (remove1 x xs)) = (sum_list (map f xs) :: nat)"
  by (induction xs) auto

subsection \<open>Words\<close>

lemma word_gt_0_iff_unat [shared_simps]: "(0 < w) = (0 < unat w)" for w :: "'a::len word"
  by (simp add: word_less_nat_alt)

lemma unat_sub_le [shared_simps]: "v \<le> w \<Longrightarrow> unat (w - v) = unat w - unat v" for v w :: "'a::len word"
  by (simp add: unat_sub)

lemma unat_add_small: "unat v + unat w < 2 ^ LENGTH('a) \<Longrightarrow> unat (v + w) = unat v + unat w"
  for v w :: "'a::len word"
  by (simp add: unat_word_ariths)

lemma unat_bound: "unat w < 2 ^ LENGTH('a)" for w :: "'a::len word"
  by (rule unsigned_less)

lemma unat_u64_bound: "unat w < 2 ^ 64" for w :: u64
  using unat_bound [of w] by simp

lemma unat_add_u64: "unat v + unat w < 2 ^ 64 \<Longrightarrow> unat (v + w) = unat v + unat w" for v w :: u64
  using unat_add_small [of v w] by simp

end
