(* ===== verification/Errors.thy ===== *)
theory Errors
  imports Prelude
begin

section \<open>Error values (glommio/src/error.rs)\<close>

text \<open>
  The error enums of the crate with the constructors and fields of the source, their
  \<^verbatim>\<open>Display\<close> texts, and the conversions from and to \<^verbatim>\<open>std::io::Error\<close>. What the
  standard library's formatter prints for a foreign value (an I/O error, a duration, a path,
  a quoted string) is an argument, a record of printing functions.
\<close>

subsection \<open>The enums\<close>

datatype io_error_kind =
    NotFound | PermissionDenied | BrokenPipe | WouldBlockKind | AlreadyExists | InvalidInput
  | InvalidData | TimedOutKind | Interrupted | UnexpectedEof | Other

text \<open>An \<^verbatim>\<open>io::Error\<close>: its kind, the OS code when it comes from the OS, its message.\<close>

record io_error =
  io_kind :: io_error_kind
  io_raw_os :: "int option"
  io_msg :: string

definition io_error_new :: "io_error_kind \<Rightarrow> string \<Rightarrow> io_error" where
  "io_error_new k m = \<lparr>io_kind = k, io_raw_os = None, io_msg = m\<rparr>"

definition io_error_other :: "string \<Rightarrow> io_error" where
  "io_error_other m = io_error_new Other m"

datatype 't resource_type =
    ResSemaphore u64 u64 \<comment> \<open>requested, available\<close>
  | ResRwLock
  | ResChannel 't
  | ResFile string
  | ResGate

datatype queue_error_kind = StillActive | QueueNotFound

datatype reactor_error_kind = IncorrectSourceType string | MemLockLimit u64 u64

datatype executor_error_kind = QueueError nat queue_error_kind | InvalidId nat

datatype builder_error_kind =
    NonExistentCpus nat \<comment> \<open>cpu\<close>
  | InsufficientCpus nat nat \<comment> \<open>required, available\<close>
  | NrShards nat nat \<comment> \<open>minimum, shards\<close>
  | ThreadPanic

datatype 't glommio_error =
    IoError io_error
  | EnhancedIoError io_error string "string option" "int option" \<comment> \<open>source, op, path, fd\<close>
  | ExecutorError executor_error_kind
  | BuilderError builder_error_kind
  | Closed "'t resource_type"
  | CanNotBeClosed "'t resource_type" string
  | WouldBlock "'t resource_type"
  | ReactorError reactor_error_kind
  | TimedOut nat

subsection \<open>Printing\<close>

fun show_nat :: "nat \<Rightarrow> string" where
  "show_nat n = (if n < 10 then [char_of (48 + n)]
                 else show_nat (n div 10) @ [char_of (48 + n mod 10)])"

declare show_nat.simps [simp del]

lemma show_nat_ne_Nil [simp]: "show_nat n \<noteq> []"
  by (subst show_nat.simps) simp

record std_fmt =
  fmt_io :: "io_error \<Rightarrow> string"
  fmt_path :: "string option \<Rightarrow> string"
  fmt_fd :: "int option \<Rightarrow> string"
  fmt_str :: "string \<Rightarrow> string"
  fmt_dur :: "nat \<Rightarrow> string"

fun display_reactor_kind :: "std_fmt \<Rightarrow> reactor_error_kind \<Rightarrow> string" where
  "display_reactor_kind f (IncorrectSourceType x) = ''Incorrect source type: '' @ fmt_str f x @ ''!''"
| "display_reactor_kind f (MemLockLimit mx mn) =
     ''The memlock resource limit is too low: '' @ show_nat (unat mx) @
     '' (recommended '' @ show_nat (unat mn) @ '')''"

fun display_queue_kind :: "queue_error_kind \<Rightarrow> string" where
  "display_queue_kind StillActive = ''still active''"
| "display_queue_kind QueueNotFound = ''not found''"

fun display_executor_kind :: "executor_error_kind \<Rightarrow> string" where
  "display_executor_kind (QueueError i k) = ''Queue #'' @ show_nat i @ '' is '' @ display_queue_kind k"
| "display_executor_kind (InvalidId x) =
     ''indexing executor with id '' @ show_nat x @ '', which is invalid''"

fun display_builder_kind :: "builder_error_kind \<Rightarrow> string" where
  "display_builder_kind (NonExistentCpus cpu) = ''CPU '' @ show_nat cpu @ '' doesn't exist on the host''"
| "display_builder_kind (InsufficientCpus required available) =
     ''found '' @ show_nat available @ '' of '' @ show_nat required @ '' required CPUs''"
| "display_builder_kind (NrShards minimum shards) =
     ''requested '' @ show_nat minimum @ '' shards but a minimum of '' @ show_nat shards @
     '' is required''"
| "display_builder_kind ThreadPanic = ''thread panicked''"

fun display_resource :: "'t resource_type \<Rightarrow> string" where
  "display_resource (ResSemaphore _ _) = ''Semaphore''"
| "display_resource ResRwLock = ''RwLock''"
| "display_resource (ResChannel _) = ''Channel''"
| "display_resource (ResFile _) = ''File''"
| "display_resource ResGate = ''Gate''"

fun display_error :: "std_fmt \<Rightarrow> 't glommio_error \<Rightarrow> string" where
  "display_error f (IoError err) = ''IO error occurred: '' @ fmt_io f err"
| "display_error f (EnhancedIoError src op path fd) =
     fmt_io f src @ '', op: '' @ op @ '' path: '' @ fmt_path f path @ '' with fd: '' @ fmt_fd f fd"
| "display_error f (ExecutorError err) = ''Executor error: '' @ display_executor_kind err"
| "display_error f (BuilderError err) = ''Executor builder error: '' @ display_builder_kind err"
| "display_error f (Closed rt) = (case rt of
       ResSemaphore requested available \<Rightarrow>
         ''Semaphore is closed (requested: '' @ show_nat (unat requested) @
         '', available: '' @ show_nat (unat available) @ '')''
     | ResRwLock \<Rightarrow> ''RwLock is closed''
     | ResChannel _ \<Rightarrow> ''Channel is closed''
     | ResFile msg \<Rightarrow> ''File is closed ('' @ msg @ '')''
     | ResGate \<Rightarrow> ''Gate is closed'')"
| "display_error f (CanNotBeClosed _ s) =
     ''Can not be closed because certain conditions are not satisfied. '' @ s"
| "display_error f (WouldBlock rt) = (case rt of
       ResSemaphore requested available \<Rightarrow>
         ''Semaphore operation would block (requested: '' @ show_nat (unat requested) @
         '', available: '' @ show_nat (unat available) @ '')''
     | ResRwLock \<Rightarrow> ''RwLock operation would block''
     | ResChannel _ \<Rightarrow> ''Channel operation would block''
     | ResFile msg \<Rightarrow> ''File operation would block ('' @ msg @ '')''
     | ResGate \<Rightarrow> ''Gate operation would block'')"
| "display_error f (ReactorError err) = ''Reactor error: '' @ display_reactor_kind f err"
| "display_error f (TimedOut dur) = ''Operation timed out after '' @ fmt_dur f dur"

subsection \<open>Construction and conversion\<close>

definition create_enhanced :: "io_error \<Rightarrow> string \<Rightarrow> string option \<Rightarrow> int option \<Rightarrow> unit glommio_error" where
  "create_enhanced src op path fd = EnhancedIoError src op path fd"

definition queue_still_active :: "nat \<Rightarrow> 't glommio_error" where
  "queue_still_active index = ExecutorError (QueueError index StillActive)"

definition queue_not_found :: "nat \<Rightarrow> 't glommio_error" where
  "queue_not_found index = ExecutorError (QueueError index QueueNotFound)"

text \<open>\<^verbatim>\<open>impl From<(io::Error, ResourceType<T>)> for GlommioError<T>\<close>\<close>

definition from_io_resource :: "io_error \<Rightarrow> 't resource_type \<Rightarrow> 't glommio_error" where
  "from_io_resource err rt =
     (case io_kind err of
        BrokenPipe \<Rightarrow> Closed rt
      | WouldBlockKind \<Rightarrow> WouldBlock rt
      | _ \<Rightarrow> IoError err)"

fun raw_os_error :: "'t glommio_error \<Rightarrow> int option" where
  "raw_os_error (IoError x) = io_raw_os x"
| "raw_os_error (EnhancedIoError src _ _ _) = io_raw_os src"
| "raw_os_error _ = None"

fun error_into_inner :: "'t glommio_error \<Rightarrow> 't option" where
  "error_into_inner (Closed (ResChannel t)) = Some t"
| "error_into_inner (WouldBlock (ResChannel t)) = Some t"
| "error_into_inner (CanNotBeClosed (ResChannel t) _) = Some t"
| "error_into_inner _ = None"

text \<open>\<^verbatim>\<open>impl From<GlommioError<T>> for io::Error\<close>\<close>

fun into_io_error :: "std_fmt \<Rightarrow> 't glommio_error \<Rightarrow> io_error" where
  "into_io_error f (IoError io_err) = io_err"
| "into_io_error f (WouldBlock rt) = io_error_new WouldBlockKind (display_error f (WouldBlock rt))"
| "into_io_error f (Closed rt) = io_error_new BrokenPipe (display_error f (Closed rt))"
| "into_io_error f (CanNotBeClosed rt s) =
     io_error_new BrokenPipe (display_error f (CanNotBeClosed rt s))"
| "into_io_error f (ExecutorError (QueueError index kind)) = (case kind of
       StillActive \<Rightarrow> io_error_other (''Queue #'' @ show_nat index @ '' still active'')
     | QueueNotFound \<Rightarrow> io_error_new NotFound (''Queue #'' @ show_nat index @ '' not found''))"
| "into_io_error f (ExecutorError (InvalidId i)) =
     io_error_new InvalidInput (''invalid executor id '' @ show_nat i)"
| "into_io_error f (BuilderError k) =
     io_error_other (''Executor builder error: '' @ display_error f (BuilderError k :: 't glommio_error))"
| "into_io_error f (EnhancedIoError src op path fd) =
     io_error_new (io_kind src) (display_error f (EnhancedIoError src op path fd :: 't glommio_error))"
| "into_io_error f (ReactorError (IncorrectSourceType x)) =
     io_error_new InvalidData (''IncorrectSourceType '' @ fmt_str f x)"
| "into_io_error f (ReactorError (MemLockLimit a b)) =
     io_error_other (''MemLockLimit('' @ show_nat (unat a) @ ''/'' @ show_nat (unat b) @ '')'')"
| "into_io_error f (TimedOut dur) = io_error_new TimedOutKind (''timed out after '' @ fmt_dur f dur)"

subsection \<open>Facts\<close>

lemma io_error_new_sel [simp]:
  "io_kind (io_error_new k m) = k" "io_raw_os (io_error_new k m) = None" "io_msg (io_error_new k m) = m"
  by (simp_all add: io_error_new_def)

lemma io_error_other_kind [simp]: "io_kind (io_error_other m) = Other"
  by (simp add: io_error_other_def)

text \<open>Attaching a resource to an I/O error and converting back keeps the error's kind.\<close>

lemma from_io_resource_kind: "io_kind (into_io_error f (from_io_resource e rt)) = io_kind e"
  by (cases "io_kind e") (simp_all add: from_io_resource_def)

text \<open>An error that hands an item back is one of the three channel errors.\<close>

lemma error_into_inner_Some:
  "error_into_inner e = Some t \<longleftrightarrow>
     e = Closed (ResChannel t) \<or> e = WouldBlock (ResChannel t) \<or> (\<exists>s. e = CanNotBeClosed (ResChannel t) s)"
  by (cases e rule: error_into_inner.cases) auto

end
