(* ===== verification/Semaphore.thy ===== *)
theory Semaphore
  imports Errors
begin

section \<open>The asynchronous semaphore (glommio/src/sync/semaphore.rs)\<close>

text \<open>
  A semaphore keeps a number of available units, a closed flag and an intrusive list of
  waiters. A waiter is a future: its node (units asked for, the registered waker, the flag
  that a release has already woken it) lives in the store \<open>sem_nodes\<close> under its address,
  and the list holds addresses. \<^verbatim>\<open>link.is_linked()\<close> is membership in the list. The field
  \<open>sem_wakes\<close> records the calls of \<^verbatim>\<open>Waker::wake\<close>, in order.
\<close>

subsection \<open>State\<close>

record sem_node =
  sn_units :: u64
  sn_waker :: "waker option"
  sn_woken :: bool

record semaphore =
  sem_avail :: u64
  sem_closed :: bool
  sem_list :: "node_id list"
  sem_nodes :: "node_id \<Rightarrow> sem_node option"
  sem_wakes :: "waker list"

definition sem_linked :: "semaphore \<Rightarrow> node_id \<Rightarrow> bool" where
  "sem_linked s i \<longleftrightarrow> i \<in> set (sem_list s)"

definition sem_new :: "u64 \<Rightarrow> semaphore" where
  "sem_new av = \<lparr>sem_avail = av, sem_closed = False, sem_list = [],
                 sem_nodes = (\<lambda>_. None), sem_wakes = []\<rparr>"

subsection \<open>SemaphoreState\<close>

definition sem_closed_error :: "u64 \<Rightarrow> semaphore \<Rightarrow> unit glommio_error" where
  "sem_closed_error u s = Closed (ResSemaphore u (sem_avail s))"

definition state_try_acquire :: "u64 \<Rightarrow> semaphore \<Rightarrow> (bool, unit glommio_error) result \<times> semaphore" where
  "state_try_acquire u s =
     (if sem_closed s then (Inl (sem_closed_error u s), s)
      else if sem_avail s \<ge> u then (Inr True, s\<lparr>sem_avail := sem_avail s - u\<rparr>)
      else (Inr False, s))"

text \<open>\<^verbatim>\<open>SemaphoreState::close\<close>: unlink every waiter from the front and wake it.\<close>

fun close_loop :: "node_id list \<Rightarrow> semaphore \<Rightarrow> semaphore option" where
  "close_loop [] s = Some (s\<lparr>sem_list := []\<rparr>)"
| "close_loop (i # is) s =
     (case sem_nodes s i of
        None \<Rightarrow> None
      | Some n \<Rightarrow>
          (case sn_waker n of
             None \<Rightarrow> None
           | Some w \<Rightarrow>
               close_loop is (s\<lparr>sem_list := is,
                                sem_nodes := (sem_nodes s)(i \<mapsto> n\<lparr>sn_waker := None\<rparr>),
                                sem_wakes := sem_wakes s @ [w]\<rparr>)))"

definition state_close :: "semaphore \<Rightarrow> semaphore option" where
  "state_close s = close_loop (sem_list s) (s\<lparr>sem_closed := True\<rparr>)"

definition state_signal :: "u64 \<Rightarrow> semaphore \<Rightarrow> semaphore" where
  "state_signal u s = s\<lparr>sem_avail := sem_avail s + u\<rparr>"

subsection \<open>Waking waiters\<close>

text \<open>
  The cursor loop of \<^verbatim>\<open>process_wakes\<close>: the first argument holds the units not yet promised,
  the second the nodes already passed over (in reverse), the third the nodes from the cursor on.
\<close>

fun wake_loop :: "u64 \<Rightarrow> node_id list \<Rightarrow> node_id list \<Rightarrow> semaphore \<Rightarrow> semaphore option" where
  "wake_loop a kept [] s = Some (s\<lparr>sem_list := rev kept\<rparr>)"
| "wake_loop a kept (i # is) s =
     (if a > 0 then
        (case sem_nodes s i of
           None \<Rightarrow> None
         | Some n \<Rightarrow>
             (if sn_units n \<le> a then
                (case sn_waker n of
                   None \<Rightarrow> None
                 | Some w \<Rightarrow>
                     wake_loop (a - sn_units n) kept is
                       (s\<lparr>sem_nodes := (sem_nodes s)(i \<mapsto> n\<lparr>sn_waker := None, sn_woken := True\<rparr>),
                          sem_wakes := sem_wakes s @ [w]\<rparr>))
              else wake_loop a (i # kept) is s))
      else Some (s\<lparr>sem_list := rev kept @ i # is\<rparr>))"

definition process_wakes :: "u64 \<Rightarrow> semaphore \<Rightarrow> semaphore option" where
  "process_wakes u s = (let s' = state_signal u s in wake_loop (sem_avail s') [] (sem_list s') s')"

subsection \<open>Waiter\<close>

definition waiter_new :: "u64 \<Rightarrow> node_id \<Rightarrow> semaphore \<Rightarrow> semaphore" where
  "waiter_new u i s =
     s\<lparr>sem_nodes := (sem_nodes s)(i \<mapsto> \<lparr>sn_units = u, sn_waker = None, sn_woken = False\<rparr>)\<rparr>"

definition remove_from_waiting_queue :: "node_id \<Rightarrow> semaphore \<Rightarrow> semaphore" where
  "remove_from_waiting_queue i s =
     (if sem_linked s i then s\<lparr>sem_list := remove1 i (sem_list s)\<rparr> else s)"

definition register_in_waiting_queue :: "node_id \<Rightarrow> sem_node \<Rightarrow> waker \<Rightarrow> semaphore \<Rightarrow> semaphore" where
  "register_in_waiting_queue i n w s =
     (let s' = s\<lparr>sem_nodes := (sem_nodes s)(i \<mapsto> n\<lparr>sn_waker := Some w\<rparr>)\<rparr>
      in if sem_linked s' i then s' else s'\<lparr>sem_list := sem_list s' @ [i]\<rparr>)"

type_synonym acquire_poll = "(unit, unit glommio_error) result poll"

text \<open>\<^verbatim>\<open>Future::poll\<close> of a waiter; polling a waiter that was dropped has no meaning (\<open>None\<close>).\<close>

definition waiter_poll :: "node_id \<Rightarrow> waker \<Rightarrow> semaphore \<Rightarrow> (acquire_poll \<times> semaphore) option" where
  "waiter_poll i w s =
     (case sem_nodes s i of
        None \<Rightarrow> None
      | Some n \<Rightarrow>
          (let n' = n\<lparr>sn_woken := False\<rparr>;
               s1 = s\<lparr>sem_nodes := (sem_nodes s)(i \<mapsto> n')\<rparr>
           in case state_try_acquire (sn_units n) s1 of
                (Inl e, s2) \<Rightarrow> Some (Ready (Inl e), remove_from_waiting_queue i s2)
              | (Inr True, s2) \<Rightarrow> Some (Ready (Inr ()), remove_from_waiting_queue i s2)
              | (Inr False, s2) \<Rightarrow> Some (Pending, register_in_waiting_queue i n' w s2)))"

text \<open>
  \<^verbatim>\<open>Drop for Waiter\<close>: a waiter that was woken but not polled passes its wake-up on, a linked
  one unlinks itself. The node's memory is freed afterwards.
\<close>

definition free_node :: "node_id \<Rightarrow> semaphore \<Rightarrow> semaphore" where
  "free_node i s = s\<lparr>sem_nodes := (sem_nodes s)(i := None)\<rparr>"

definition waiter_drop :: "node_id \<Rightarrow> semaphore \<Rightarrow> semaphore option" where
  "waiter_drop i s =
     (case sem_nodes s i of
        None \<Rightarrow> None
      | Some n \<Rightarrow>
          (if sn_woken n then map_option (free_node i) (process_wakes 0 s)
           else if sem_linked s i then Some (free_node i (remove_from_waiting_queue i s))
           else Some (free_node i s)))"

text \<open>One poll of \<^verbatim>\<open>waiter.await\<close>: when the waiter is ready it is dropped at once.\<close>

definition waiter_await :: "node_id \<Rightarrow> waker \<Rightarrow> semaphore \<Rightarrow> (acquire_poll \<times> semaphore) option" where
  "waiter_await i w s =
     (case waiter_poll i w s of
        None \<Rightarrow> None
      | Some (Pending, s') \<Rightarrow> Some (Pending, s')
      | Some (Ready r, s') \<Rightarrow> map_option (\<lambda>s''. (Ready r, s'')) (waiter_drop i s'))"

subsection \<open>Semaphore\<close>

text \<open>
  The first poll of \<^verbatim>\<open>acquire\<close>: the fast path, or a fresh waiter at address \<open>i\<close> that is
  polled at once. Later polls of the same future are \<open>waiter_await\<close>.
\<close>

definition sem_acquire :: "u64 \<Rightarrow> node_id \<Rightarrow> waker \<Rightarrow> semaphore \<Rightarrow> (acquire_poll \<times> semaphore) option" where
  "sem_acquire u i w s =
     (if sem_list s = [] then
        (case state_try_acquire u s of
           (Inl e, s') \<Rightarrow> Some (Ready (Inl e), s')
         | (Inr True, s') \<Rightarrow> Some (Ready (Inr ()), s')
         | (Inr False, s') \<Rightarrow> waiter_await i w (waiter_new u i s'))
      else waiter_await i w (waiter_new u i s))"

definition sem_try_acquire :: "u64 \<Rightarrow> semaphore \<Rightarrow> (bool, unit glommio_error) result \<times> semaphore" where
  "sem_try_acquire u s =
     (if sem_list s = [] then
        (case state_try_acquire u s of
           (Inl e, s') \<Rightarrow> (Inl e, s')
         | (Inr True, s') \<Rightarrow> (Inr True, s')
         | (Inr False, s') \<Rightarrow> (Inr False, s'))
      else (Inr False, s))"

text \<open>A \<^verbatim>\<open>Permit\<close> (and a \<^verbatim>\<open>StaticPermit\<close>) carries the units it gives back when dropped.\<close>

record permit = permit_units :: u64

definition sem_try_acquire_permit :: "u64 \<Rightarrow> semaphore \<Rightarrow> (permit, unit glommio_error) result \<times> semaphore" where
  "sem_try_acquire_permit u s =
     (if sem_list s = [] then
        (case state_try_acquire u s of
           (Inl e, s') \<Rightarrow> (Inl e, s')
         | (Inr True, s') \<Rightarrow> (Inr \<lparr>permit_units = u\<rparr>, s')
         | (Inr False, s') \<Rightarrow> (Inl (WouldBlock (ResSemaphore u (sem_avail s'))), s'))
      else (Inl (WouldBlock (ResSemaphore u (sem_avail s))), s))"

definition sem_try_acquire_static_permit :: "u64 \<Rightarrow> semaphore \<Rightarrow> (permit, unit glommio_error) result \<times> semaphore" where
  "sem_try_acquire_static_permit u s =
     (if sem_list s = [] then
        (case state_try_acquire u s of
           (Inl e, s') \<Rightarrow> (Inl e, s')
         | (Inr True, s') \<Rightarrow> (Inr \<lparr>permit_units = u\<rparr>, s')
         | (Inr False, s') \<Rightarrow> (Inl (WouldBlock (ResSemaphore u (sem_avail s'))), s'))
      else (Inl (WouldBlock (ResSemaphore u (sem_avail s))), s))"

text \<open>
  One poll of \<^verbatim>\<open>acquire_permit\<close> (and of \<^verbatim>\<open>acquire_static_permit\<close>): the result of the
  poll of \<^verbatim>\<open>acquire\<close> with the unit value replaced by the permit.
\<close>

definition permit_of_poll :: "u64 \<Rightarrow> acquire_poll \<Rightarrow> (permit, unit glommio_error) result poll" where
  "permit_of_poll u p = (case p of Pending \<Rightarrow> Pending
     | Ready (Inl e) \<Rightarrow> Ready (Inl e) | Ready (Inr ()) \<Rightarrow> Ready (Inr \<lparr>permit_units = u\<rparr>))"

definition sem_acquire_permit ::
    "u64 \<Rightarrow> node_id \<Rightarrow> waker \<Rightarrow> semaphore \<Rightarrow> ((permit, unit glommio_error) result poll \<times> semaphore) option" where
  "sem_acquire_permit u i w s = map_option (\<lambda>(p, s'). (permit_of_poll u p, s')) (sem_acquire u i w s)"

definition permit_drop :: "permit \<Rightarrow> semaphore \<Rightarrow> semaphore option" where
  "permit_drop p s = process_wakes (permit_units p) s"

definition sem_signal :: "u64 \<Rightarrow> semaphore \<Rightarrow> semaphore option" where
  "sem_signal u s = process_wakes u s"

definition sem_close :: "semaphore \<Rightarrow> semaphore option" where
  "sem_close s = state_close s"

text \<open>\<^verbatim>\<open>Drop for Semaphore\<close> asserts that no waiter is linked.\<close>

definition sem_drop :: "semaphore \<Rightarrow> unit option" where
  "sem_drop s = (if sem_list s = [] then Some () else None)"


subsection \<open>Abstract specification of a release\<close>

text \<open>
  Which waiters a release of \<open>a\<close> units wakes, which it leaves in the queue and how many units
  remain unpromised: walk the queue once, promise the units of every request that still fits.
\<close>

fun greedy :: "(node_id \<Rightarrow> nat) \<Rightarrow> nat \<Rightarrow> node_id list \<Rightarrow> node_id list \<times> node_id list \<times> nat" where
  "greedy u a [] = ([], [], a)"
| "greedy u a (i # is) =
     (if a > 0 \<and> u i \<le> a then (case greedy u (a - u i) is of (wk, lf, r) \<Rightarrow> (i # wk, lf, r))
      else (case greedy u a is of (wk, lf, r) \<Rightarrow> (wk, i # lf, r)))"

lemma greedy_zero: "greedy u 0 is = ([], is, 0)"
  by (induction "is") auto

lemma greedy_cong: "\<forall>i\<in>set is. u i = v i \<Longrightarrow> greedy u a is = greedy v a is"
  by (induction "is" arbitrary: a) auto

text \<open>One step of the walk: the head is promised its units, or it is left behind.\<close>

lemma greedy_ConsE:
  assumes "greedy u a (i # is) = (wk, lf, r)"
  obtains (woken) wk' where "a > 0" "u i \<le> a" "wk = i # wk'" "greedy u (a - u i) is = (wk', lf, r)"
    | (left) lf' where "\<not> (a > 0 \<and> u i \<le> a)" "lf = i # lf'" "greedy u a is = (wk, lf', r)"
  using assms by (auto split: if_splits prod.splits)

declare greedy.simps(2) [simp del]

lemma greedy_set: "greedy u a is = (wk, lf, r) \<Longrightarrow> set wk \<union> set lf = set is"
proof (induction "is" arbitrary: a wk lf r)
  case (Cons i "is")
  from Cons.prems(1) show ?case
    by (cases rule: greedy_ConsE) (auto dest: Cons.IH)
qed auto

lemma greedy_distinct:
  "greedy u a is = (wk, lf, r) \<Longrightarrow> distinct is \<Longrightarrow> distinct wk \<and> distinct lf \<and> set wk \<inter> set lf = {}"
proof (induction "is" arbitrary: a wk lf r)
  case (Cons i "is")
  from Cons.prems(1) show ?case
  proof (cases rule: greedy_ConsE)
    case (woken wk')
    with Cons.IH [OF woken(4)] Cons.prems(2) greedy_set [OF woken(4)] show ?thesis by auto
  next
    case (left lf')
    with Cons.IH [OF left(3)] Cons.prems(2) greedy_set [OF left(3)] show ?thesis by auto
  qed
qed auto

lemma greedy_sum: "greedy u a is = (wk, lf, r) \<Longrightarrow> sum_list (map u wk) + r = a"
proof (induction "is" arbitrary: a wk lf r)
  case (Cons i "is")
  from Cons.prems(1) show ?case
  proof (cases rule: greedy_ConsE)
    case (woken wk')
    with Cons.IH [OF woken(4)] show ?thesis by simp
  next
    case (left lf')
    with Cons.IH [OF left(3)] show ?thesis by simp
  qed
qed auto

lemma greedy_le: "greedy u a is = (wk, lf, r) \<Longrightarrow> r \<le> a"
  using greedy_sum [of u a "is" wk lf r] by simp

lemma greedy_left_too_big:
  "greedy u a is = (wk, lf, r) \<Longrightarrow> \<forall>i\<in>set is. u i > 0 \<Longrightarrow> i \<in> set lf \<Longrightarrow> u i > r"
proof (induction "is" arbitrary: a wk lf r)
  case (Cons j "is")
  from Cons.prems(1) show ?case
  proof (cases rule: greedy_ConsE)
    case (woken wk')
    with Cons.IH [OF woken(4)] Cons.prems show ?thesis by simp
  next
    case (left lf')
    with Cons.IH [OF left(3)] Cons.prems greedy_le [OF left(3)] show ?thesis by auto
  qed
qed auto

lemma greedy_head_served: "greedy u a (i # is) = (wk, lf, r) \<Longrightarrow> 0 < u i \<Longrightarrow> u i \<le> a \<Longrightarrow> i \<in> set wk"
  by (auto elim: greedy_ConsE)

subsection \<open>Well-formedness\<close>

definition node_units :: "semaphore \<Rightarrow> node_id \<Rightarrow> nat" where
  "node_units s i = (case sem_nodes s i of None \<Rightarrow> 0 | Some n \<Rightarrow> unat (sn_units n))"

definition node_waker :: "semaphore \<Rightarrow> node_id \<Rightarrow> waker" where
  "node_waker s i = the (sn_waker (the (sem_nodes s i)))"

definition waits_ok :: "semaphore \<Rightarrow> node_id \<Rightarrow> bool" where
  "waits_ok s i \<longleftrightarrow>
     (case sem_nodes s i of None \<Rightarrow> False
      | Some n \<Rightarrow> sn_waker n \<noteq> None \<and> \<not> sn_woken n \<and> sn_units n > 0)"

definition sem_wf :: "semaphore \<Rightarrow> bool" where
  "sem_wf s \<longleftrightarrow> distinct (sem_list s) \<and> finite (dom (sem_nodes s)) \<and>
     (\<forall>i\<in>set (sem_list s). waits_ok s i) \<and> (sem_closed s \<longrightarrow> sem_list s = [])"

lemma waits_okE:
  assumes "waits_ok s i"
  obtains n w where "sem_nodes s i = Some n" "sn_waker n = Some w" "\<not> sn_woken n" "sn_units n > 0"
  using assms by (auto simp: waits_ok_def split: option.splits)

lemma waits_ok_cong: "sem_nodes s i = sem_nodes t i \<Longrightarrow> waits_ok s i = waits_ok t i"
  by (simp add: waits_ok_def)

lemma node_units_cong: "sem_nodes s i = sem_nodes t i \<Longrightarrow> node_units s i = node_units t i"
  by (simp add: node_units_def)

lemma node_views_frame [simp]:
  "waits_ok (s\<lparr>sem_avail := a\<rparr>) = waits_ok s" "waits_ok (s\<lparr>sem_closed := c\<rparr>) = waits_ok s"
  "node_units (s\<lparr>sem_avail := a\<rparr>) = node_units s" "node_units (s\<lparr>sem_closed := c\<rparr>) = node_units s"
  "node_waker (s\<lparr>sem_avail := a\<rparr>) = node_waker s" "node_waker (s\<lparr>sem_closed := c\<rparr>) = node_waker s"
  by (simp_all add: waits_ok_def node_units_def node_waker_def fun_eq_iff)

lemma sem_wf_new: "sem_wf (sem_new av)"
  by (simp add: sem_wf_def sem_new_def)

subsection \<open>Release refines the specification\<close>

text \<open>The nodes of the woken waiters after the loop.\<close>

definition mark_woken :: "node_id set \<Rightarrow> (node_id \<Rightarrow> sem_node option) \<Rightarrow> node_id \<Rightarrow> sem_node option" where
  "mark_woken W nd = (\<lambda>i. if i \<in> W then map_option (\<lambda>n. n\<lparr>sn_waker := None, sn_woken := True\<rparr>) (nd i) else nd i)"

lemma mark_woken_empty [simp]: "mark_woken {} nd = nd"
  by (simp add: mark_woken_def)

lemma wake_loop_refines:
  assumes "greedy (node_units s) (unat a) is = (wk, lf, r)"
    and "distinct is" and "\<forall>i\<in>set is. waits_ok s i"
  shows "wake_loop a kept is s =
     Some (s\<lparr>sem_list := rev kept @ lf, sem_nodes := mark_woken (set wk) (sem_nodes s),
             sem_wakes := sem_wakes s @ map (node_waker s) wk\<rparr>)"
  using assms
proof (induction "is" arbitrary: a kept s wk lf r)
  case Nil
  then show ?case by simp
next
  case (Cons i "is")
  from Cons.prems(3) obtain n w where n: "sem_nodes s i = Some n" "sn_waker n = Some w"
    "\<not> sn_woken n" "sn_units n > 0"
    by (auto elim: waits_okE)
  have u: "node_units s i = unat (sn_units n)" by (simp add: node_units_def n)
  show ?case
  proof (cases "a = 0")
    case True
    with Cons.prems(1) show ?thesis by (auto simp: greedy_zero)
  next
    case a: False
    then have a0: "a > 0" by (simp add: word_neq_0_conv)
    show ?thesis
    proof (cases "sn_units n \<le> a")
      case True
      let ?s = "s\<lparr>sem_nodes := (sem_nodes s)(i \<mapsto> n\<lparr>sn_waker := None, sn_woken := True\<rparr>),
                  sem_wakes := sem_wakes s @ [w]\<rparr>"
      from True a0 Cons.prems(1) obtain wk' where g: "greedy (node_units s) (unat (a - sn_units n)) is = (wk', lf, r)"
        and wk: "wk = i # wk'"
        by (auto simp: u unat_sub_le word_le_nat_alt word_less_nat_alt elim: greedy_ConsE)
      have same: "\<forall>j\<in>set is. sem_nodes ?s j = sem_nodes s j" using Cons.prems(2) by auto
      have g': "greedy (node_units ?s) (unat (a - sn_units n)) is = (wk', lf, r)"
        using g same greedy_cong [of "is" "node_units ?s" "node_units s"] by (simp add: node_units_def)
      have ok: "\<forall>j\<in>set is. waits_ok ?s j" using Cons.prems(3) same by (simp add: waits_ok_def)
      have dis: "distinct is" using Cons.prems(2) by simp
      have IH: "wake_loop (a - sn_units n) kept is ?s =
         Some (?s\<lparr>sem_list := rev kept @ lf, sem_nodes := mark_woken (set wk') (sem_nodes ?s),
             sem_wakes := sem_wakes ?s @ map (node_waker ?s) wk'\<rparr>)"
        by (rule Cons.IH [OF g' dis ok])
      have sub: "set wk' \<subseteq> set is" using greedy_set [OF g] by auto
      have i_notin: "i \<notin> set wk'" using sub Cons.prems(2) by auto
      have m: "mark_woken (set wk') (sem_nodes ?s) = mark_woken (set wk) (sem_nodes s)"
        using i_notin by (auto simp: mark_woken_def wk n fun_eq_iff)
      have "map (node_waker ?s) wk' = map (node_waker s) wk'"
        using i_notin by (auto simp: node_waker_def)
      then have w: "sem_wakes ?s @ map (node_waker ?s) wk' = sem_wakes s @ map (node_waker s) wk"
        by (simp add: wk node_waker_def n)
      have "wake_loop a kept (i # is) s = wake_loop (a - sn_units n) kept is ?s"
        using a0 True by (simp add: n)
      also note IH
      also note m
      also note w
      finally show ?thesis by simp
    next
      case False
      then have "\<not> node_units s i \<le> unat a" by (simp add: u word_le_nat_alt)
      with Cons.prems(1) obtain lf' where g: "greedy (node_units s) (unat a) is = (wk, lf', r)" and lf: "lf = i # lf'"
        by (auto elim: greedy_ConsE)
      from Cons.IH [OF g] Cons.prems(2,3)
      have "wake_loop a (i # kept) is s =
         Some (s\<lparr>sem_list := rev (i # kept) @ lf', sem_nodes := mark_woken (set wk) (sem_nodes s),
             sem_wakes := sem_wakes s @ map (node_waker s) wk\<rparr>)"
        by simp
      with a0 False show ?thesis by (simp add: n lf)
    qed
  qed
qed


definition released :: "u64 \<Rightarrow> semaphore \<Rightarrow> node_id list \<Rightarrow> node_id list \<Rightarrow> semaphore" where
  "released u s wk lf =
     s\<lparr>sem_avail := sem_avail s + u, sem_list := lf, sem_nodes := mark_woken (set wk) (sem_nodes s),
       sem_wakes := sem_wakes s @ map (node_waker s) wk\<rparr>"

lemma process_wakes_refines:
  assumes "sem_wf s" and "greedy (node_units s) (unat (sem_avail s + u)) (sem_list s) = (wk, lf, r)"
  shows "process_wakes u s = Some (released u s wk lf)"
  using assms wake_loop_refines [of "s\<lparr>sem_avail := sem_avail s + u\<rparr>" "sem_avail s + u" "sem_list s" wk lf r "[]"]
  by (simp add: process_wakes_def state_signal_def released_def sem_wf_def Let_def)

lemma process_wakesE:
  assumes "sem_wf s"
  obtains wk lf r where "greedy (node_units s) (unat (sem_avail s + u)) (sem_list s) = (wk, lf, r)"
    "process_wakes u s = Some (released u s wk lf)"
  using assms process_wakes_refines by (metis prod_cases3)

lemma dom_mark_woken [simp]: "dom (mark_woken W nd) = dom nd"
  by (auto simp: mark_woken_def split: if_splits)

lemma released_wf:
  assumes wf: "sem_wf s" and g: "greedy u a (sem_list s) = (wk, lf, r)"
  shows "sem_wf (released v s wk lf)"
proof -
  have "set lf \<subseteq> set (sem_list s)" and "set wk \<inter> set lf = {}" and "distinct lf"
    using greedy_set [OF g] greedy_distinct [OF g] wf by (auto simp: sem_wf_def)
  moreover have "waits_ok (released v s wk lf) i = waits_ok s i" if "i \<in> set lf" for i
    using that \<open>set wk \<inter> set lf = {}\<close> by (auto simp: released_def waits_ok_def mark_woken_def)
  ultimately show ?thesis
    using wf by (auto simp: sem_wf_def) (auto simp: released_def)
qed

subsection \<open>Every operation keeps well-formedness and does not panic\<close>

lemma close_loop_ok:
  assumes "distinct is" and "\<forall>i\<in>set is. waits_ok s i"
  shows "\<exists>t. close_loop is s = Some t \<and> sem_list t = [] \<and> sem_avail t = sem_avail s \<and>
     sem_closed t = sem_closed s \<and> dom (sem_nodes t) = dom (sem_nodes s) \<and>
     sem_wakes t = sem_wakes s @ map (node_waker s) is \<and>
     (\<forall>j. map_option sn_woken (sem_nodes t j) = map_option sn_woken (sem_nodes s j))"
  using assms
proof (induction "is" arbitrary: s)
  case Nil
  then show ?case by simp
next
  case (Cons i "is")
  from Cons.prems(2) obtain n w where n: "sem_nodes s i = Some n" "sn_waker n = Some w"
    by (auto elim: waits_okE)
  let ?s = "s\<lparr>sem_list := is, sem_nodes := (sem_nodes s)(i \<mapsto> n\<lparr>sn_waker := None\<rparr>),
              sem_wakes := sem_wakes s @ [w]\<rparr>"
  have "\<forall>j\<in>set is. waits_ok ?s j" using Cons.prems by (auto simp: waits_ok_def)
  then obtain t where t: "close_loop is ?s = Some t" "sem_list t = []" "sem_avail t = sem_avail s"
      "sem_closed t = sem_closed s" "dom (sem_nodes t) = dom (sem_nodes ?s)"
      "sem_wakes t = sem_wakes ?s @ map (node_waker ?s) is"
      "\<forall>j. map_option sn_woken (sem_nodes t j) = map_option sn_woken (sem_nodes ?s j)"
    using Cons.IH [of ?s] Cons.prems(1) by force
  have "map (node_waker ?s) is = map (node_waker s) is"
    using Cons.prems(1) by (auto simp: node_waker_def)
  moreover have "node_waker s i = w" by (simp add: node_waker_def n)
  moreover have "dom (sem_nodes ?s) = dom (sem_nodes s)" by (auto simp: n)
  moreover have "map_option sn_woken (sem_nodes ?s j) = map_option sn_woken (sem_nodes s j)" for j
    by (simp add: n)
  ultimately show ?case using t by (intro exI [of _ t]) (simp add: n)
qed

lemma sem_close_ok:
  assumes "sem_wf s"
  shows "\<exists>t. sem_close s = Some t \<and> sem_wf t \<and> sem_closed t \<and> sem_list t = [] \<and>
     sem_avail t = sem_avail s \<and> sem_wakes t = sem_wakes s @ map (node_waker s) (sem_list s)"
  using assms close_loop_ok [of "sem_list s" "s\<lparr>sem_closed := True\<rparr>"]
  by (auto simp: sem_close_def state_close_def sem_wf_def)

text \<open>A poll of a live waiter: what it returns and the state it leaves, case by case.\<close>

definition unwoken :: "node_id \<Rightarrow> sem_node \<Rightarrow> semaphore \<Rightarrow> semaphore" where
  "unwoken i n s = s\<lparr>sem_nodes := (sem_nodes s)(i \<mapsto> n\<lparr>sn_woken := False\<rparr>)\<rparr>"

lemma waiter_poll_closed:
  "sem_nodes s i = Some n \<Longrightarrow> sem_closed s \<Longrightarrow>
     waiter_poll i w s = Some (Ready (Inl (sem_closed_error (sn_units n) s)), remove_from_waiting_queue i (unwoken i n s))"
  by (simp add: waiter_poll_def state_try_acquire_def unwoken_def sem_closed_error_def Let_def)

lemma waiter_poll_granted:
  "sem_nodes s i = Some n \<Longrightarrow> \<not> sem_closed s \<Longrightarrow> sn_units n \<le> sem_avail s \<Longrightarrow>
     waiter_poll i w s = Some (Ready (Inr ()),
       remove_from_waiting_queue i ((unwoken i n s)\<lparr>sem_avail := sem_avail s - sn_units n\<rparr>))"
  by (simp add: waiter_poll_def state_try_acquire_def unwoken_def Let_def)

lemma waiter_poll_pending:
  "sem_nodes s i = Some n \<Longrightarrow> \<not> sem_closed s \<Longrightarrow> \<not> sn_units n \<le> sem_avail s \<Longrightarrow>
     waiter_poll i w s = Some (Pending, register_in_waiting_queue i (n\<lparr>sn_woken := False\<rparr>) w (unwoken i n s))"
  by (simp add: waiter_poll_def state_try_acquire_def unwoken_def Let_def)

lemmas waiter_poll_cases = waiter_poll_closed waiter_poll_granted waiter_poll_pending

text \<open>
  Awaiting a waiter: when it is ready its node is gone and it is unlinked; when it is pending it
  is linked, with the new waker.
\<close>

definition unlinked :: "node_id \<Rightarrow> semaphore \<Rightarrow> semaphore" where
  "unlinked i s = s\<lparr>sem_list := remove1 i (sem_list s), sem_nodes := (sem_nodes s)(i := None)\<rparr>"

definition queued :: "node_id \<Rightarrow> sem_node \<Rightarrow> waker \<Rightarrow> semaphore \<Rightarrow> semaphore" where
  "queued i n w s =
     s\<lparr>sem_nodes := (sem_nodes s)(i \<mapsto> n\<lparr>sn_woken := False, sn_waker := Some w\<rparr>),
       sem_list := (if i \<in> set (sem_list s) then sem_list s else sem_list s @ [i])\<rparr>"

lemma waiter_await_closed:
  assumes "sem_nodes s i = Some n" "sem_closed s" "distinct (sem_list s)"
  shows "waiter_await i w s = Some (Ready (Inl (sem_closed_error (sn_units n) s)), unlinked i s)"
  using assms
  by (auto simp: waiter_await_def waiter_poll_cases waiter_drop_def remove_from_waiting_queue_def
      unwoken_def sem_linked_def free_node_def unlinked_def remove1_idem)

lemma waiter_await_granted:
  assumes "sem_nodes s i = Some n" "\<not> sem_closed s" "sn_units n \<le> sem_avail s" "distinct (sem_list s)"
  shows "waiter_await i w s = Some (Ready (Inr ()), (unlinked i s)\<lparr>sem_avail := sem_avail s - sn_units n\<rparr>)"
  using assms
  by (auto simp: waiter_await_def waiter_poll_cases waiter_drop_def remove_from_waiting_queue_def
      unwoken_def sem_linked_def free_node_def unlinked_def remove1_idem)

lemma waiter_await_pending:
  assumes "sem_nodes s i = Some n" "\<not> sem_closed s" "\<not> sn_units n \<le> sem_avail s"
  shows "waiter_await i w s = Some (Pending, queued i n w s)"
  using assms
  by (auto simp: waiter_await_def waiter_poll_cases register_in_waiting_queue_def unwoken_def
      sem_linked_def queued_def Let_def)

lemma waiter_awaitE:
  assumes "sem_nodes s i = Some n" and "distinct (sem_list s)"
  obtains (closed) "sem_closed s"
      "waiter_await i w s = Some (Ready (Inl (sem_closed_error (sn_units n) s)), unlinked i s)"
    | (granted) "\<not> sem_closed s" "sn_units n \<le> sem_avail s"
      "waiter_await i w s = Some (Ready (Inr ()), (unlinked i s)\<lparr>sem_avail := sem_avail s - sn_units n\<rparr>)"
    | (pending) "\<not> sem_closed s" "\<not> sn_units n \<le> sem_avail s"
      "waiter_await i w s = Some (Pending, queued i n w s)"
  using assms waiter_await_closed waiter_await_granted waiter_await_pending by blast

lemma unlinked_wf: "sem_wf s \<Longrightarrow> sem_wf (unlinked i s)"
  by (auto simp: sem_wf_def unlinked_def waits_ok_def)

lemma avail_wf: "sem_wf s \<Longrightarrow> sem_wf (s\<lparr>sem_avail := a\<rparr>)"
  by (simp add: sem_wf_def waits_ok_def)

lemma queued_wf:
  assumes "sem_wf s" "\<not> sem_closed s" "\<not> sn_units n \<le> a"
  shows "sem_wf (queued i n w s)"
proof -
  have "sn_units n > 0" using assms(3) by (simp add: word_neq_0_conv [symmetric]) (auto simp: word_le_nat_alt)
  then show ?thesis using assms(1,2) by (auto simp: sem_wf_def queued_def waits_ok_def)
qed

lemma waiter_await_wf:
  assumes "sem_wf s" "sem_nodes s i = Some n" "waiter_await i w s = Some (p, t)"
  shows "sem_wf t"
proof -
  have "distinct (sem_list s)" using assms(1) by (simp add: sem_wf_def)
  from assms(2) this show ?thesis
  proof (cases rule: waiter_awaitE [where w = w])
    case closed
    with assms show ?thesis by (auto intro: unlinked_wf)
  next
    case granted
    with assms show ?thesis by (auto intro: unlinked_wf avail_wf)
  next
    case pending
    with assms show ?thesis by (auto intro: queued_wf)
  qed
qed

lemma waiter_new_wf: "sem_wf s \<Longrightarrow> sem_nodes s i = None \<Longrightarrow> sem_wf (waiter_new u i s)"
  by (auto simp: sem_wf_def waiter_new_def waits_ok_def split: option.splits if_splits)

lemma waiter_drop_ok:
  assumes "sem_wf s" and "sem_nodes s i = Some n"
  shows "\<exists>t. waiter_drop i s = Some t \<and> sem_wf t"
proof (cases "sn_woken n")
  case True
  obtain wk lf r where g: "greedy (node_units s) (unat (sem_avail s + 0)) (sem_list s) = (wk, lf, r)"
    and p: "process_wakes 0 s = Some (released 0 s wk lf)"
    using assms(1) by (rule process_wakesE)
  have "i \<notin> set (sem_list s)" using assms True by (auto simp: sem_wf_def waits_ok_def)
  then have "i \<notin> set lf" using greedy_set [OF g] by auto
  with released_wf [OF assms(1) g, of 0] have "sem_wf (free_node i (released 0 s wk lf))"
    by (auto simp: sem_wf_def free_node_def waits_ok_def released_def)
  with p True assms(2) show ?thesis by (simp add: waiter_drop_def)
next
  case False
  then show ?thesis using assms unlinked_wf [OF assms(1), of i]
    by (auto simp: waiter_drop_def remove_from_waiting_queue_def sem_linked_def free_node_def
        unlinked_def remove1_idem)
qed


subsection \<open>The semaphore as a transition system\<close>

text \<open>
  Calls on one semaphore, in any order. The ghost fields record the permits that are out
  (whether held as a \<^verbatim>\<open>Permit\<close> or owed to an explicit \<^verbatim>\<open>signal\<close>) and the units the
  semaphore was created with or was ever given from outside.
\<close>

record sem_sys =
  ss_sem :: semaphore
  ss_held :: "permit list"
  ss_total :: u64

datatype sem_op =
    OpAcquire u64 node_id waker
  | OpPoll node_id waker
  | OpDropWaiter node_id
  | OpTryAcquire u64
  | OpTryAcquirePermit u64
  | OpDropPermit permit
  | OpSignal u64
  | OpClose

definition sem_init :: "sem_sys \<Rightarrow> bool" where
  "sem_init s \<longleftrightarrow> (\<exists>av. s = \<lparr>ss_sem = sem_new av, ss_held = [], ss_total = av\<rparr>)"

definition grant :: "u64 \<Rightarrow> acquire_poll \<times> semaphore \<Rightarrow> sem_sys \<Rightarrow> sem_sys" where
  "grant u r s = s\<lparr>ss_sem := snd r,
     ss_held := (if fst r = Ready (Inr ()) then \<lparr>permit_units = u\<rparr> # ss_held s else ss_held s)\<rparr>"

fun sem_exec :: "sem_op \<Rightarrow> sem_sys \<Rightarrow> sem_sys option" where
  "sem_exec (OpAcquire u i w) s =
     map_option (\<lambda>r. grant u r s) (sem_acquire u i w (ss_sem s))"
| "sem_exec (OpPoll i w) s =
     (case sem_nodes (ss_sem s) i of None \<Rightarrow> None
      | Some n \<Rightarrow> map_option (\<lambda>r. grant (sn_units n) r s) (waiter_await i w (ss_sem s)))"
| "sem_exec (OpDropWaiter i) s = map_option (\<lambda>t. s\<lparr>ss_sem := t\<rparr>) (waiter_drop i (ss_sem s))"
| "sem_exec (OpTryAcquire u) s =
     (case sem_try_acquire u (ss_sem s) of
        (r, t) \<Rightarrow> Some (s\<lparr>ss_sem := t,
          ss_held := (if r = Inr True then \<lparr>permit_units = u\<rparr> # ss_held s else ss_held s)\<rparr>))"
| "sem_exec (OpTryAcquirePermit u) s =
     (case sem_try_acquire_permit u (ss_sem s) of
        (Inl e, t) \<Rightarrow> Some (s\<lparr>ss_sem := t\<rparr>)
      | (Inr p, t) \<Rightarrow> Some (s\<lparr>ss_sem := t, ss_held := p # ss_held s\<rparr>))"
| "sem_exec (OpDropPermit p) s =
     map_option (\<lambda>t. s\<lparr>ss_sem := t, ss_held := remove1 p (ss_held s)\<rparr>) (permit_drop p (ss_sem s))"
| "sem_exec (OpSignal u) s =
     map_option (\<lambda>t. s\<lparr>ss_sem := t, ss_total := ss_total s + u\<rparr>) (sem_signal u (ss_sem s))"
| "sem_exec OpClose s = map_option (\<lambda>t. s\<lparr>ss_sem := t\<rparr>) (sem_close (ss_sem s))"

text \<open>
  What the type system of the source guarantees at each call: a new waiter has a fresh address,
  only live waiters are polled or dropped, only permits that exist are dropped. An outside
  \<^verbatim>\<open>signal\<close> must not push the total past the range of \<^verbatim>\<open>u64\<close>.
\<close>

fun sem_enabled :: "sem_op \<Rightarrow> sem_sys \<Rightarrow> bool" where
  "sem_enabled (OpAcquire u i w) s \<longleftrightarrow> sem_nodes (ss_sem s) i = None"
| "sem_enabled (OpPoll i w) s \<longleftrightarrow> sem_nodes (ss_sem s) i \<noteq> None"
| "sem_enabled (OpDropWaiter i) s \<longleftrightarrow> sem_nodes (ss_sem s) i \<noteq> None"
| "sem_enabled (OpDropPermit p) s \<longleftrightarrow> p \<in> set (ss_held s)"
| "sem_enabled (OpSignal u) s \<longleftrightarrow> unat (ss_total s) + unat u < 2 ^ 64"
| "sem_enabled _ s \<longleftrightarrow> True"

inductive sem_step :: "sem_sys \<Rightarrow> sem_sys \<Rightarrow> bool" where
  sem_stepI: "sem_enabled op s \<Longrightarrow> sem_exec op s = Some t \<Longrightarrow> sem_step s t"

inductive_cases sem_stepE: "sem_step s t"

definition held_units :: "sem_sys \<Rightarrow> nat" where
  "held_units s = sum_list (map (\<lambda>p. unat (permit_units p)) (ss_held s))"

definition sem_inv :: "sem_sys \<Rightarrow> bool" where
  "sem_inv s \<longleftrightarrow> sem_wf (ss_sem s) \<and> unat (sem_avail (ss_sem s)) + held_units s = unat (ss_total s)"

lemma sem_inv_init: "sem_init s \<Longrightarrow> sem_inv s"
  by (auto simp: sem_init_def sem_inv_def sem_wf_new held_units_def) (simp add: sem_new_def)

lemma released_sel [simp]:
  "sem_avail (released u s wk lf) = sem_avail s + u" "sem_list (released u s wk lf) = lf"
  by (simp_all add: released_def)

lemma process_wakes_ok:
  assumes "sem_wf s"
  obtains t where "process_wakes u s = Some t" "sem_wf t" "sem_avail t = sem_avail s + u"
proof -
  obtain wk lf r where g: "greedy (node_units s) (unat (sem_avail s + u)) (sem_list s) = (wk, lf, r)"
    and "process_wakes u s = Some (released u s wk lf)"
    using assms by (rule process_wakesE)
  with released_wf [OF assms g, of u] that show ?thesis by simp
qed

lemma unlinked_avail [simp]: "sem_avail (unlinked i s) = sem_avail s"
  by (simp add: unlinked_def)

lemma queued_avail [simp]: "sem_avail (queued i n w s) = sem_avail s"
  by (simp add: queued_def)

text \<open>A grant takes exactly the units it records as held.\<close>

lemma waiter_await_units:
  assumes "sem_wf s" "sem_nodes s i = Some n" "waiter_await i w s = Some (p, t)"
  shows "unat (sem_avail t) + (if p = Ready (Inr ()) then unat (sn_units n) else 0) = unat (sem_avail s)"
proof -
  have "distinct (sem_list s)" using assms(1) by (simp add: sem_wf_def)
  from assms(2) this show ?thesis
    by (cases rule: waiter_awaitE [where w = w])
       (use assms(3) in \<open>auto simp: unat_sub_le word_le_nat_alt\<close>)
qed

lemma waiter_new_node [simp]: "sem_nodes (waiter_new u i s) i = Some \<lparr>sn_units = u, sn_waker = None, sn_woken = False\<rparr>"
  "sem_avail (waiter_new u i s) = sem_avail s" "sem_list (waiter_new u i s) = sem_list s"
  "sem_closed (waiter_new u i s) = sem_closed s"
  by (simp_all add: waiter_new_def)

lemma waiter_await_defined: "sem_nodes s i = Some n \<Longrightarrow> sem_wf s \<Longrightarrow> \<exists>p t. waiter_await i w s = Some (p, t)"
  by (cases "sem_closed s"; cases "sn_units n \<le> sem_avail s")
     (auto simp: waiter_await_closed waiter_await_granted waiter_await_pending sem_wf_def)

lemma sem_acquire_cases:
  assumes "sem_wf s"
  shows "sem_acquire u i w s =
     (if sem_list s = [] \<and> sem_closed s then Some (Ready (Inl (sem_closed_error u s)), s)
      else if sem_list s = [] \<and> u \<le> sem_avail s
      then Some (Ready (Inr ()), s\<lparr>sem_avail := sem_avail s - u\<rparr>)
      else waiter_await i w (waiter_new u i s))"
  by (simp add: sem_acquire_def state_try_acquire_def)

lemma sem_acquire_ok:
  assumes "sem_wf s" "sem_nodes s i = None"
  obtains p t where "sem_acquire u i w s = Some (p, t)" "sem_wf t"
    "unat (sem_avail t) + (if p = Ready (Inr ()) then unat u else 0) = unat (sem_avail s)"
proof -
  let ?n = "\<lparr>sn_units = u, sn_waker = None, sn_woken = False\<rparr>"
  have wf: "sem_wf (waiter_new u i s)" using assms by (rule waiter_new_wf)
  obtain p t where pt: "waiter_await i w (waiter_new u i s) = Some (p, t)"
    using waiter_await_defined [OF waiter_new_node(1) wf] by blast
  from waiter_await_wf [OF wf waiter_new_node(1) pt] waiter_await_units [OF wf waiter_new_node(1) pt]
  have slow: "sem_wf t" "unat (sem_avail t) + (if p = Ready (Inr ()) then unat u else 0) = unat (sem_avail s)"
    by (simp_all split: if_splits)
  consider "sem_list s = []" "sem_closed s" | "sem_list s = []" "\<not> sem_closed s" "u \<le> sem_avail s"
    | "sem_list s \<noteq> [] \<or> \<not> sem_closed s \<and> \<not> u \<le> sem_avail s"
    by blast
  then show ?thesis
  proof cases
    case 1
    with assms(1) that show ?thesis by (simp add: sem_acquire_cases)
  next
    case 2
    with assms(1) that [OF _ avail_wf] show ?thesis
      by (simp add: sem_acquire_cases unat_sub_le word_le_nat_alt)
  next
    case 3
    with assms(1) pt have "sem_acquire u i w s = Some (p, t)" by (auto simp: sem_acquire_cases)
    from that [OF this slow] show ?thesis .
  qed
qed

lemma waiter_drop_avail:
  assumes "sem_wf s" "waiter_drop i s = Some t"
  shows "sem_avail t = sem_avail s"
proof -
  obtain t' where "process_wakes 0 s = Some t'" "sem_avail t' = sem_avail s"
    using process_wakes_ok [OF assms(1), of 0] by auto
  with assms(2) show ?thesis
    by (auto simp: waiter_drop_def free_node_def remove_from_waiting_queue_def split: option.splits if_splits)
qed

lemma sem_try_acquire_units:
  "sem_try_acquire u s = (r, t) \<Longrightarrow> sem_wf s \<Longrightarrow>
     sem_wf t \<and> unat (sem_avail t) + (if r = Inr True then unat u else 0) = unat (sem_avail s)"
  by (auto simp: sem_try_acquire_def state_try_acquire_def unat_sub_le word_le_nat_alt
      intro: avail_wf split: if_splits)

lemma sem_try_acquire_permit_units:
  "sem_try_acquire_permit u s = (r, t) \<Longrightarrow> sem_wf s \<Longrightarrow>
     sem_wf t \<and> unat (sem_avail t) + (case r of Inr p \<Rightarrow> unat (permit_units p) | Inl _ \<Rightarrow> 0) = unat (sem_avail s)"
  by (auto simp: sem_try_acquire_permit_def state_try_acquire_def unat_sub_le word_le_nat_alt
      intro: avail_wf split: if_splits)

text \<open>No enabled operation panics, and every operation keeps the invariant.\<close>

lemma sem_exec_inv:
  assumes inv: "sem_inv s" and en: "sem_enabled op s"
  shows "\<exists>t. sem_exec op s = Some t \<and> sem_inv t"
proof -
  have wf: "sem_wf (ss_sem s)" and un: "unat (sem_avail (ss_sem s)) + held_units s = unat (ss_total s)"
    using inv by (simp_all add: sem_inv_def)
  show ?thesis
  proof (cases op)
    case (OpAcquire u i w)
    with en have "sem_nodes (ss_sem s) i = None" by simp
    from sem_acquire_ok [OF wf this, of u w] obtain p t where "sem_acquire u i w (ss_sem s) = Some (p, t)" "sem_wf t"
      "unat (sem_avail t) + (if p = Ready (Inr ()) then unat u else 0) = unat (sem_avail (ss_sem s))"
      by blast
    with un OpAcquire show ?thesis by (auto simp: grant_def sem_inv_def held_units_def)
  next
    case (OpPoll i w)
    with en obtain n where n: "sem_nodes (ss_sem s) i = Some n" by auto
    then obtain p t where pt: "waiter_await i w (ss_sem s) = Some (p, t)"
      using waiter_await_defined [OF n wf] by blast
    from waiter_await_wf [OF wf n pt] waiter_await_units [OF wf n pt] un OpPoll pt n
    show ?thesis by (auto simp: grant_def sem_inv_def held_units_def)
  next
    case (OpDropWaiter i)
    with en obtain n where "sem_nodes (ss_sem s) i = Some n" by auto
    from waiter_drop_ok [OF wf this] obtain t where "waiter_drop i (ss_sem s) = Some t" "sem_wf t"
      by blast
    with OpDropWaiter un wf show ?thesis by (auto simp: sem_inv_def held_units_def waiter_drop_avail)
  next
    case (OpTryAcquire u)
    obtain r t where rt: "sem_try_acquire u (ss_sem s) = (r, t)" by force
    from sem_try_acquire_units [OF rt wf] un OpTryAcquire rt show ?thesis
      by (auto simp: sem_inv_def held_units_def)
  next
    case (OpTryAcquirePermit u)
    obtain r t where rt: "sem_try_acquire_permit u (ss_sem s) = (r, t)" by force
    from sem_try_acquire_permit_units [OF rt wf] un OpTryAcquirePermit rt show ?thesis
      by (cases r) (auto simp: sem_inv_def held_units_def)
  next
    case (OpDropPermit p)
    obtain t where t: "process_wakes (permit_units p) (ss_sem s) = Some t" "sem_wf t"
      "sem_avail t = sem_avail (ss_sem s) + permit_units p"
      using wf by (rule process_wakes_ok)
    from OpDropPermit en have "p \<in> set (ss_held s)" by simp
    from sum_list_map_remove1_nat [OF this, of "\<lambda>p. unat (permit_units p)"]
    have rm: "unat (permit_units p) + held_units (s\<lparr>ss_sem := t, ss_held := remove1 p (ss_held s)\<rparr>) = held_units s"
      by (simp add: held_units_def)
    have "unat (ss_total s) < 2 ^ 64" by (rule unat_u64_bound)
    with rm un t(3) have "unat (sem_avail t) = unat (sem_avail (ss_sem s)) + unat (permit_units p)"
      using unat_add_u64 [of "sem_avail (ss_sem s)" "permit_units p"] by simp
    with rm un t OpDropPermit show ?thesis by (auto simp: sem_inv_def permit_drop_def)
  next
    case (OpSignal u)
    obtain t where t: "process_wakes u (ss_sem s) = Some t" "sem_wf t" "sem_avail t = sem_avail (ss_sem s) + u"
      using wf by (rule process_wakes_ok)
    from OpSignal en have "unat (ss_total s) + unat u < 2 ^ 64" by simp
    with un t(3) have "unat (sem_avail t) = unat (sem_avail (ss_sem s)) + unat u"
      and "unat (ss_total s + u) = unat (ss_total s) + unat u"
      using unat_add_u64 [of "sem_avail (ss_sem s)" u] unat_add_u64 [of "ss_total s" u] by simp_all
    with un t OpSignal show ?thesis by (auto simp: sem_inv_def sem_signal_def held_units_def)
  next
    case OpClose
    from sem_close_ok [OF wf] un OpClose show ?thesis by (auto simp: sem_inv_def held_units_def)
  qed
qed

lemma sem_step_inv: "sem_inv s \<Longrightarrow> sem_step s t \<Longrightarrow> sem_inv t"
  by (erule sem_stepE) (metis sem_exec_inv option.inject)

interpretation sem: transition_inv sem_init sem_step sem_inv
  by unfold_locales (auto intro: sem_inv_init sem_step_inv)


subsection \<open>Lost wake-ups\<close>

text \<open>
  The units promised to waiters that were woken and have not been polled yet, and the property
  that no queued waiter could be served from what is neither taken nor promised.
\<close>

definition woken_ids :: "semaphore \<Rightarrow> node_id set" where
  "woken_ids s = {i. \<exists>n. sem_nodes s i = Some n \<and> sn_woken n}"

definition promised :: "semaphore \<Rightarrow> nat" where
  "promised s = (\<Sum>i\<in>woken_ids s. node_units s i)"

definition no_lost_wakeup :: "semaphore \<Rightarrow> bool" where
  "no_lost_wakeup s \<longleftrightarrow> (\<forall>i\<in>set (sem_list s). unat (sem_avail s) < node_units s i + promised s)"

text \<open>
  A woken waiter is polled, finds that somebody else took the units in between, and queues
  again behind the others.
\<close>

fun failed_handoff :: "sem_op \<Rightarrow> sem_sys \<Rightarrow> bool" where
  "failed_handoff (OpPoll i w) s =
     (case sem_nodes (ss_sem s) i of None \<Rightarrow> False
      | Some n \<Rightarrow> sn_woken n \<and> \<not> sem_closed (ss_sem s) \<and> \<not> sn_units n \<le> sem_avail (ss_sem s))"
| "failed_handoff _ s = False"

lemma finite_woken_ids: "sem_wf s \<Longrightarrow> finite (woken_ids s)"
  by (rule finite_subset [of _ "dom (sem_nodes s)"]) (auto simp: woken_ids_def sem_wf_def)

lemma no_lost_wakeup_Nil: "sem_list s = [] \<Longrightarrow> no_lost_wakeup s"
  by (simp add: no_lost_wakeup_def)

lemma release_no_lost_wakeup:
  assumes g: "greedy u a is = (wk, lf, r)" "distinct is" "\<forall>i\<in>set is. u i > 0"
    and t: "sem_list t = lf" "unat (sem_avail t) = a" "finite (woken_ids t)" "set wk \<subseteq> woken_ids t"
      "\<forall>i\<in>set is. node_units t i = u i"
  shows "no_lost_wakeup t"
proof -
  have sub: "set wk \<subseteq> set is" "set lf \<subseteq> set is" using greedy_set [OF g(1)] by auto
  have "sum_list (map u wk) = (\<Sum>i\<in>set wk. u i)"
    using greedy_distinct [OF g(1,2)] by (simp add: sum_list_distinct_conv_sum_set)
  also have "\<dots> = (\<Sum>i\<in>set wk. node_units t i)"
    using sub(1) t(5) by (intro sum.cong) auto
  also have "\<dots> \<le> promised t"
    unfolding promised_def using t(3,4) by (intro sum_mono2) auto
  finally have "a \<le> promised t + r" using greedy_sum [OF g(1)] by simp
  moreover have "node_units t i > r" if "i \<in> set lf" for i
    using greedy_left_too_big [OF g(1,3) that] sub(2) t(5) that by auto
  ultimately show ?thesis using t(1,2) by (fastforce simp: no_lost_wakeup_def)
qed

lemma wf_units_pos: "sem_wf s \<Longrightarrow> i \<in> set (sem_list s) \<Longrightarrow> node_units s i > 0"
  by (auto simp: sem_wf_def node_units_def word_less_nat_alt elim!: waits_okE dest!: bspec)

lemma wf_list_not_woken: "sem_wf s \<Longrightarrow> i \<in> set (sem_list s) \<Longrightarrow> i \<notin> woken_ids s"
  by (auto simp: sem_wf_def woken_ids_def elim!: waits_okE dest!: bspec)

lemma node_units_mark_woken: "node_units (released v s wk lf) i = node_units s i"
  by (cases "sem_nodes s i") (auto simp: node_units_def released_def mark_woken_def)

lemma released_woken: "set wk \<subseteq> dom (sem_nodes s) \<Longrightarrow> set wk \<subseteq> woken_ids (released v s wk lf)"
  by (auto simp: woken_ids_def released_def mark_woken_def)

lemma wf_list_dom: "sem_wf s \<Longrightarrow> set (sem_list s) \<subseteq> dom (sem_nodes s)"
  by (auto simp: sem_wf_def elim!: waits_okE dest!: bspec)

lemma released_no_lost_wakeup:
  assumes wf: "sem_wf s" and g: "greedy (node_units s) (unat (sem_avail s + v)) (sem_list s) = (wk, lf, r)"
  shows "no_lost_wakeup (released v s wk lf)"
    "i \<notin> set (sem_list s) \<Longrightarrow> no_lost_wakeup (free_node i (released v s wk lf))"
proof -
  let ?t = "released v s wk lf"
  have d: "distinct (sem_list s)" using wf by (simp add: sem_wf_def)
  have pos: "\<forall>i\<in>set (sem_list s). node_units s i > 0" using wf by (auto intro: wf_units_pos)
  have fin: "finite (woken_ids ?t)" by (rule finite_woken_ids [OF released_wf [OF wf g]])
  have sub: "set wk \<subseteq> set (sem_list s)" using greedy_set [OF g] by auto
  have wok: "set wk \<subseteq> woken_ids ?t"
    using sub wf_list_dom [OF wf] by (intro released_woken) auto
  show "no_lost_wakeup ?t"
    by (rule release_no_lost_wakeup [OF g d pos]) (use fin wok in \<open>auto simp: node_units_mark_woken\<close>)
  have "woken_ids (free_node i ?t) = woken_ids ?t - {i}"
    by (auto simp: woken_ids_def free_node_def)
  moreover have "node_units (free_node i ?t) j = node_units s j" if "j \<noteq> i" for j
    using that node_units_mark_woken [of v s wk lf j] by (simp add: node_units_def free_node_def)
  moreover have "j \<noteq> i" if "j \<in> set (sem_list s)" "i \<notin> set (sem_list s)" for j using that by auto
  moreover have "sem_list (free_node i ?t) = lf" "sem_avail (free_node i ?t) = sem_avail s + v"
    by (simp_all add: free_node_def)
  ultimately show "i \<notin> set (sem_list s) \<Longrightarrow> no_lost_wakeup (free_node i ?t)"
    using fin wok sub by (intro release_no_lost_wakeup [OF g d pos]) auto
qed

lemma sem_list_unlinked: "sem_list (unlinked i s) = remove1 i (sem_list s)"
  by (simp add: unlinked_def)

lemma woken_ids_unlinked: "woken_ids (unlinked i s) = woken_ids s - {i}"
  by (auto simp: woken_ids_def unlinked_def)

lemma node_units_unlinked: "j \<noteq> i \<Longrightarrow> node_units (unlinked i s) j = node_units s j"
  by (simp add: node_units_def unlinked_def)

lemma promised_unlinked:
  assumes "sem_wf s" "sem_nodes s i = Some n"
  shows "promised s = promised (unlinked i s) + (if sn_woken n then unat (sn_units n) else 0)"
proof -
  have eq: "promised (unlinked i s) = (\<Sum>j\<in>woken_ids s - {i}. node_units s j)"
    unfolding promised_def woken_ids_unlinked by (intro sum.cong) (auto simp: node_units_unlinked)
  show ?thesis
  proof (cases "sn_woken n")
    case True
    then have "i \<in> woken_ids s" using assms(2) by (simp add: woken_ids_def)
    with sum.remove [OF finite_woken_ids [OF assms(1)] this, of "node_units s"] eq True assms(2)
    show ?thesis by (simp add: promised_def node_units_def)
  next
    case False
    then have "i \<notin> woken_ids s" using assms(2) by (simp add: woken_ids_def)
    with eq False show ?thesis by (simp add: promised_def)
  qed
qed

lemma unlinked_no_lost_wakeup:
  assumes wf: "sem_wf s" and n: "sem_nodes s i = Some n" and q: "no_lost_wakeup s"
    and a: "unat a + (if sn_woken n then unat (sn_units n) else 0) \<le> unat (sem_avail s)"
  shows "no_lost_wakeup ((unlinked i s)\<lparr>sem_avail := a\<rparr>)"
proof -
  have "promised ((unlinked i s)\<lparr>sem_avail := a\<rparr>) = promised (unlinked i s)"
    by (simp add: promised_def woken_ids_def)
  then have "unat a < node_units s j + promised ((unlinked i s)\<lparr>sem_avail := a\<rparr>)"
    if "j \<in> set (sem_list s)" for j
  proof -
    have "unat (sem_avail s) < node_units s j + promised s"
      using that q by (simp add: no_lost_wakeup_def)
    with a promised_unlinked [OF wf n] \<open>promised _ = promised (unlinked i s)\<close> show ?thesis by linarith
  qed
  moreover have "node_units ((unlinked i s)\<lparr>sem_avail := a\<rparr>) j = node_units s j" if "j \<noteq> i" for j
    using that by (simp add: node_units_unlinked)
  moreover have "set (remove1 i (sem_list s)) = set (sem_list s) - {i}"
    using wf by (simp add: sem_wf_def)
  ultimately show ?thesis by (simp add: no_lost_wakeup_def sem_list_unlinked)
qed

lemma queued_no_lost_wakeup:
  assumes wf: "sem_wf s" and n: "sem_nodes s i = Some n" "\<not> sn_woken n" and q: "no_lost_wakeup s"
    and a: "\<not> sn_units n \<le> sem_avail s"
  shows "no_lost_wakeup (queued i n w s)"
proof -
  have wok: "woken_ids (queued i n w s) = woken_ids s"
    using n by (auto simp: woken_ids_def queued_def)
  have un: "node_units (queued i n w s) j = node_units s j" for j
    using n(1) by (simp add: node_units_def queued_def)
  have "promised (queued i n w s) = promised s" by (simp add: promised_def wok un)
  moreover have "unat (sem_avail s) < node_units s i" using a n(1) by (simp add: node_units_def word_le_nat_alt)
  ultimately show ?thesis using q by (auto simp: no_lost_wakeup_def un) (auto simp: queued_def split: if_splits)
qed

lemma waiter_new_no_lost_wakeup:
  assumes "sem_wf s" "sem_nodes s i = None" "no_lost_wakeup s"
  shows "no_lost_wakeup (waiter_new u i s)"
proof -
  have w: "woken_ids (waiter_new u i s) = woken_ids s" and "i \<notin> woken_ids s"
    using assms(2) by (auto simp: woken_ids_def waiter_new_def)
  moreover have un: "node_units (waiter_new u i s) j = node_units s j" if "j \<noteq> i" for j
    using that by (simp add: node_units_def waiter_new_def)
  ultimately have "promised (waiter_new u i s) = promised s"
    unfolding promised_def w by (intro sum.cong refl) (metis un)
  moreover have "node_units (waiter_new u i s) j = node_units s j" if "j \<in> set (sem_list s)" for j
    using that un wf_list_dom [OF assms(1)] assms(2) by (cases "j = i") auto
  ultimately show ?thesis using assms(3) by (simp add: no_lost_wakeup_def)
qed

lemma waiter_await_no_lost_wakeup:
  assumes wf: "sem_wf s" and n: "sem_nodes s i = Some n" and q: "no_lost_wakeup s"
    and ok: "sn_woken n \<longrightarrow> sem_closed s \<or> sn_units n \<le> sem_avail s"
    and p: "waiter_await i w s = Some (p, t)"
  shows "no_lost_wakeup t"
proof -
  have "distinct (sem_list s)" using wf by (simp add: sem_wf_def)
  from n this show ?thesis
  proof (cases rule: waiter_awaitE [where w = w])
    case closed
    with wf p show ?thesis by (auto simp: no_lost_wakeup_def sem_list_unlinked sem_wf_def)
  next
    case granted
    then have "unat (sem_avail s - sn_units n) + unat (sn_units n) = unat (sem_avail s)"
      by (simp add: unat_sub_le word_le_nat_alt)
    with unlinked_no_lost_wakeup [OF wf n q] granted p show ?thesis by auto
  next
    case pending
    with queued_no_lost_wakeup [OF wf n _ q] ok p show ?thesis by auto
  qed
qed

lemma waiter_drop_no_lost_wakeup:
  assumes wf: "sem_wf s" and n: "sem_nodes s i = Some n" and q: "no_lost_wakeup s"
    and d: "waiter_drop i s = Some t"
  shows "no_lost_wakeup t"
proof (cases "sn_woken n")
  case True
  obtain wk lf r where g: "greedy (node_units s) (unat (sem_avail s + 0)) (sem_list s) = (wk, lf, r)"
    and p: "process_wakes 0 s = Some (released 0 s wk lf)"
    using wf by (rule process_wakesE)
  have "i \<notin> set (sem_list s)" using wf_list_not_woken [OF wf] True n by (auto simp: woken_ids_def)
  from released_no_lost_wakeup(2) [OF wf g this] d p True n show ?thesis
    by (simp add: waiter_drop_def)
next
  case False
  then have "t = (unlinked i s)\<lparr>sem_avail := sem_avail s\<rparr>"
    using d n by (auto simp: waiter_drop_def unlinked_def free_node_def remove_from_waiting_queue_def
        sem_linked_def remove1_idem split: if_splits)
  with unlinked_no_lost_wakeup [OF wf n q, of "sem_avail s"] False show ?thesis by simp
qed

lemma process_wakes_no_lost_wakeup:
  assumes "sem_wf s" "process_wakes u s = Some t"
  shows "no_lost_wakeup t"
proof -
  obtain wk lf r where "greedy (node_units s) (unat (sem_avail s + u)) (sem_list s) = (wk, lf, r)"
    and "process_wakes u s = Some (released u s wk lf)"
    using assms(1) by (rule process_wakesE)
  with released_no_lost_wakeup(1) [OF assms(1)] assms(2) show ?thesis by auto
qed

lemma sem_acquire_no_lost_wakeup:
  assumes "sem_wf s" "sem_nodes s i = None" "no_lost_wakeup s" "sem_acquire u i w s = Some (p, t)"
  shows "no_lost_wakeup t"
proof (cases "sem_list s = [] \<and> (sem_closed s \<or> u \<le> sem_avail s)")
  case True
  with assms show ?thesis by (auto simp: sem_acquire_cases intro: no_lost_wakeup_Nil split: if_splits)
next
  case False
  with assms(1,4) have "waiter_await i w (waiter_new u i s) = Some (p, t)"
    by (auto simp: sem_acquire_cases split: if_splits)
  with waiter_await_no_lost_wakeup [OF waiter_new_wf waiter_new_node(1) waiter_new_no_lost_wakeup] assms(1-3)
  show ?thesis by simp
qed

lemma sem_exec_no_lost_wakeup:
  assumes inv: "sem_inv s" and en: "sem_enabled op s" and ok: "\<not> failed_handoff op s"
    and ex: "sem_exec op s = Some t" and q: "no_lost_wakeup (ss_sem s)"
  shows "no_lost_wakeup (ss_sem t)"
proof -
  have wf: "sem_wf (ss_sem s)" using inv by (simp add: sem_inv_def)
  show ?thesis
  proof (cases op)
    case (OpAcquire u i w)
    with sem_acquire_no_lost_wakeup [OF wf _ q] en ex show ?thesis by (auto simp: grant_def)
  next
    case (OpPoll i w)
    with waiter_await_no_lost_wakeup [OF wf _ q] ok ex show ?thesis
      by (auto simp: grant_def split: option.splits)
  next
    case (OpDropWaiter i)
    with waiter_drop_no_lost_wakeup [OF wf _ q] en ex show ?thesis by auto
  next
    case (OpTryAcquire u)
    with ex q show ?thesis by (cases "sem_list (ss_sem s)")
      (auto simp: sem_try_acquire_def state_try_acquire_def no_lost_wakeup_Nil split: if_splits)
  next
    case (OpTryAcquirePermit u)
    with ex q show ?thesis by (cases "sem_list (ss_sem s)")
      (auto simp: sem_try_acquire_permit_def state_try_acquire_def no_lost_wakeup_Nil split: if_splits)
  next
    case (OpDropPermit p)
    with process_wakes_no_lost_wakeup [OF wf] ex show ?thesis by (auto simp: permit_drop_def)
  next
    case (OpSignal u)
    with process_wakes_no_lost_wakeup [OF wf] ex show ?thesis by (auto simp: sem_signal_def)
  next
    case OpClose
    with sem_close_ok [OF wf] ex show ?thesis by (auto intro: no_lost_wakeup_Nil)
  qed
qed


subsection \<open>Concrete runs\<close>

fun sem_run :: "sem_op list \<Rightarrow> sem_sys \<Rightarrow> sem_sys option" where
  "sem_run [] s = Some s"
| "sem_run (op # ops) s = (if sem_enabled op s then Option.bind (sem_exec op s) (sem_run ops) else None)"

lemma sem_run_reachable:
  "sem_run ops s = Some t \<Longrightarrow> reachable sem_init sem_step s \<Longrightarrow> reachable sem_init sem_step t"
proof (induction ops arbitrary: s)
  case (Cons op ops)
  then show ?case
    by (auto split: if_splits bind_splits intro: sem_stepI)
qed simp

definition sem_start :: "u64 \<Rightarrow> sem_sys" where
  "sem_start av = \<lparr>ss_sem = sem_new av, ss_held = [], ss_total = av\<rparr>"

lemma sem_start_reachable: "reachable sem_init sem_step (sem_start av)"
  by (rule reachable_init) (auto simp: sem_init_def sem_start_def)

lemmas sem_eval = sem_start_def sem_new_def sem_acquire_def state_try_acquire_def sem_closed_error_def
  waiter_await_def waiter_poll_def waiter_new_def register_in_waiting_queue_def
  remove_from_waiting_queue_def sem_linked_def waiter_drop_def free_node_def grant_def
  process_wakes_def state_signal_def sem_signal_def sem_try_acquire_def sem_close_def state_close_def
  sem_try_acquire_permit_def permit_drop_def Let_def

subsection \<open>Properties\<close>

text \<open>
  Claim C6. Units are conserved: whatever sequence of acquisitions, cancellations, releases,
  outside signals and closes a semaphore has seen, the available units and the units of the
  permits that are out add up, without wrap-around, to the units it was ever given.
\<close>

theorem sem_conservation:
  assumes "reachable sem_init sem_step s"
  shows "unat (sem_avail (ss_sem s)) + held_units s = unat (ss_total s)"
  using sem.reachable_inv [OF assms] by (simp add: sem_inv_def)

theorem sem_conservation_witness:
  "\<exists>s. sem_run [OpTryAcquire 2, OpAcquire 5 0 10, OpSignal 1] (sem_start 4) = Some s \<and>
     held_units s = 2 \<and> unat (sem_avail (ss_sem s)) + held_units s = unat (ss_total s)"
proof -
  obtain s where s: "sem_run [OpTryAcquire 2, OpAcquire 5 0 10, OpSignal 1] (sem_start 4) = Some s"
    and "held_units s = 2"
    by (simp add: sem_eval held_units_def)
  with sem_conservation [OF sem_run_reachable [OF s sem_start_reachable]] show ?thesis by blast
qed

text \<open>
  No operation on a semaphore panics: in every reachable state every call that the
  types allow returns, and leads to a well-formed state again. In particular no waiter is ever
  queued without a waker, and a closed semaphore has no queued waiters.
\<close>

lemma sem_no_panic:
  assumes "reachable sem_init sem_step s" and "sem_enabled op s"
  shows "\<exists>t. sem_exec op s = Some t \<and> sem_wf (ss_sem t)"
  using sem_exec_inv [OF sem.reachable_inv [OF assms(1)] assms(2)] by (auto simp: sem_inv_def)

text \<open>
  Claim C7. A release does what the greedy specification says: it walks the queue once in
  order, wakes exactly the waiters whose requests still fit into the units not yet promised,
  calls their wakers in queue order, keeps the others in order, and every waiter left behind
  asks for more than what remains.
\<close>

theorem process_wakes_greedy:
  assumes "sem_wf s" and "greedy (node_units s) (unat (sem_avail s + u)) (sem_list s) = (wk, lf, r)"
  shows "\<exists>t. process_wakes u s = Some t \<and> sem_avail t = sem_avail s + u \<and> sem_list t = lf \<and>
     woken_ids t = woken_ids s \<union> set wk \<and> sem_wakes t = sem_wakes s @ map (node_waker s) wk \<and>
     (\<forall>i\<in>set lf. node_units s i > r)"
proof -
  have wk: "set wk \<subseteq> dom (sem_nodes s)"
    using greedy_set [OF assms(2)] wf_list_dom [OF assms(1)] by auto
  have "woken_ids (released u s wk lf) = woken_ids s \<union> set wk"
    using wk by (auto simp: woken_ids_def released_def mark_woken_def split: if_splits)
  moreover have "sem_wakes (released u s wk lf) = sem_wakes s @ map (node_waker s) wk"
    by (simp add: released_def)
  moreover have "node_units s i > r" if "i \<in> set lf" for i
    using greedy_left_too_big [OF assms(2) _ that] wf_units_pos [OF assms(1)] by blast
  ultimately show ?thesis using process_wakes_refines [OF assms] by simp
qed

theorem process_wakes_greedy_witness:
  "\<exists>s t. sem_run [OpAcquire 3 0 10, OpAcquire 2 1 11, OpAcquire 1 2 12] (sem_start 0) = Some s \<and>
     process_wakes 4 (ss_sem s) = Some t \<and> sem_list t = [1] \<and> sem_wakes t = [10, 12] \<and>
     node_units (ss_sem s) 1 > 0"
proof -
  obtain s where s: "sem_run [OpAcquire 3 0 10, OpAcquire 2 1 11, OpAcquire 1 2 12] (sem_start 0) = Some s"
    and g: "greedy (node_units (ss_sem s)) (unat (sem_avail (ss_sem s) + 4)) (sem_list (ss_sem s)) = ([0, 2], [1], 0)"
    and "map (node_waker (ss_sem s)) [0, 2] = [10, 12]" "sem_wakes (ss_sem s) = []"
    by (simp add: sem_eval node_units_def node_waker_def greedy.simps)
  moreover have "sem_wf (ss_sem s)"
    using sem.reachable_inv [OF sem_run_reachable [OF s sem_start_reachable]] by (simp add: sem_inv_def)
  ultimately show ?thesis using process_wakes_greedy [OF _ g] by force
qed

text \<open>
  Claim C22. Wake-ups are not lost by any operation except one: if no queued waiter could be
  served from the units that are neither taken nor promised to a woken waiter, the same holds
  after every operation other than the poll of a woken waiter that finds its units gone.
\<close>

theorem sem_no_lost_wakeup:
  assumes "reachable sem_init sem_step s" and "sem_enabled op s" and "\<not> failed_handoff op s"
    and "no_lost_wakeup (ss_sem s)" and "sem_exec op s = Some t"
  shows "no_lost_wakeup (ss_sem t)"
  using sem_exec_no_lost_wakeup [OF sem.reachable_inv] assms by blast

theorem sem_no_lost_wakeup_witness:
  "\<exists>s t. sem_run [OpAcquire 3 0 10, OpAcquire 2 1 11, OpSignal 3] (sem_start 0) = Some s \<and>
     sem_exec (OpDropWaiter 0) s = Some t \<and> sem_list (ss_sem t) = [] \<and> no_lost_wakeup (ss_sem t)"
proof -
  let ?ops = "[OpAcquire 3 0 10, OpAcquire 2 1 11, OpSignal 3]"
  obtain s where s: "sem_run ?ops (sem_start 0) = Some s" and en: "sem_enabled (OpDropWaiter 0) s"
    and fh: "\<not> failed_handoff (OpDropWaiter 0) s"
    and w: "sem_list (ss_sem s) = [1]" "sem_nodes (ss_sem s) 0 = Some \<lparr>sn_units = 3, sn_waker = None, sn_woken = True\<rparr>"
      "sem_nodes (ss_sem s) 1 = Some \<lparr>sn_units = 2, sn_waker = Some 11, sn_woken = False\<rparr>"
      "\<forall>i. i \<noteq> 0 \<longrightarrow> i \<noteq> 1 \<longrightarrow> sem_nodes (ss_sem s) i = None" "sem_avail (ss_sem s) = 3"
      "\<exists>t. sem_exec (OpDropWaiter 0) s = Some t \<and> sem_list (ss_sem t) = []"
    by (simp add: sem_eval)
  have "woken_ids (ss_sem s) = {0}"
    using w by (auto simp: woken_ids_def)
  then have "no_lost_wakeup (ss_sem s)"
    using w by (simp add: no_lost_wakeup_def promised_def node_units_def)
  with sem_no_lost_wakeup [OF sem_run_reachable [OF s sem_start_reachable] en fh] s w(6)
  show ?thesis by blast
qed

text \<open>
  Claim C38. The exception of the previous claim is real. \<^verbatim>\<open>acquire\<close> on a non-empty queue
  builds a waiter and polls it at once, so it may take units that a release has already promised
  to a woken waiter; that waiter then queues again, and a third waiter whose request fits into
  the available units stays asleep while nobody is on the way to wake it.
\<close>

theorem sem_lost_wakeup:
  "\<exists>s i. reachable sem_init sem_step s \<and> i \<in> set (sem_list (ss_sem s)) \<and>
     node_units (ss_sem s) i \<le> unat (sem_avail (ss_sem s)) \<and> woken_ids (ss_sem s) = {} \<and>
     \<not> sem_closed (ss_sem s)"
proof -
  let ?ops = "[OpAcquire 3 0 10, OpAcquire 2 1 11, OpSignal 3, OpAcquire 1 2 12, OpPoll 0 10]"
  obtain s where s: "sem_run ?ops (sem_start 0) = Some s" and "sem_list (ss_sem s) = [1, 0]"
    "node_units (ss_sem s) 1 \<le> unat (sem_avail (ss_sem s))" "woken_ids (ss_sem s) = {}"
    "\<not> sem_closed (ss_sem s)"
    by (simp add: sem_eval node_units_def woken_ids_def)
  with sem_run_reachable [OF s sem_start_reachable] show ?thesis
    by (intro exI [of _ s] exI [of _ 1]) simp
qed

end
