(* ===== verification/RwLock.thy ===== *)
theory RwLock
  imports Errors
begin

section \<open>The asynchronous reader-writer lock (glommio/src/sync/rwlock.rs)\<close>

text \<open>
  The lock's state (granted accesses, queued writers, waiters, closed flag), its waiters, and the
  \<^verbatim>\<open>RefCell\<close> that holds the protected value, whose dynamic borrow state (\<open>rw_shared\<close> live
  shared borrows, \<open>rw_excl\<close> for a live exclusive one) is what the guards hold: \<^verbatim>\<open>borrow\<close>
  and \<^verbatim>\<open>borrow_mut\<close> panic when the borrow state forbids them.
\<close>

subsection \<open>State\<close>

datatype waiter_kind = Reader | Writer

record rw_node =
  rn_kind :: waiter_kind
  rn_waker :: "waker option"
  rn_woken :: bool

record 'v rwlock =
  rw_writers :: u32
  rw_readers :: u32
  rw_queued_writers :: u32
  rw_queue :: "node_id list"
  rw_closed :: bool
  rw_nodes :: "node_id \<Rightarrow> rw_node option"
  rw_wakes :: "waker list"
  rw_value :: "'v option"
  rw_shared :: nat
  rw_excl :: bool

definition rw_new :: "'v \<Rightarrow> 'v rwlock" where
  "rw_new v = \<lparr>rw_writers = 0, rw_readers = 0, rw_queued_writers = 0, rw_queue = [],
     rw_closed = False, rw_nodes = (\<lambda>_. None), rw_wakes = [], rw_value = Some v,
     rw_shared = 0, rw_excl = False\<rparr>"

type_synonym 'a lock_result = "('a, unit glommio_error) result"

subsection \<open>State::try\_read and State::try\_write\<close>

definition state_try_read :: "'v rwlock \<Rightarrow> bool lock_result \<times> 'v rwlock" where
  "state_try_read s =
     (if rw_closed s then (Inl (Closed ResRwLock), s)
      else if rw_writers s = 0 then (Inr True, s\<lparr>rw_readers := rw_readers s + 1\<rparr>)
      else (Inr False, s))"

definition state_try_write :: "'v rwlock \<Rightarrow> bool lock_result \<times> 'v rwlock" where
  "state_try_write s =
     (if rw_closed s then (Inl (Closed ResRwLock), s)
      else if rw_readers s = 0 \<and> rw_writers s = 0 then (Inr True, s\<lparr>rw_writers := rw_writers s + 1\<rparr>)
      else (Inr False, s))"

subsection \<open>The value's RefCell\<close>

definition value_borrow :: "'v rwlock \<Rightarrow> 'v rwlock option" where
  "value_borrow s = (if rw_excl s then None else Some (s\<lparr>rw_shared := Suc (rw_shared s)\<rparr>))"

definition value_borrow_mut :: "'v rwlock \<Rightarrow> 'v rwlock option" where
  "value_borrow_mut s = (if rw_excl s \<or> rw_shared s > 0 then None else Some (s\<lparr>rw_excl := True\<rparr>))"

subsection \<open>Waking waiters\<close>

text \<open>Take the waker of the node at the cursor, mark it woken and wake it; no waker is a panic.\<close>

definition wake_node :: "node_id \<Rightarrow> 'v rwlock \<Rightarrow> 'v rwlock option" where
  "wake_node i s =
     (case rw_nodes s i of
        None \<Rightarrow> None
      | Some n \<Rightarrow>
          (case rn_waker n of
             None \<Rightarrow> None
           | Some w \<Rightarrow> Some (s\<lparr>rw_nodes := (rw_nodes s)(i \<mapsto> n\<lparr>rn_waker := None, rn_woken := True\<rparr>),
                              rw_wakes := rw_wakes s @ [w]\<rparr>)))"

definition kind_of :: "'v rwlock \<Rightarrow> node_id \<Rightarrow> waiter_kind" where
  "kind_of s i = (case rw_nodes s i of None \<Rightarrow> Reader | Some n \<Rightarrow> rn_kind n)"

fun wake_up_all_fibers :: "node_id list \<Rightarrow> 'v rwlock \<Rightarrow> 'v rwlock option" where
  "wake_up_all_fibers [] s = Some (s\<lparr>rw_queue := []\<rparr>)"
| "wake_up_all_fibers (i # is) s =
     (case wake_node i s of None \<Rightarrow> None | Some s' \<Rightarrow> wake_up_all_fibers is (s'\<lparr>rw_queue := is\<rparr>))"

fun wake_up_all_readers_till_first_writer :: "node_id list \<Rightarrow> 'v rwlock \<Rightarrow> 'v rwlock option" where
  "wake_up_all_readers_till_first_writer [] s = Some (s\<lparr>rw_queue := []\<rparr>)"
| "wake_up_all_readers_till_first_writer (i # is) s =
     (if kind_of s i = Writer then Some (s\<lparr>rw_queue := i # is\<rparr>)
      else (case wake_node i s of
              None \<Rightarrow> None
            | Some s' \<Rightarrow> wake_up_all_readers_till_first_writer is (s'\<lparr>rw_queue := is\<rparr>)))"

fun wake_up_readers_and_first_writer :: "node_id list \<Rightarrow> 'v rwlock \<Rightarrow> 'v rwlock option" where
  "wake_up_readers_and_first_writer [] s = Some (s\<lparr>rw_queue := []\<rparr>)"
| "wake_up_readers_and_first_writer (i # is) s =
     (case wake_node i s of
        None \<Rightarrow> None
      | Some s' \<Rightarrow>
          (if kind_of s i = Writer
           then Some (s'\<lparr>rw_queued_writers := rw_queued_writers s' - 1, rw_queue := is\<rparr>)
           else wake_up_readers_and_first_writer is (s'\<lparr>rw_queue := is\<rparr>)))"

definition wake_up_fibers :: "'v rwlock \<Rightarrow> 'v rwlock option" where
  "wake_up_fibers s =
     (if rw_readers s = 0 \<and> rw_writers s = 0 then
        (if rw_queued_writers s = 0 then wake_up_all_fibers (rw_queue s) s
         else wake_up_readers_and_first_writer (rw_queue s) s)
      else if rw_writers s = 0 then
        (if rw_queued_writers s = 0 then wake_up_all_fibers (rw_queue s) s
         else wake_up_all_readers_till_first_writer (rw_queue s) s)
      else Some s)"

subsection \<open>Waiter\<close>

definition rw_waiter_new :: "waiter_kind \<Rightarrow> node_id \<Rightarrow> 'v rwlock \<Rightarrow> 'v rwlock" where
  "rw_waiter_new k i s =
     s\<lparr>rw_nodes := (rw_nodes s)(i \<mapsto> \<lparr>rn_kind = k, rn_waker = None, rn_woken = False\<rparr>)\<rparr>"

definition rw_remove_from_waiting_queue :: "node_id \<Rightarrow> 'v rwlock \<Rightarrow> 'v rwlock" where
  "rw_remove_from_waiting_queue i s =
     (if i \<in> set (rw_queue s) then s\<lparr>rw_queue := remove1 i (rw_queue s)\<rparr> else s)"

definition rw_register_in_waiting_queue ::
    "node_id \<Rightarrow> rw_node \<Rightarrow> waker \<Rightarrow> waiter_kind \<Rightarrow> 'v rwlock \<Rightarrow> 'v rwlock" where
  "rw_register_in_waiting_queue i n w k s =
     (let s1 = s\<lparr>rw_nodes := (rw_nodes s)(i \<mapsto> n\<lparr>rn_waker := Some w\<rparr>)\<rparr>
      in if i \<in> set (rw_queue s1) then s1
         else let s2 = (if k = Writer then s1\<lparr>rw_queued_writers := rw_queued_writers s1 + 1\<rparr> else s1)
              in s2\<lparr>rw_queue := rw_queue s2 @ [i]\<rparr>)"

text \<open>
  \<^verbatim>\<open>Future::poll\<close>. The error of a closed lock leaves through \<^verbatim>\<open>?\<close>, before the node is
  unlinked.
\<close>

definition rw_waiter_poll :: "node_id \<Rightarrow> waker \<Rightarrow> 'v rwlock \<Rightarrow> (unit lock_result poll \<times> 'v rwlock) option" where
  "rw_waiter_poll i w s =
     (case rw_nodes s i of
        None \<Rightarrow> None
      | Some n \<Rightarrow>
          (let n' = n\<lparr>rn_woken := False\<rparr>;
               s1 = s\<lparr>rw_nodes := (rw_nodes s)(i \<mapsto> n')\<rparr>
           in case (case rn_kind n of Writer \<Rightarrow> state_try_write s1 | Reader \<Rightarrow> state_try_read s1) of
                (Inl e, s2) \<Rightarrow> Some (Ready (Inl e), s2)
              | (Inr True, s2) \<Rightarrow> Some (Ready (Inr ()), rw_remove_from_waiting_queue i s2)
              | (Inr False, s2) \<Rightarrow> Some (Pending, rw_register_in_waiting_queue i n' w (rn_kind n) s2)))"

definition rw_free_node :: "node_id \<Rightarrow> 'v rwlock \<Rightarrow> 'v rwlock" where
  "rw_free_node i s = s\<lparr>rw_nodes := (rw_nodes s)(i := None)\<rparr>"

definition rw_waiter_drop :: "node_id \<Rightarrow> 'v rwlock \<Rightarrow> 'v rwlock option" where
  "rw_waiter_drop i s =
     (case rw_nodes s i of
        None \<Rightarrow> None
      | Some n \<Rightarrow>
          (if rn_woken n then
             (if \<not> rw_closed s then map_option (rw_free_node i) (wake_up_fibers s)
              else Some (rw_free_node i s))
           else if i \<in> set (rw_queue s) then Some (rw_free_node i (rw_remove_from_waiting_queue i s))
           else Some (rw_free_node i s)))"

text \<open>A granted access becomes a guard, which borrows the value.\<close>

definition take_guard :: "waiter_kind \<Rightarrow> 'v rwlock \<Rightarrow> 'v rwlock option" where
  "take_guard k s = (case k of Reader \<Rightarrow> value_borrow s | Writer \<Rightarrow> value_borrow_mut s)"

text \<open>One poll of \<^verbatim>\<open>waiter.await\<close> inside \<^verbatim>\<open>read\<close> or \<^verbatim>\<open>write\<close>, guard included.\<close>

definition rw_waiter_await :: "node_id \<Rightarrow> waker \<Rightarrow> 'v rwlock \<Rightarrow> (unit lock_result poll \<times> 'v rwlock) option" where
  "rw_waiter_await i w s =
     (case rw_waiter_poll i w s of
        None \<Rightarrow> None
      | Some (Pending, s') \<Rightarrow> Some (Pending, s')
      | Some (Ready (Inl e), s') \<Rightarrow> map_option (\<lambda>s''. (Ready (Inl e), s'')) (rw_waiter_drop i s')
      | Some (Ready (Inr _), s') \<Rightarrow>
          Option.bind (rw_waiter_drop i s') (\<lambda>s''.
            map_option (\<lambda>s'''. (Ready (Inr ()), s''')) (take_guard (kind_of s i) s'')))"

subsection \<open>RwLock\<close>

text \<open>The first poll of \<^verbatim>\<open>read\<close>; later polls are \<open>rw_waiter_await\<close>.\<close>

definition rw_read :: "node_id \<Rightarrow> waker \<Rightarrow> 'v rwlock \<Rightarrow> (unit lock_result poll \<times> 'v rwlock) option" where
  "rw_read i w s =
     (case state_try_read s of
        (Inl e, s') \<Rightarrow> Some (Ready (Inl e), s')
      | (Inr True, s') \<Rightarrow> map_option (\<lambda>s''. (Ready (Inr ()), s'')) (value_borrow s')
      | (Inr False, s') \<Rightarrow> rw_waiter_await i w (rw_waiter_new Reader i s'))"

definition rw_write :: "node_id \<Rightarrow> waker \<Rightarrow> 'v rwlock \<Rightarrow> (unit lock_result poll \<times> 'v rwlock) option" where
  "rw_write i w s =
     (case state_try_write s of
        (Inl e, s') \<Rightarrow> Some (Ready (Inl e), s')
      | (Inr True, s') \<Rightarrow> map_option (\<lambda>s''. (Ready (Inr ()), s'')) (value_borrow_mut s')
      | (Inr False, s') \<Rightarrow> rw_waiter_await i w (rw_waiter_new Writer i s'))"

definition rw_try_read :: "'v rwlock \<Rightarrow> (unit lock_result \<times> 'v rwlock) option" where
  "rw_try_read s =
     (case state_try_read s of
        (Inl e, s') \<Rightarrow> Some (Inl e, s')
      | (Inr True, s') \<Rightarrow> map_option (\<lambda>s''. (Inr (), s'')) (value_borrow s')
      | (Inr False, s') \<Rightarrow> Some (Inl (WouldBlock ResRwLock), s'))"

definition rw_try_write :: "'v rwlock \<Rightarrow> (unit lock_result \<times> 'v rwlock) option" where
  "rw_try_write s =
     (case state_try_write s of
        (Inl e, s') \<Rightarrow> Some (Inl e, s')
      | (Inr True, s') \<Rightarrow> map_option (\<lambda>s''. (Inr (), s'')) (value_borrow_mut s')
      | (Inr False, s') \<Rightarrow> Some (Inl (WouldBlock ResRwLock), s'))"

text \<open>Dropping a guard: the state is updated and waiters are woken, then the borrow ends.\<close>

definition read_guard_drop :: "'v rwlock \<Rightarrow> 'v rwlock option" where
  "read_guard_drop s =
     map_option (\<lambda>s'. s'\<lparr>rw_shared := rw_shared s' - 1\<rparr>)
       (if \<not> rw_closed s then wake_up_fibers (s\<lparr>rw_readers := rw_readers s - 1\<rparr>) else Some s)"

definition write_guard_drop :: "'v rwlock \<Rightarrow> 'v rwlock option" where
  "write_guard_drop s =
     map_option (\<lambda>s'. s'\<lparr>rw_excl := False\<rparr>)
       (if \<not> rw_closed s then wake_up_fibers (s\<lparr>rw_writers := rw_writers s - 1\<rparr>) else Some s)"

definition guard_deref :: "'v rwlock \<Rightarrow> 'v option" where
  "guard_deref s = rw_value s"

definition guard_deref_mut :: "('v \<Rightarrow> 'v) \<Rightarrow> 'v rwlock \<Rightarrow> 'v rwlock option" where
  "guard_deref_mut f s =
     (if rw_closed s then None
      else case rw_value s of None \<Rightarrow> None | Some v \<Rightarrow> Some (s\<lparr>rw_value := Some (f v)\<rparr>))"

text \<open>\<^verbatim>\<open>get_mut\<close>, the reference used to apply \<open>f\<close>; it holds the borrow only for the call.\<close>

definition rw_get_mut :: "('v \<Rightarrow> 'v) \<Rightarrow> 'v rwlock \<Rightarrow> (unit lock_result \<times> 'v rwlock) option" where
  "rw_get_mut f s =
     (if rw_closed s then Some (Inl (Closed ResRwLock), s)
      else if rw_excl s \<or> rw_shared s > 0 then None
      else case rw_value s of None \<Rightarrow> None | Some v \<Rightarrow> Some (Inr (), s\<lparr>rw_value := Some (f v)\<rparr>))"

definition rw_is_closed :: "'v rwlock \<Rightarrow> bool" where
  "rw_is_closed s = rw_closed s"

definition rw_close :: "'v rwlock \<Rightarrow> (unit lock_result \<times> 'v rwlock) option" where
  "rw_close s =
     (if rw_closed s then Some (Inr (), s)
      else if rw_writers s > 0 \<or> rw_readers s > 0
      then Some (Inl (CanNotBeClosed ResRwLock ''Lock is still held by fiber(s)''), s)
      else map_option (\<lambda>s'. (Inr (), s')) (wake_up_all_fibers (rw_queue s) (s\<lparr>rw_closed := True\<rparr>)))"

definition rw_into_inner :: "'v rwlock \<Rightarrow> ('v lock_result \<times> 'v rwlock) option" where
  "rw_into_inner s =
     (if rw_closed s then Some (Inl (Closed ResRwLock), s)
      else case rw_close s of
             Some (Inr _, s') \<Rightarrow>
               (if rw_excl s' \<or> rw_shared s' > 0 then None
                else case rw_value s' of
                       None \<Rightarrow> None
                     | Some v \<Rightarrow> Some (Inr v, s'\<lparr>rw_value := None\<rparr>))
           | _ \<Rightarrow> None)"

text \<open>\<^verbatim>\<open>Drop for RwLock\<close>: closing must succeed and no waiter may be linked.\<close>

definition rw_drop :: "'v rwlock \<Rightarrow> unit option" where
  "rw_drop s =
     (case rw_close s of
        Some (Inr _, s') \<Rightarrow> if rw_queue s' = [] then Some () else None
      | _ \<Rightarrow> None)"


subsection \<open>What a wake-up does to the state\<close>

definition rw_waits_ok :: "'v rwlock \<Rightarrow> node_id \<Rightarrow> bool" where
  "rw_waits_ok s i \<longleftrightarrow>
     (case rw_nodes s i of None \<Rightarrow> False | Some n \<Rightarrow> rn_waker n \<noteq> None \<and> \<not> rn_woken n)"

definition rw_node_waker :: "'v rwlock \<Rightarrow> node_id \<Rightarrow> waker" where
  "rw_node_waker s i = the (rn_waker (the (rw_nodes s i)))"

definition rw_mark :: "node_id set \<Rightarrow> (node_id \<Rightarrow> rw_node option) \<Rightarrow> node_id \<Rightarrow> rw_node option" where
  "rw_mark W nd = (\<lambda>i. if i \<in> W then map_option (\<lambda>n. n\<lparr>rn_waker := None, rn_woken := True\<rparr>) (nd i) else nd i)"

text \<open>The waiters \<open>pre\<close> have been woken, in order, and \<open>rest\<close> is left in the queue.\<close>

definition rw_awoken :: "node_id list \<Rightarrow> node_id list \<Rightarrow> u32 \<Rightarrow> 'v rwlock \<Rightarrow> 'v rwlock" where
  "rw_awoken pre rest qw s =
     s\<lparr>rw_queued_writers := qw, rw_queue := rest, rw_nodes := rw_mark (set pre) (rw_nodes s),
       rw_wakes := rw_wakes s @ map (rw_node_waker s) pre\<rparr>"

lemma rw_waits_okE:
  assumes "rw_waits_ok s i"
  obtains n w where "rw_nodes s i = Some n" "rn_waker n = Some w" "\<not> rn_woken n"
  using assms by (auto simp: rw_waits_ok_def split: option.splits)

lemma wake_node_ok:
  assumes "rw_waits_ok s i"
  shows "wake_node i s = Some (s\<lparr>rw_nodes := rw_mark {i} (rw_nodes s), rw_wakes := rw_wakes s @ [rw_node_waker s i]\<rparr>)"
proof -
  from assms obtain n w where n: "rw_nodes s i = Some n" "rn_waker n = Some w" by (rule rw_waits_okE)
  then have "(rw_nodes s)(i \<mapsto> n\<lparr>rn_waker := None, rn_woken := True\<rparr>) = rw_mark {i} (rw_nodes s)"
    by (auto simp: rw_mark_def)
  with n show ?thesis by (simp add: wake_node_def rw_node_waker_def)
qed

lemma rw_mark_mark: "rw_mark V (rw_mark W nd) = rw_mark (V \<union> W) nd"
  by (auto simp: rw_mark_def fun_eq_iff option.map_comp comp_def)

lemma rw_mark_notin [simp]: "i \<notin> W \<Longrightarrow> rw_mark W nd i = nd i"
  by (simp add: rw_mark_def)

lemma rw_mark_empty [simp]: "rw_mark {} nd = nd"
  by (simp add: rw_mark_def)

definition rw_after_wake :: "node_id \<Rightarrow> node_id list \<Rightarrow> 'v rwlock \<Rightarrow> 'v rwlock" where
  "rw_after_wake i is s =
     s\<lparr>rw_nodes := rw_mark {i} (rw_nodes s), rw_wakes := rw_wakes s @ [rw_node_waker s i], rw_queue := is\<rparr>"

lemma rw_after_wake_view:
  "rw_waits_ok (rw_after_wake i is s) j \<longleftrightarrow> i \<noteq> j \<and> rw_waits_ok s j"
  "kind_of (rw_after_wake i is s) j = kind_of s j"
  "rw_queued_writers (rw_after_wake i is s) = rw_queued_writers s"
  by (cases "rw_nodes s j"; auto simp: rw_after_wake_def rw_waits_ok_def kind_of_def rw_mark_def)+

lemma rw_awoken_after_wake:
  assumes "i \<notin> set pre"
  shows "rw_awoken pre rest qw (rw_after_wake i is s) = rw_awoken (i # pre) rest qw s"
proof -
  have "map (rw_node_waker (rw_after_wake i is s)) pre = map (rw_node_waker s) pre"
    using assms by (intro map_cong) (auto simp: rw_node_waker_def rw_after_wake_def rw_mark_def)
  moreover have "rw_mark (set pre) (rw_mark {i} (rw_nodes s)) = rw_mark (set (i # pre)) (rw_nodes s)"
    by (simp add: rw_mark_mark)
  ultimately show ?thesis by (simp add: rw_awoken_def) (simp add: rw_after_wake_def)
qed

lemma wake_all_spec:
  assumes "distinct is" "\<forall>i\<in>set is. rw_waits_ok s i"
  shows "wake_up_all_fibers is s = Some (rw_awoken is [] (rw_queued_writers s) s)"
  using assms
proof (induction "is" arbitrary: s)
  case Nil
  show ?case by (simp add: rw_awoken_def)
next
  case (Cons i "is")
  let ?s = "rw_after_wake i is s"
  have "wake_up_all_fibers (i # is) s = wake_up_all_fibers is ?s"
    using Cons.prems by (simp add: wake_node_ok rw_after_wake_def)
  also have "\<dots> = Some (rw_awoken is [] (rw_queued_writers ?s) ?s)"
    using Cons.prems by (intro Cons.IH) (auto simp: rw_after_wake_view)
  finally show ?case
    using Cons.prems by (simp add: rw_awoken_after_wake rw_after_wake_view)
qed

abbreviation is_reader :: "'v rwlock \<Rightarrow> node_id \<Rightarrow> bool" where
  "is_reader s i \<equiv> kind_of s i = Reader"

lemma not_Writer [simp]: "k \<noteq> Writer \<longleftrightarrow> k = Reader" "k \<noteq> Reader \<longleftrightarrow> k = Writer"
  by (cases k; simp)+

lemma wake_till_writer_spec:
  assumes "distinct is" "\<forall>i\<in>set is. rw_waits_ok s i"
  shows "wake_up_all_readers_till_first_writer is s =
     Some (rw_awoken (takeWhile (is_reader s) is) (dropWhile (is_reader s) is) (rw_queued_writers s) s)"
  using assms
proof (induction "is" arbitrary: s)
  case Nil
  show ?case by (simp add: rw_awoken_def)
next
  case (Cons i "is")
  let ?s = "rw_after_wake i is s"
  show ?case
  proof (cases "kind_of s i")
    case Writer
    then show ?thesis by (simp add: rw_awoken_def)
  next
    case Reader
    then have "wake_up_all_readers_till_first_writer (i # is) s = wake_up_all_readers_till_first_writer is ?s"
      using Cons.prems by (simp add: wake_node_ok rw_after_wake_def)
    also have "\<dots> = Some (rw_awoken (takeWhile (is_reader ?s) is) (dropWhile (is_reader ?s) is) (rw_queued_writers ?s) ?s)"
      using Cons.prems by (intro Cons.IH) (auto simp: rw_after_wake_view)
    also have "takeWhile (is_reader ?s) is = takeWhile (is_reader s) is"
      using Cons.prems by (intro takeWhile_cong) (auto simp: rw_after_wake_view)
    also have "dropWhile (is_reader ?s) is = dropWhile (is_reader s) is"
      using Cons.prems by (intro dropWhile_cong) (auto simp: rw_after_wake_view)
    finally have "wake_up_all_readers_till_first_writer (i # is) s = Some (rw_awoken
        (takeWhile (is_reader s) is) (dropWhile (is_reader s) is) (rw_queued_writers s) ?s)"
      by (simp only: rw_after_wake_view)
    moreover have "i \<notin> set (takeWhile (is_reader s) is)" using Cons.prems by (auto dest: set_takeWhileD)
    ultimately show ?thesis using Reader
      by (simp only: rw_awoken_after_wake takeWhile.simps dropWhile.simps if_True simp_thms)
  qed
qed

definition upto_writer :: "('a \<Rightarrow> bool) \<Rightarrow> 'a list \<Rightarrow> 'a list" where
  "upto_writer P xs = takeWhile P xs @ take 1 (dropWhile P xs)"

lemma upto_writer_simps [simp]:
  "upto_writer P [] = []" "upto_writer P (x # xs) = (if P x then x # upto_writer P xs else [x])"
  by (simp_all add: upto_writer_def)

lemma upto_writer_cong: "\<forall>x\<in>set xs. P x = Q x \<Longrightarrow> upto_writer P xs = upto_writer Q xs"
  by (induction xs) auto

lemma set_upto_writer: "set (upto_writer P xs) \<subseteq> set xs"
  by (auto simp: upto_writer_def dest: set_takeWhileD in_set_takeD set_dropWhileD)

lemma wake_and_writer_spec:
  assumes "distinct is" "\<forall>i\<in>set is. rw_waits_ok s i"
  shows "wake_up_readers_and_first_writer is s =
     Some (rw_awoken (upto_writer (is_reader s) is) (drop 1 (dropWhile (is_reader s) is))
       (if dropWhile (is_reader s) is = [] then rw_queued_writers s else rw_queued_writers s - 1) s)"
  using assms
proof (induction "is" arbitrary: s)
  case Nil
  show ?case by (simp add: rw_awoken_def)
next
  case (Cons i "is")
  let ?s = "rw_after_wake i is s"
  show ?case
  proof (cases "kind_of s i")
    case Writer
    then have "wake_up_readers_and_first_writer (i # is) s =
        Some (?s\<lparr>rw_queued_writers := rw_queued_writers s - 1, rw_queue := is\<rparr>)"
      using Cons.prems by (simp add: wake_node_ok rw_after_wake_def)
    also have "?s\<lparr>rw_queued_writers := rw_queued_writers s - 1, rw_queue := is\<rparr> =
        rw_awoken [i] is (rw_queued_writers s - 1) s"
      by (simp add: rw_after_wake_def rw_awoken_def)
    finally show ?thesis using Writer by simp
  next
    case Reader
    then have "wake_up_readers_and_first_writer (i # is) s = wake_up_readers_and_first_writer is ?s"
      using Cons.prems by (simp add: wake_node_ok rw_after_wake_def)
    also have "\<dots> = Some (rw_awoken (upto_writer (is_reader ?s) is) (drop 1 (dropWhile (is_reader ?s) is))
       (if dropWhile (is_reader ?s) is = [] then rw_queued_writers ?s else rw_queued_writers ?s - 1) ?s)"
      using Cons.prems by (intro Cons.IH) (auto simp: rw_after_wake_view)
    also have "upto_writer (is_reader ?s) is = upto_writer (is_reader s) is"
      using Cons.prems by (intro upto_writer_cong) (auto simp: rw_after_wake_view)
    also have "dropWhile (is_reader ?s) is = dropWhile (is_reader s) is"
      using Cons.prems by (intro dropWhile_cong) (auto simp: rw_after_wake_view)
    finally have "wake_up_readers_and_first_writer (i # is) s = Some (rw_awoken
        (upto_writer (is_reader s) is) (drop 1 (dropWhile (is_reader s) is))
        (if dropWhile (is_reader s) is = [] then rw_queued_writers s else rw_queued_writers s - 1) ?s)"
      by (simp only: rw_after_wake_view)
    moreover have "i \<notin> set (upto_writer (is_reader s) is)"
      using Cons.prems set_upto_writer [of "is_reader s" "is"] by auto
    ultimately show ?thesis using Reader
      by (simp only: rw_awoken_after_wake upto_writer_simps dropWhile.simps if_True simp_thms)
  qed
qed


subsection \<open>Invariant\<close>

definition rw_queue_ok :: "'v rwlock \<Rightarrow> bool" where
  "rw_queue_ok s \<longleftrightarrow> distinct (rw_queue s) \<and> (\<forall>i\<in>set (rw_queue s). rw_waits_ok s i)"

definition writers_in :: "'v rwlock \<Rightarrow> node_id list \<Rightarrow> nat" where
  "writers_in s is = length (filter (\<lambda>i. kind_of s i = Writer) is)"

definition rw_some_woken :: "'v rwlock \<Rightarrow> bool" where
  "rw_some_woken s \<longleftrightarrow> (\<exists>i n. rw_nodes s i = Some n \<and> rn_woken n)"

definition rw_held :: "'v rwlock \<Rightarrow> bool" where
  "rw_held s \<longleftrightarrow> rw_readers s \<noteq> 0 \<or> rw_writers s \<noteq> 0"

text \<open>The counters agree with the guards that are alive.\<close>

definition rw_guards_ok :: "'v rwlock \<Rightarrow> bool" where
  "rw_guards_ok s \<longleftrightarrow> unat (rw_readers s) = rw_shared s \<and> unat (rw_writers s) = (if rw_excl s then 1 else 0) \<and>
     (rw_excl s \<longrightarrow> rw_shared s = 0)"

definition rw_wf :: "'v rwlock \<Rightarrow> bool" where
  "rw_wf s \<longleftrightarrow> rw_queue_ok s \<and> rw_guards_ok s \<and> rw_value s \<noteq> None \<and>
     writers_in s (rw_queue s) \<le> unat (rw_queued_writers s) \<and>
     (rw_closed s \<longrightarrow> rw_queue s = [] \<and> \<not> rw_held s) \<and>
     (rw_queue s \<noteq> [] \<longrightarrow> rw_held s \<or> rw_some_woken s)"

lemmas rw_wf_defs = rw_wf_def rw_queue_ok_def rw_guards_ok_def

lemma rw_wf_new: "rw_wf (rw_new v)"
  by (simp add: rw_wf_defs rw_new_def writers_in_def rw_held_def)

lemma rw_held_unat: "rw_held s \<longleftrightarrow> unat (rw_readers s) > 0 \<or> unat (rw_writers s) > 0"
  by (auto simp: rw_held_def unat_gt_0)

lemma rw_awoken_sel [simp]:
  "rw_queue (rw_awoken pre rest qw s) = rest" "rw_readers (rw_awoken pre rest qw s) = rw_readers s"
  "rw_writers (rw_awoken pre rest qw s) = rw_writers s" "rw_queued_writers (rw_awoken pre rest qw s) = qw"
  "rw_closed (rw_awoken pre rest qw s) = rw_closed s" "rw_value (rw_awoken pre rest qw s) = rw_value s"
  "rw_shared (rw_awoken pre rest qw s) = rw_shared s" "rw_excl (rw_awoken pre rest qw s) = rw_excl s"
  "rw_nodes (rw_awoken pre rest qw s) = rw_mark (set pre) (rw_nodes s)"
  "rw_wakes (rw_awoken pre rest qw s) = rw_wakes s @ map (rw_node_waker s) pre"
  by (simp_all add: rw_awoken_def)

lemma kind_of_awoken [simp]: "kind_of (rw_awoken pre rest qw s) = kind_of s"
  by (auto simp: kind_of_def rw_mark_def fun_eq_iff split: option.splits)

lemma writers_in_awoken [simp]: "writers_in (rw_awoken pre rest qw s) = writers_in s"
  by (simp add: writers_in_def fun_eq_iff)

lemma writers_in_append: "writers_in s (xs @ ys) = writers_in s xs + writers_in s ys"
  by (simp add: writers_in_def)

lemma writers_in_readers: "\<forall>i\<in>set xs. is_reader s i \<Longrightarrow> writers_in s xs = 0"
  by (simp add: writers_in_def)

lemma writers_in_pos: "writers_in s xs = 0 \<longleftrightarrow> (\<forall>i\<in>set xs. is_reader s i)"
  by (auto simp: writers_in_def filter_empty_conv)

text \<open>
  A wake-up wakes a prefix of the queue, never an empty one when the lock is free; the count of
  queued writers stays an upper bound of the writers that are queued.
\<close>

lemma drop1_dropWhile: "upto_writer P xs @ drop 1 (dropWhile P xs) = xs"
  by (simp add: upto_writer_def)

lemma writers_upto_writer:
  assumes "dropWhile (is_reader s) xs \<noteq> []"
  shows "writers_in s xs = Suc (writers_in s (drop 1 (dropWhile (is_reader s) xs)))"
proof -
  obtain y ys where y: "dropWhile (is_reader s) xs = y # ys" using assms by (cases "dropWhile (is_reader s) xs") auto
  then have "\<not> is_reader s y" using hd_dropWhile [of "is_reader s" xs] assms by simp
  then have "writers_in s (y # ys) = Suc (writers_in s ys)" by (simp add: writers_in_def)
  moreover have "writers_in s (takeWhile (is_reader s) xs) = 0"
    by (intro writers_in_readers) (auto dest: set_takeWhileD)
  moreover have "writers_in s xs = writers_in s (takeWhile (is_reader s) xs) + writers_in s (y # ys)"
    using writers_in_append [of s "takeWhile (is_reader s) xs" "y # ys"] takeWhile_dropWhile_id [of "is_reader s" xs]
    by (simp add: y)
  ultimately show ?thesis by (simp add: y)
qed

lemma wake_up_fibers_prefix:
  assumes q: "rw_queue_ok s" and c: "writers_in s (rw_queue s) \<le> unat (rw_queued_writers s)"
  obtains pre rest qw where "wake_up_fibers s = Some (rw_awoken pre rest qw s)" "rw_queue s = pre @ rest"
    "writers_in s rest \<le> unat qw" "\<not> rw_held s \<longrightarrow> rw_queue s \<noteq> [] \<longrightarrow> pre \<noteq> []"
proof -
  let ?q = "rw_queue s" and ?qw = "rw_queued_writers s"
  have d: "distinct ?q" and ok: "\<forall>i\<in>set ?q. rw_waits_ok s i" using q by (simp_all add: rw_queue_ok_def)
  consider (all) "rw_writers s = 0" "?qw = 0"
    | (first) "rw_readers s = 0" "rw_writers s = 0" "?qw \<noteq> 0"
    | (till) "rw_readers s \<noteq> 0" "rw_writers s = 0" "?qw \<noteq> 0"
    | (held) "rw_writers s \<noteq> 0"
    by blast
  then show ?thesis
  proof cases
    case all
    then have "wake_up_fibers s = Some (rw_awoken ?q [] ?qw s)"
      using wake_all_spec [OF d ok] by (simp add: wake_up_fibers_def)
    from that [OF this] c show ?thesis by (simp add: writers_in_def)
  next
    case first
    let ?rest = "drop 1 (dropWhile (is_reader s) ?q)"
    let ?qw' = "if dropWhile (is_reader s) ?q = [] then ?qw else ?qw - 1"
    have w: "wake_up_fibers s = Some (rw_awoken (upto_writer (is_reader s) ?q) ?rest ?qw' s)"
      using first wake_and_writer_spec [OF d ok] by (simp add: wake_up_fibers_def)
    have "unat (?qw - 1) = unat ?qw - 1"
      using first(3) by (simp add: unat_minus_one)
    moreover have "writers_in s ?rest \<le> writers_in s ?q"
      using writers_in_append [of s "upto_writer (is_reader s) ?q" ?rest] by (simp only: drop1_dropWhile)
    ultimately have "writers_in s ?rest \<le> unat ?qw'"
      using c writers_upto_writer [of s ?q]
      by (cases "dropWhile (is_reader s) ?q = []") (simp_all del: dropWhile_eq_Nil_conv)
    moreover have "upto_writer (is_reader s) ?q \<noteq> []" if "?q \<noteq> []"
      using that by (cases ?q) auto
    ultimately show ?thesis using that [OF w] drop1_dropWhile [of "is_reader s" ?q] by metis
  next
    case till
    then have w: "wake_up_fibers s =
        Some (rw_awoken (takeWhile (is_reader s) ?q) (dropWhile (is_reader s) ?q) ?qw s)"
      using wake_till_writer_spec [OF d ok] by (simp add: wake_up_fibers_def)
    have "writers_in s (dropWhile (is_reader s) ?q) \<le> unat ?qw"
      using c writers_in_append [of s "takeWhile (is_reader s) ?q" "dropWhile (is_reader s) ?q"] by simp
    then show ?thesis using that [OF w] till by (simp add: rw_held_def)
  next
    case held
    then have "wake_up_fibers s = Some (rw_awoken [] ?q ?qw s)"
      by (simp add: wake_up_fibers_def rw_awoken_def)
    from that [OF this] held c show ?thesis by (simp add: rw_held_def)
  qed
qed


lemma waits_ok_not_woken: "rw_waits_ok s i \<Longrightarrow> rw_nodes s i = Some n \<Longrightarrow> \<not> rn_woken n"
  by (simp add: rw_waits_ok_def)

lemma awoken_queue_ok:
  assumes "rw_queue_ok s" "rw_queue s = pre @ rest"
  shows "rw_queue_ok (rw_awoken pre rest qw s)"
proof -
  have "rw_waits_ok (rw_awoken pre rest qw s) i = rw_waits_ok s i" if "i \<in> set rest" for i
  proof -
    have "i \<notin> set pre" using that assms by (auto simp: rw_queue_ok_def)
    then show ?thesis by (simp add: rw_waits_ok_def)
  qed
  with assms show ?thesis by (auto simp: rw_queue_ok_def)
qed

lemma awoken_some_woken:
  assumes "rw_queue_ok s" "rw_queue s = pre @ rest" "i \<in> set pre"
  shows "\<exists>n. rw_nodes (rw_awoken pre rest qw s) i = Some n \<and> rn_woken n"
  using assms by (auto simp: rw_queue_ok_def rw_mark_def elim!: rw_waits_okE dest!: bspec)

text \<open>Releasing an access: the counters are already updated, the queue may have to be woken.\<close>

definition rw_woke :: "'v rwlock \<Rightarrow> 'v rwlock \<Rightarrow> bool" where
  "rw_woke s t \<longleftrightarrow> rw_queue_ok t \<and> writers_in t (rw_queue t) \<le> unat (rw_queued_writers t) \<and>
     (rw_queue t \<noteq> [] \<longrightarrow> rw_held t \<or> (\<exists>j\<in>set (rw_queue s). \<exists>n. rw_nodes t j = Some n \<and> rn_woken n)) \<and>
     rw_readers t = rw_readers s \<and> rw_writers t = rw_writers s \<and> rw_closed t = rw_closed s \<and>
     rw_shared t = rw_shared s \<and> rw_excl t = rw_excl s \<and> rw_value t = rw_value s \<and>
     set (rw_queue t) \<subseteq> set (rw_queue s)"

lemma wake_up_fibers_ok:
  assumes q: "rw_queue_ok s" and c: "writers_in s (rw_queue s) \<le> unat (rw_queued_writers s)"
  shows "\<exists>t. wake_up_fibers s = Some t \<and> rw_woke s t"
proof -
  obtain pre rest qw where w: "wake_up_fibers s = Some (rw_awoken pre rest qw s)" and pq: "rw_queue s = pre @ rest"
    and cr: "writers_in s rest \<le> unat qw" and ne: "\<not> rw_held s \<longrightarrow> rw_queue s \<noteq> [] \<longrightarrow> pre \<noteq> []"
    using q c by (rule wake_up_fibers_prefix)
  let ?t = "rw_awoken pre rest qw s"
  have "rw_held ?t \<or> (\<exists>j\<in>set (rw_queue s). \<exists>n. rw_nodes ?t j = Some n \<and> rn_woken n)" if "rest \<noteq> []"
  proof (cases "rw_held s")
    case True
    then show ?thesis by (simp add: rw_held_def)
  next
    case False
    with ne pq that obtain j where "j \<in> set pre" by (cases pre) auto
    with awoken_some_woken [OF q pq this] pq show ?thesis by auto
  qed
  with w awoken_queue_ok [OF q pq] cr pq show ?thesis by (simp add: rw_woke_def)
qed

lemma kind_of_frame [simp]:
  "kind_of (s\<lparr>rw_readers := r\<rparr>) = kind_of s" "kind_of (s\<lparr>rw_writers := r\<rparr>) = kind_of s"
  "kind_of (s\<lparr>rw_shared := k\<rparr>) = kind_of s" "kind_of (s\<lparr>rw_excl := b\<rparr>) = kind_of s"
  "kind_of (s\<lparr>rw_closed := b\<rparr>) = kind_of s" "kind_of (s\<lparr>rw_value := v\<rparr>) = kind_of s"
  by (simp_all add: kind_of_def fun_eq_iff)

lemma rw_waits_ok_frame [simp]:
  "rw_waits_ok (s\<lparr>rw_readers := r\<rparr>) = rw_waits_ok s" "rw_waits_ok (s\<lparr>rw_writers := r\<rparr>) = rw_waits_ok s"
  "rw_waits_ok (s\<lparr>rw_shared := k\<rparr>) = rw_waits_ok s" "rw_waits_ok (s\<lparr>rw_excl := b\<rparr>) = rw_waits_ok s"
  "rw_waits_ok (s\<lparr>rw_closed := b\<rparr>) = rw_waits_ok s" "rw_waits_ok (s\<lparr>rw_value := v\<rparr>) = rw_waits_ok s"
  by (simp_all add: rw_waits_ok_def fun_eq_iff)

lemma writers_in_frame [simp]:
  "writers_in (s\<lparr>rw_readers := r\<rparr>) = writers_in s" "writers_in (s\<lparr>rw_writers := r\<rparr>) = writers_in s"
  "writers_in (s\<lparr>rw_shared := k\<rparr>) = writers_in s" "writers_in (s\<lparr>rw_excl := b\<rparr>) = writers_in s"
  "writers_in (s\<lparr>rw_closed := b\<rparr>) = writers_in s" "writers_in (s\<lparr>rw_value := v\<rparr>) = writers_in s"
  by (simp_all add: writers_in_def fun_eq_iff)

lemma rw_queue_ok_frame [simp]:
  "rw_queue_ok (s\<lparr>rw_readers := r\<rparr>) = rw_queue_ok s" "rw_queue_ok (s\<lparr>rw_writers := r\<rparr>) = rw_queue_ok s"
  "rw_queue_ok (s\<lparr>rw_shared := k\<rparr>) = rw_queue_ok s" "rw_queue_ok (s\<lparr>rw_excl := b\<rparr>) = rw_queue_ok s"
  "rw_queue_ok (s\<lparr>rw_closed := b\<rparr>) = rw_queue_ok s" "rw_queue_ok (s\<lparr>rw_value := v\<rparr>) = rw_queue_ok s"
  by (simp_all add: rw_queue_ok_def)

subsection \<open>Guards\<close>

lemma rw_some_wokenI: "rw_nodes s i = Some n \<Longrightarrow> rn_woken n \<Longrightarrow> rw_some_woken s"
  by (auto simp: rw_some_woken_def)

lemma u32_dec: "(x::u32) \<noteq> 0 \<Longrightarrow> unat (x - 1) = unat x - 1"
  by (simp add: unat_minus_one)

lemma read_guard_drop_wf:
  assumes wf: "rw_wf s" and g: "rw_shared s > 0"
  shows "\<exists>t. read_guard_drop s = Some t \<and> rw_wf t"
proof -
  let ?s = "s\<lparr>rw_readers := rw_readers s - 1\<rparr>"
  have r: "unat (rw_readers s) = rw_shared s" and w0: "unat (rw_writers s) = 0" and nc: "\<not> rw_closed s"
    using wf g by (auto simp: rw_wf_defs rw_held_unat split: if_splits)
  have "rw_readers s \<noteq> 0" using r g by auto
  then have r': "unat (rw_readers s - 1) = rw_shared s - 1" by (simp add: u32_dec r)
  obtain t where t: "wake_up_fibers ?s = Some t" "rw_woke ?s t"
    using wake_up_fibers_ok [of ?s] wf by (auto simp: rw_wf_def)
  have "rw_wf (t\<lparr>rw_shared := rw_shared t - 1\<rparr>)"
    using t(2) wf r' w0 nc g
    by (auto simp: rw_woke_def rw_wf_def rw_guards_ok_def rw_held_def rw_some_woken_def split: if_splits)
  with t(1) nc show ?thesis by (simp add: read_guard_drop_def)
qed

lemma write_guard_drop_wf:
  assumes wf: "rw_wf s" and g: "rw_excl s"
  shows "\<exists>t. write_guard_drop s = Some t \<and> rw_wf t"
proof -
  let ?s = "s\<lparr>rw_writers := rw_writers s - 1\<rparr>"
  have r: "unat (rw_readers s) = 0" "rw_shared s = 0" and w1: "unat (rw_writers s) = 1" and nc: "\<not> rw_closed s"
    using wf g by (auto simp: rw_wf_defs rw_held_unat split: if_splits)
  have "rw_writers s \<noteq> 0" using w1 by auto
  then have w': "unat (rw_writers s - 1) = 0" by (simp add: u32_dec w1)
  obtain t where t: "wake_up_fibers ?s = Some t" "rw_woke ?s t"
    using wake_up_fibers_ok [of ?s] wf by (auto simp: rw_wf_def)
  have "rw_wf (t\<lparr>rw_excl := False\<rparr>)"
    using t(2) wf r w' nc g
    by (auto simp: rw_woke_def rw_wf_def rw_guards_ok_def rw_held_def rw_some_woken_def)
  with t(1) nc show ?thesis by (simp add: write_guard_drop_def)
qed


subsection \<open>Polls\<close>

definition rw_unlinked :: "node_id \<Rightarrow> 'v rwlock \<Rightarrow> 'v rwlock" where
  "rw_unlinked i s = s\<lparr>rw_queue := remove1 i (rw_queue s), rw_nodes := (rw_nodes s)(i := None)\<rparr>"

definition rw_granted :: "waiter_kind \<Rightarrow> 'v rwlock \<Rightarrow> 'v rwlock" where
  "rw_granted k s = (case k of
       Reader \<Rightarrow> s\<lparr>rw_readers := rw_readers s + 1, rw_shared := Suc (rw_shared s)\<rparr>
     | Writer \<Rightarrow> s\<lparr>rw_writers := rw_writers s + 1, rw_excl := True\<rparr>)"

definition rw_can_grant :: "waiter_kind \<Rightarrow> 'v rwlock \<Rightarrow> bool" where
  "rw_can_grant k s \<longleftrightarrow> rw_writers s = 0 \<and> (k = Writer \<longrightarrow> rw_readers s = 0)"

definition rw_queued :: "node_id \<Rightarrow> rw_node \<Rightarrow> waker \<Rightarrow> 'v rwlock \<Rightarrow> 'v rwlock" where
  "rw_queued i n w s =
     s\<lparr>rw_nodes := (rw_nodes s)(i \<mapsto> n\<lparr>rn_woken := False, rn_waker := Some w\<rparr>),
       rw_queued_writers := (if i \<notin> set (rw_queue s) \<and> rn_kind n = Writer then rw_queued_writers s + 1
                             else rw_queued_writers s),
       rw_queue := (if i \<in> set (rw_queue s) then rw_queue s else rw_queue s @ [i])\<rparr>"

lemma guards_borrow:
  assumes "rw_guards_ok s" "rw_can_grant k s"
  shows "\<not> rw_excl s" "k = Writer \<longrightarrow> rw_shared s = 0"
  using assms by (auto simp: rw_guards_ok_def rw_can_grant_def split: if_splits)

lemma await_closed:
  assumes "rw_nodes s i = Some n" "rw_closed s" "rw_queue s = []"
  shows "rw_waiter_await i w s = Some (Ready (Inl (Closed ResRwLock)), rw_unlinked i s)"
  using assms
  by (cases "rn_kind n")
     (simp_all add: rw_waiter_await_def rw_waiter_poll_def state_try_read_def state_try_write_def Let_def
       rw_waiter_drop_def rw_free_node_def rw_unlinked_def)

lemma await_granted:
  assumes "rw_nodes s i = Some n" "\<not> rw_closed s" "rw_can_grant (rn_kind n) s" "rw_guards_ok s"
    "distinct (rw_queue s)"
  shows "rw_waiter_await i w s = Some (Ready (Inr ()), rw_granted (rn_kind n) (rw_unlinked i s))"
  using assms guards_borrow [OF assms(4,3)]
  by (cases "rn_kind n"; cases "i \<in> set (rw_queue s)")
     (simp_all add: rw_waiter_await_def rw_waiter_poll_def state_try_read_def state_try_write_def Let_def
       rw_waiter_drop_def rw_free_node_def rw_unlinked_def rw_can_grant_def rw_remove_from_waiting_queue_def
       take_guard_def value_borrow_def value_borrow_mut_def kind_of_def rw_granted_def remove1_idem)

lemma await_pending:
  assumes "rw_nodes s i = Some n" "\<not> rw_closed s" "\<not> rw_can_grant (rn_kind n) s"
  shows "rw_waiter_await i w s = Some (Pending, rw_queued i n w s)"
  using assms
  by (cases "rn_kind n"; cases "i \<in> set (rw_queue s)")
     (auto simp: rw_waiter_await_def rw_waiter_poll_def state_try_read_def state_try_write_def Let_def
       rw_can_grant_def rw_register_in_waiting_queue_def rw_queued_def)

text \<open>The counters of accesses and of queued writers have room for one more.\<close>

definition rw_room :: "'v rwlock \<Rightarrow> bool" where
  "rw_room s \<longleftrightarrow> unat (rw_readers s) + 1 < 2 ^ 32 \<and> unat (rw_queued_writers s) + 1 < 2 ^ 32"

lemma u32_inc: "unat (x::u32) + 1 < 2 ^ 32 \<Longrightarrow> unat (x + 1) = unat x + 1"
  using unat_add_small [of x 1] by simp

lemma rw_granted_wf:
  assumes wf: "rw_wf s" and k: "rw_can_grant k s" and nc: "\<not> rw_closed s" and room: "rw_room s"
  shows "rw_wf (rw_granted k s)"
proof -
  have b: "\<not> rw_excl s" "k = Writer \<longrightarrow> rw_shared s = 0"
    using guards_borrow [of s k] wf k by (auto simp: rw_wf_def)
  have u: "unat (rw_readers s + 1) = unat (rw_readers s) + 1" using room by (simp add: rw_room_def u32_inc)
  have "unat (1::u32) = 1" by simp
  show ?thesis
  proof (cases k)
    case Reader
    have "rw_readers s + 1 \<noteq> 0" using u by (metis add_is_0 one_neq_zero unat_0)
    then have "rw_held (rw_granted k s)" using Reader by (simp add: rw_held_def rw_granted_def)
    then show ?thesis using wf Reader b u nc k
      by (auto simp: rw_wf_def rw_granted_def rw_guards_ok_def rw_can_grant_def)
  next
    case Writer
    then have "rw_held (rw_granted k s)" using k by (simp add: rw_held_def rw_granted_def rw_can_grant_def)
    then show ?thesis using wf Writer b nc k
      by (auto simp: rw_wf_def rw_granted_def rw_guards_ok_def rw_can_grant_def)
  qed
qed

lemma rw_unlinked_sel [simp]:
  "rw_queue (rw_unlinked i s) = remove1 i (rw_queue s)" "rw_readers (rw_unlinked i s) = rw_readers s"
  "rw_writers (rw_unlinked i s) = rw_writers s" "rw_queued_writers (rw_unlinked i s) = rw_queued_writers s"
  "rw_closed (rw_unlinked i s) = rw_closed s" "rw_value (rw_unlinked i s) = rw_value s"
  "rw_shared (rw_unlinked i s) = rw_shared s" "rw_excl (rw_unlinked i s) = rw_excl s"
  "rw_nodes (rw_unlinked i s) = (rw_nodes s)(i := None)"
  by (simp_all add: rw_unlinked_def)

text \<open>Operations on the queue only leave the guards as they are.\<close>

definition same_guards :: "'v rwlock \<Rightarrow> 'v rwlock \<Rightarrow> bool" where
  "same_guards s t \<longleftrightarrow> rw_readers t = rw_readers s \<and> rw_writers t = rw_writers s \<and>
     rw_closed t = rw_closed s \<and> rw_shared t = rw_shared s \<and> rw_excl t = rw_excl s \<and> rw_value t = rw_value s"

lemma rw_wf_requeue:
  assumes wf: "rw_wf s" and g: "same_guards s t" and q: "rw_queue_ok t"
    and c: "writers_in t (rw_queue t) \<le> unat (rw_queued_writers t)"
    and e: "rw_queue s = [] \<Longrightarrow> rw_queue t = []"
    and w: "rw_queue t \<noteq> [] \<Longrightarrow> \<not> rw_held s \<Longrightarrow> rw_some_woken t"
  shows "rw_wf t"
proof -
  have h: "rw_held t = rw_held s" using g by (simp add: same_guards_def rw_held_def)
  have "rw_guards_ok t" "rw_value t \<noteq> None"
    using g wf by (simp_all add: same_guards_def rw_guards_ok_def rw_wf_def)
  moreover have "rw_closed t \<longrightarrow> rw_queue t = [] \<and> \<not> rw_held t"
    using g wf e h by (simp add: same_guards_def rw_wf_def)
  moreover have "rw_queue t \<noteq> [] \<longrightarrow> rw_held t \<or> rw_some_woken t" using w h by blast
  ultimately show ?thesis using q c by (simp add: rw_wf_def)
qed

lemma same_guards_ops [simp]: "same_guards s (rw_unlinked i s)" "same_guards s (rw_waiter_new k i s)"
  by (simp_all add: same_guards_def rw_waiter_new_def)

lemma kind_of_unlinked: "j \<noteq> i \<Longrightarrow> kind_of (rw_unlinked i s) j = kind_of s j"
  by (simp add: kind_of_def rw_unlinked_def)

lemma writers_in_remove1: "writers_in s (remove1 i xs) \<le> writers_in s xs"
  by (induction xs) (auto simp: writers_in_def)

lemma writers_in_cong: "\<forall>j\<in>set xs. kind_of s j = kind_of t j \<Longrightarrow> writers_in s xs = writers_in t xs"
  by (induction xs) (auto simp: writers_in_def)

lemma rw_unlinked_queue:
  assumes "rw_queue_ok s"
  shows "rw_queue_ok (rw_unlinked i s)"
    "writers_in (rw_unlinked i s) (rw_queue (rw_unlinked i s)) \<le> writers_in s (rw_queue s)"
proof -
  have rm: "set (remove1 i (rw_queue s)) = set (rw_queue s) - {i}" using assms by (simp add: rw_queue_ok_def)
  then show "rw_queue_ok (rw_unlinked i s)"
    using assms by (auto simp: rw_queue_ok_def rw_unlinked_def rw_waits_ok_def)
  have "writers_in (rw_unlinked i s) (remove1 i (rw_queue s)) = writers_in s (remove1 i (rw_queue s))"
    using rm by (intro writers_in_cong) (simp add: kind_of_unlinked)
  then show "writers_in (rw_unlinked i s) (rw_queue (rw_unlinked i s)) \<le> writers_in s (rw_queue s)"
    using writers_in_remove1 [of s i "rw_queue s"] by (simp add: rw_unlinked_def)
qed

text \<open>Unlinking a waiter that was not woken, or any waiter while the lock is held, is harmless.\<close>

lemma rw_unlinked_wf:
  assumes wf: "rw_wf s" and n: "rw_nodes s i = Some n" and ok: "rn_woken n \<longrightarrow> rw_queue s = []"
  shows "rw_wf (rw_unlinked i s)"
proof (rule rw_wf_requeue [OF wf])
  have qs: "rw_queue_ok s" and c: "writers_in s (rw_queue s) \<le> unat (rw_queued_writers s)"
    using wf by (simp_all add: rw_wf_def)
  note q = rw_unlinked_queue [OF qs, of i]
  show "rw_queue_ok (rw_unlinked i s)" by (rule q(1))
  show "writers_in (rw_unlinked i s) (rw_queue (rw_unlinked i s)) \<le> unat (rw_queued_writers (rw_unlinked i s))"
    using q(2) c by simp
  show "rw_some_woken (rw_unlinked i s)" if "rw_queue (rw_unlinked i s) \<noteq> []" "\<not> rw_held s"
  proof -
    have "rw_queue s \<noteq> []" using that(1) by auto
    with wf that(2) obtain j m where j: "rw_nodes s j = Some m" "rn_woken m"
      by (auto simp: rw_wf_def rw_some_woken_def)
    moreover have "j \<noteq> i" using j n ok \<open>rw_queue s \<noteq> []\<close> by auto
    ultimately show ?thesis by (intro rw_some_wokenI [of _ j]) simp_all
  qed
qed simp_all

lemma rw_granted_unlinked_wf:
  assumes wf: "rw_wf s" and k: "rw_can_grant k s" and nc: "\<not> rw_closed s" and room: "rw_room s"
  shows "rw_wf (rw_granted k (rw_unlinked i s))"
proof -
  note q = rw_unlinked_queue [of s i]
  let ?s = "s\<lparr>rw_queue := [], rw_nodes := (\<lambda>_. None)\<rparr>"
  have "rw_wf ?s"
    using wf by (auto simp: rw_wf_def rw_queue_ok_def rw_guards_ok_def rw_held_def writers_in_def)
  moreover have "rw_can_grant k ?s" "rw_room ?s" using k room by (simp_all add: rw_can_grant_def rw_room_def)
  ultimately have g: "rw_wf (rw_granted k ?s)" using nc by (intro rw_granted_wf) auto
  have h: "rw_held (rw_granted k (rw_unlinked i s))"
    using k u32_inc [of "rw_readers s"] room
    by (cases k) (auto simp: rw_held_unat rw_granted_def rw_unlinked_def rw_room_def rw_can_grant_def)
  have "rw_queue_ok (rw_granted k (rw_unlinked i s))"
    "writers_in (rw_granted k (rw_unlinked i s)) = writers_in (rw_unlinked i s)"
    using q wf by (cases k; simp add: rw_wf_def rw_granted_def)+
  with g h q wf nc show ?thesis
    by (cases k) (auto simp: rw_wf_def rw_guards_ok_def rw_granted_def rw_unlinked_def)
qed

lemma rw_queued_wf:
  assumes wf: "rw_wf s" and n: "rw_nodes s i = Some n" and ng: "\<not> rw_can_grant (rn_kind n) s"
    and nc: "\<not> rw_closed s" and room: "rw_room s"
  shows "rw_wf (rw_queued i n w s)"
proof -
  let ?t = "rw_queued i n w s"
  have h: "rw_held ?t" using ng by (auto simp: rw_held_def rw_can_grant_def rw_queued_def)
  have k: "kind_of ?t = kind_of s" using n by (auto simp: kind_of_def rw_queued_def fun_eq_iff)
  have u: "unat (rw_queued_writers s + 1) = unat (rw_queued_writers s) + 1"
    using room by (simp add: rw_room_def u32_inc)
  have "writers_in ?t = writers_in s" by (simp add: writers_in_def k fun_eq_iff)
  moreover have "writers_in s (rw_queue ?t) \<le> unat (rw_queued_writers ?t)"
    using wf n u by (auto simp: rw_wf_def rw_queued_def writers_in_def kind_of_def)
  moreover have "rw_queue_ok ?t"
    using wf by (auto simp: rw_wf_def rw_queue_ok_def rw_queued_def rw_waits_ok_def)
  ultimately show ?thesis
    using wf h nc by (auto simp: rw_wf_def rw_guards_ok_def) (auto simp: rw_queued_def)
qed

lemma rw_waiter_await_wf:
  assumes wf: "rw_wf s" and n: "rw_nodes s i = Some n" and room: "rw_room s"
  shows "\<exists>p t. rw_waiter_await i w s = Some (p, t) \<and> rw_wf t"
proof (cases "rw_closed s")
  case True
  then have "rw_queue s = []" using wf by (simp add: rw_wf_def)
  with await_closed [OF n True this] rw_unlinked_wf [OF wf n] show ?thesis by blast
next
  case False
  show ?thesis
  proof (cases "rw_can_grant (rn_kind n) s")
    case True
    with await_granted [OF n False True] wf rw_granted_unlinked_wf [OF wf True False room]
    show ?thesis by (auto simp: rw_wf_defs)
  next
    case ng: False
    with await_pending [OF n False ng] rw_queued_wf [OF wf n ng False room] show ?thesis by blast
  qed
qed

lemma rw_waiter_new_wf:
  assumes wf: "rw_wf s" and i: "rw_nodes s i = None"
  shows "rw_wf (rw_waiter_new k i s)"
proof (rule rw_wf_requeue [OF wf])
  let ?t = "rw_waiter_new k i s"
  have qs: "rw_queue_ok s" and c: "writers_in s (rw_queue s) \<le> unat (rw_queued_writers s)"
    using wf by (simp_all add: rw_wf_def)
  have iq: "i \<notin> set (rw_queue s)" using qs i by (auto simp: rw_queue_ok_def rw_waits_ok_def)
  have qt: "rw_queue ?t = rw_queue s" "rw_queued_writers ?t = rw_queued_writers s"
    by (simp_all add: rw_waiter_new_def)
  have nd: "rw_nodes ?t j = rw_nodes s j" if "j \<noteq> i" for j using that by (simp add: rw_waiter_new_def)
  have nq: "rw_nodes ?t j = rw_nodes s j" if "j \<in> set (rw_queue s)" for j
    using that iq by (intro nd) auto
  then have "rw_waits_ok ?t j = rw_waits_ok s j" if "j \<in> set (rw_queue s)" for j
    using that by (simp add: rw_waits_ok_def)
  with qs show "rw_queue_ok ?t" by (auto simp: rw_queue_ok_def qt)
  have "kind_of ?t j = kind_of s j" if "j \<in> set (rw_queue s)" for j
    using nq [OF that] by (simp add: kind_of_def)
  then have "writers_in ?t (rw_queue s) = writers_in s (rw_queue s)" by (intro writers_in_cong) blast
  with c show "writers_in ?t (rw_queue ?t) \<le> unat (rw_queued_writers ?t)" by (simp add: qt)
  show "rw_some_woken ?t" if "rw_queue ?t \<noteq> []" "\<not> rw_held s"
  proof -
    from wf that obtain j m where j: "rw_nodes s j = Some m" "rn_woken m"
      by (auto simp: rw_wf_def rw_some_woken_def qt)
    then have "j \<noteq> i" using i by auto
    with j show ?thesis by (intro rw_some_wokenI [of _ j]) (simp_all add: nd)
  qed
qed (simp, simp add: rw_waiter_new_def)

subsection \<open>Cancellation and close\<close>

lemma free_unlinked: "i \<notin> set (rw_queue s) \<Longrightarrow> rw_free_node i s = rw_unlinked i s"
  by (simp add: rw_free_node_def rw_unlinked_def remove1_idem)

lemma woken_not_queued: "rw_queue_ok s \<Longrightarrow> rw_nodes s i = Some n \<Longrightarrow> rn_woken n \<Longrightarrow> i \<notin> set (rw_queue s)"
  by (auto simp: rw_queue_ok_def dest: waits_ok_not_woken)

text \<open>A cancelled waiter that had been woken hands its wake-up on.\<close>

lemma handed_on_wf:
  assumes wf: "rw_wf s" and n: "rw_nodes s i = Some n" "rn_woken n" and nc: "\<not> rw_closed s"
    and t: "rw_woke s t"
  shows "rw_wf (rw_free_node i t)"
proof -
  have iq: "i \<notin> set (rw_queue s)" using woken_not_queued [OF _ n] wf by (simp add: rw_wf_def)
  then have it: "i \<notin> set (rw_queue t)" using t by (auto simp: rw_woke_def)
  have wt: "rw_queue_ok t" "writers_in t (rw_queue t) \<le> unat (rw_queued_writers t)"
    using t by (simp_all add: rw_woke_def)
  note q = rw_unlinked_queue [OF wt(1), of i]
  have "rw_wf (rw_unlinked i t)"
  proof (rule rw_wf_requeue [OF wf])
    show "same_guards s (rw_unlinked i t)" using t by (simp add: same_guards_def rw_woke_def)
    show "rw_queue_ok (rw_unlinked i t)" by (rule q(1))
    show "writers_in (rw_unlinked i t) (rw_queue (rw_unlinked i t)) \<le> unat (rw_queued_writers (rw_unlinked i t))"
      using q(2) wt(2) by simp
    show "rw_queue (rw_unlinked i t) = []" if "rw_queue s = []" using t that by (simp add: rw_woke_def)
    show "rw_some_woken (rw_unlinked i t)" if "rw_queue (rw_unlinked i t) \<noteq> []" "\<not> rw_held s"
    proof -
      from t that obtain j m where "j \<in> set (rw_queue s)" "rw_nodes t j = Some m" "rn_woken m"
        by (auto simp: rw_woke_def rw_held_def)
      with iq show ?thesis by (intro rw_some_wokenI [of _ j]) auto
    qed
  qed
  with it show ?thesis by (simp add: free_unlinked)
qed

lemma rw_waiter_drop_wf:
  assumes wf: "rw_wf s" and n: "rw_nodes s i = Some n"
  shows "\<exists>t. rw_waiter_drop i s = Some t \<and> rw_wf t"
proof (cases "rn_woken n \<and> \<not> rw_closed s")
  case True
  obtain t where "wake_up_fibers s = Some t" "rw_woke s t"
    using wake_up_fibers_ok [of s] wf by (auto simp: rw_wf_def)
  with handed_on_wf [OF wf n] True n show ?thesis by (simp add: rw_waiter_drop_def)
next
  case False
  have "rw_waiter_drop i s = Some (rw_unlinked i s)"
    using False n wf
    by (auto simp: rw_waiter_drop_def rw_wf_def rw_free_node_def rw_unlinked_def
        rw_remove_from_waiting_queue_def remove1_idem)
  moreover have "rw_wf (rw_unlinked i s)"
    using False wf by (intro rw_unlinked_wf [OF wf n]) (auto simp: rw_wf_def)
  ultimately show ?thesis by blast
qed

definition rw_shut :: "'v rwlock \<Rightarrow> 'v rwlock" where
  "rw_shut s = rw_awoken (rw_queue s) [] (rw_queued_writers s) (s\<lparr>rw_closed := True\<rparr>)"

lemma rw_close_cases:
  assumes "rw_wf s"
  shows "rw_close s = Some (if rw_closed s then (Inr (), s)
     else if rw_held s then (Inl (CanNotBeClosed ResRwLock ''Lock is still held by fiber(s)''), s)
     else (Inr (), rw_shut s))"
  using assms wake_all_spec [of "rw_queue s" "s\<lparr>rw_closed := True\<rparr>"]
  by (auto simp: rw_close_def rw_held_def rw_shut_def rw_wf_def rw_queue_ok_def word_gt_0)

lemma rw_shut_wf: "rw_wf s \<Longrightarrow> \<not> rw_held s \<Longrightarrow> rw_wf (rw_shut s)"
  by (auto simp: rw_wf_def rw_shut_def rw_guards_ok_def rw_held_def writers_in_def rw_queue_ok_def)

subsection \<open>The lock and its clients\<close>

text \<open>
  The calls the types allow: a fresh waiter for \<^verbatim>\<open>read\<close> and \<^verbatim>\<open>write\<close>, polls and
  cancellations of live waiters, drops of live guards, writes through a live write guard. The
  counters are 32 bits wide; the calls that increment them need room.
\<close>

datatype 'v rw_op = RwRead node_id waker | RwWrite node_id waker | RwPoll node_id waker
  | RwCancel node_id | RwTryRead | RwTryWrite | RwDropRead | RwDropWrite | RwModify "'v \<Rightarrow> 'v" | RwClose

fun rw_exec :: "'v rw_op \<Rightarrow> 'v rwlock \<Rightarrow> 'v rwlock option" where
  "rw_exec (RwRead i w) s = map_option snd (rw_read i w s)"
| "rw_exec (RwWrite i w) s = map_option snd (rw_write i w s)"
| "rw_exec (RwPoll i w) s = map_option snd (rw_waiter_await i w s)"
| "rw_exec (RwCancel i) s = rw_waiter_drop i s"
| "rw_exec RwTryRead s = map_option snd (rw_try_read s)"
| "rw_exec RwTryWrite s = map_option snd (rw_try_write s)"
| "rw_exec RwDropRead s = read_guard_drop s"
| "rw_exec RwDropWrite s = write_guard_drop s"
| "rw_exec (RwModify f) s = guard_deref_mut f s"
| "rw_exec RwClose s = map_option snd (rw_close s)"

fun rw_enabled :: "'v rw_op \<Rightarrow> 'v rwlock \<Rightarrow> bool" where
  "rw_enabled (RwRead i w) s = (rw_nodes s i = None \<and> rw_room s)"
| "rw_enabled (RwWrite i w) s = (rw_nodes s i = None \<and> rw_room s)"
| "rw_enabled (RwPoll i w) s = (rw_nodes s i \<noteq> None \<and> rw_room s)"
| "rw_enabled (RwCancel i) s = (rw_nodes s i \<noteq> None)"
| "rw_enabled RwTryRead s = rw_room s"
| "rw_enabled RwTryWrite s = rw_room s"
| "rw_enabled RwDropRead s = (rw_shared s > 0)"
| "rw_enabled RwDropWrite s = rw_excl s"
| "rw_enabled (RwModify f) s = rw_excl s"
| "rw_enabled RwClose s = True"

inductive rw_step :: "'v rwlock \<Rightarrow> 'v rwlock \<Rightarrow> bool" where
  rw_stepI: "rw_enabled op s \<Longrightarrow> rw_exec op s = Some t \<Longrightarrow> rw_step s t"

inductive_cases rw_stepE: "rw_step s t"

definition rw_init :: "'v rwlock \<Rightarrow> bool" where
  "rw_init s \<longleftrightarrow> (\<exists>v. s = rw_new v)"

lemma rw_room_new [simp]: "rw_room (rw_waiter_new k i s) = rw_room s"
  by (simp add: rw_room_def rw_waiter_new_def)

lemma rw_new_node: "\<exists>n. rw_nodes (rw_waiter_new k i s) i = Some n"
  by (simp add: rw_waiter_new_def)

lemma fresh_await_wf:
  assumes "rw_wf s" "rw_nodes s i = None" "rw_room s"
  shows "\<exists>p t. rw_waiter_await i w (rw_waiter_new k i s) = Some (p, t) \<and> rw_wf t"
  using rw_waiter_await_wf [OF rw_waiter_new_wf] rw_new_node [of k i s] assms by fastforce

lemma try_take:
  assumes wf: "rw_wf s" and room: "rw_room s" and nc: "\<not> rw_closed s" and k: "rw_can_grant k s"
  shows "case k of
      Reader \<Rightarrow> state_try_read s = (Inr True, s\<lparr>rw_readers := rw_readers s + 1\<rparr>) \<and>
        value_borrow (s\<lparr>rw_readers := rw_readers s + 1\<rparr>) = Some (rw_granted k s)
    | Writer \<Rightarrow> state_try_write s = (Inr True, s\<lparr>rw_writers := rw_writers s + 1\<rparr>) \<and>
        value_borrow_mut (s\<lparr>rw_writers := rw_writers s + 1\<rparr>) = Some (rw_granted k s)"
  using guards_borrow [of s k] wf nc k
  by (cases k) (auto simp: rw_wf_def state_try_read_def state_try_write_def rw_can_grant_def
      value_borrow_def value_borrow_mut_def rw_granted_def)

lemma rw_read_wf:
  assumes wf: "rw_wf s" and i: "rw_nodes s i = None" and room: "rw_room s"
  shows "\<exists>p t. rw_read i w s = Some (p, t) \<and> rw_wf t" "\<exists>p t. rw_write i w s = Some (p, t) \<and> rw_wf t"
proof -
  note fr = fresh_await_wf [OF wf i room, of w]
  note tk = try_take [OF wf room] rw_granted_wf [OF wf _ _ room]
  show "\<exists>p t. rw_read i w s = Some (p, t) \<and> rw_wf t"
    using fr [of Reader] tk(1) [of Reader] tk(2) [of Reader] wf
    by (cases "rw_closed s"; cases "rw_can_grant Reader s")
       (auto simp: rw_read_def state_try_read_def rw_can_grant_def)
  show "\<exists>p t. rw_write i w s = Some (p, t) \<and> rw_wf t"
    using fr [of Writer] tk(1) [of Writer] tk(2) [of Writer] wf
    by (cases "rw_closed s"; cases "rw_can_grant Writer s")
       (auto simp: rw_write_def state_try_write_def rw_can_grant_def)
qed

lemma rw_try_wf:
  assumes wf: "rw_wf s" and room: "rw_room s"
  shows "\<exists>p t. rw_try_read s = Some (p, t) \<and> rw_wf t" "\<exists>p t. rw_try_write s = Some (p, t) \<and> rw_wf t"
proof -
  note tk = try_take [OF wf room] rw_granted_wf [OF wf _ _ room]
  show "\<exists>p t. rw_try_read s = Some (p, t) \<and> rw_wf t"
    using tk(1) [of Reader] tk(2) [of Reader] wf
    by (cases "rw_closed s"; cases "rw_can_grant Reader s")
       (auto simp: rw_try_read_def state_try_read_def rw_can_grant_def)
  show "\<exists>p t. rw_try_write s = Some (p, t) \<and> rw_wf t"
    using tk(1) [of Writer] tk(2) [of Writer] wf
    by (cases "rw_closed s"; cases "rw_can_grant Writer s")
       (auto simp: rw_try_write_def state_try_write_def rw_can_grant_def)
qed

lemma guard_deref_mut_wf:
  assumes "rw_wf s" "rw_excl s"
  shows "\<exists>t. guard_deref_mut f s = Some t \<and> rw_wf t"
proof -
  have "\<not> rw_closed s" using assms by (auto simp: rw_wf_def rw_guards_ok_def rw_held_unat)
  with assms show ?thesis
    by (auto simp: guard_deref_mut_def rw_wf_def rw_guards_ok_def rw_held_def rw_some_woken_def)
qed

lemma rw_exec_wf:
  assumes wf: "rw_wf s" and en: "rw_enabled op s"
  shows "\<exists>t. rw_exec op s = Some t \<and> rw_wf t"
proof (cases op)
  case (RwRead i w)
  with rw_read_wf(1) [OF wf, of i w] en show ?thesis by auto
next
  case (RwWrite i w)
  with rw_read_wf(2) [OF wf, of i w] en show ?thesis by auto
next
  case (RwPoll i w)
  with rw_waiter_await_wf [OF wf, of i _ w] en show ?thesis by auto
next
  case (RwClose)
  with rw_close_cases [OF wf] rw_shut_wf [OF wf] wf show ?thesis by auto
qed (use assms in \<open>auto dest: rw_waiter_drop_wf rw_try_wf read_guard_drop_wf write_guard_drop_wf guard_deref_mut_wf\<close>)

interpretation rwl: transition_inv rw_init rw_step rw_wf
proof unfold_locales
  show "rw_wf s" if "rw_init s" for s :: "'a rwlock"
    using that by (auto simp: rw_init_def rw_wf_new)
  show "rw_wf t" if "rw_wf s" "rw_step s t" for s t :: "'a rwlock"
    using that(2) rw_exec_wf [OF that(1)] by (fastforce elim: rw_stepE)
qed


subsection \<open>Dropping the last guard\<close>

lemma last_guard:
  assumes wf: "rw_wf s" and last: "rw_excl s \<or> rw_shared s = 1"
  shows "\<not> rw_closed s"
    "rw_excl s \<Longrightarrow> rw_writers s - 1 = 0 \<and> rw_readers s = 0"
    "\<not> rw_excl s \<Longrightarrow> rw_readers s - 1 = 0 \<and> rw_writers s = 0"
proof -
  have g: "unat (rw_readers s) = rw_shared s" "unat (rw_writers s) = (if rw_excl s then 1 else 0)"
    "rw_excl s \<longrightarrow> rw_shared s = 0"
    using wf by (simp_all add: rw_wf_def rw_guards_ok_def)
  have one: "x = 1" if "unat x = 1" for x :: u32 using that by (simp add: word_unat_eq_iff)
  have zero: "x = 0" if "unat x = 0" for x :: u32 using that by (simp add: word_unat_eq_iff)
  show "\<not> rw_closed s" using wf last g by (auto simp: rw_wf_def rw_held_unat)
  show "rw_writers s - 1 = 0 \<and> rw_readers s = 0" if "rw_excl s"
    using that g one [of "rw_writers s"] zero [of "rw_readers s"] by simp
  show "rw_readers s - 1 = 0 \<and> rw_writers s = 0" if "\<not> rw_excl s"
    using that g last one [of "rw_readers s"] zero [of "rw_writers s"] by simp
qed

lemma wake_free:
  assumes q: "rw_queue_ok s" and free: "rw_writers s = 0" "rw_readers s = 0"
  defines "wk \<equiv> (if rw_queued_writers s = 0 then rw_queue s else upto_writer (is_reader s) (rw_queue s))"
  shows "wake_up_fibers s = Some (rw_awoken wk (drop (length wk) (rw_queue s)) (if rw_queued_writers s = 0
      \<or> dropWhile (is_reader s) (rw_queue s) = [] then rw_queued_writers s else rw_queued_writers s - 1) s)"
    and "rw_queue s = wk @ drop (length wk) (rw_queue s)"
proof -
  have d: "distinct (rw_queue s)" "\<forall>i\<in>set (rw_queue s). rw_waits_ok s i" using q by (simp_all add: rw_queue_ok_def)
  note split = drop1_dropWhile [of "is_reader s" "rw_queue s"]
  have rest: "drop (length (upto_writer (is_reader s) (rw_queue s))) (rw_queue s) = drop 1 (dropWhile (is_reader s) (rw_queue s))"
    using split by (metis append_eq_conv_conj)
  show "wake_up_fibers s = Some (rw_awoken wk (drop (length wk) (rw_queue s)) (if rw_queued_writers s = 0
      \<or> dropWhile (is_reader s) (rw_queue s) = [] then rw_queued_writers s else rw_queued_writers s - 1) s)"
    using free wake_all_spec [OF d] wake_and_writer_spec [OF d] rest
    by (simp add: wake_up_fibers_def wk_def del: dropWhile_eq_Nil_conv)
  show "rw_queue s = wk @ drop (length wk) (rw_queue s)"
    using split rest by (simp add: wk_def)
qed

subsection \<open>Concrete runs\<close>

fun rw_run :: "'v rw_op list \<Rightarrow> 'v rwlock \<Rightarrow> 'v rwlock option" where
  "rw_run [] s = Some s"
| "rw_run (op # ops) s = (if rw_enabled op s then Option.bind (rw_exec op s) (rw_run ops) else None)"

lemma rw_run_reachable:
  "rw_run ops s = Some t \<Longrightarrow> reachable rw_init rw_step s \<Longrightarrow> reachable rw_init rw_step t"
proof (induction ops arbitrary: s)
  case (Cons op ops)
  then show ?case
    by (auto split: if_splits bind_splits intro: rw_stepI)
qed simp

lemma rw_new_reachable: "reachable rw_init rw_step (rw_new v)"
  by (rule reachable_init) (auto simp: rw_init_def)

lemmas rw_eval = rw_new_def rw_room_def rw_read_def rw_write_def state_try_read_def state_try_write_def
  value_borrow_def value_borrow_mut_def rw_waiter_new_def rw_waiter_await_def rw_waiter_poll_def
  rw_remove_from_waiting_queue_def rw_register_in_waiting_queue_def rw_waiter_drop_def rw_free_node_def
  take_guard_def kind_of_def wake_up_fibers_def wake_node_def rw_try_read_def rw_try_write_def
  read_guard_drop_def write_guard_drop_def rw_close_def guard_deref_mut_def Let_def

text \<open>
  Cancelling a queued writer does not give its place in the writer count back, so the count is
  only an upper bound of the writers that wait.
\<close>

lemma rw_queued_writers_leak:
  "\<exists>s. reachable rw_init rw_step s \<and> rw_queue s = [] \<and> rw_queued_writers (s :: nat rwlock) = 1"
proof -
  obtain s where s: "rw_run [RwTryWrite, RwWrite 0 10, RwCancel 0] (rw_new (0::nat)) = Some s"
    and "rw_queue s = []" "rw_queued_writers s = 1"
    by (simp add: rw_eval)
  with rw_run_reachable [OF s rw_new_reachable] show ?thesis by blast
qed

subsection \<open>Properties\<close>

text \<open>
  Claim C5. The lock excludes what it must, and by itself: in every reachable state the reader counter is the
  number of live read guards, the writer counter is one exactly while a write guard is alive,
  a write guard is never alive together with a read guard, and no call that the types allow panics, as long as the 32-bit counters of readers and of
  queued writers have room for one more. In particular a lock that has granted an access never relies on the \<^verbatim>\<open>RefCell\<close> of the value to refuse it: the borrow that a
  guard takes after its access was granted never finds a conflicting one.
\<close>

theorem rw_exclusion:
  assumes "reachable rw_init rw_step s"
  shows "unat (rw_readers s) = rw_shared s \<and> unat (rw_writers s) = (if rw_excl s then 1 else 0) \<and>
     \<not> (rw_excl s \<and> rw_shared s > 0) \<and> (rw_enabled op s \<longrightarrow> rw_exec op s \<noteq> None)"
  using rwl.reachable_inv [OF assms] rw_exec_wf [OF rwl.reachable_inv [OF assms], of op] by (auto simp: rw_wf_def rw_guards_ok_def)

theorem rw_exclusion_witness:
  "\<exists>s. rw_run [RwRead 0 10, RwWrite 1 11, RwRead 2 12, RwDropRead, RwDropRead, RwPoll 1 11] (rw_new (0::nat)) = Some s \<and>
     rw_excl s \<and> unat (rw_readers s) = rw_shared s \<and> rw_shared s = 0 \<and> rw_exec RwTryRead s \<noteq> None"
proof -
  let ?ops = "[RwRead 0 10, RwWrite 1 11, RwRead 2 12, RwDropRead, RwDropRead, RwPoll 1 11]"
  obtain s where s: "rw_run ?ops (rw_new (0::nat)) = Some s" and x: "rw_excl s" "rw_enabled RwTryRead s"
    by (simp add: rw_eval)
  from rw_exclusion [OF rw_run_reachable [OF s rw_new_reachable], of RwTryRead] s x show ?thesis by auto
qed

text \<open>
  Claim C23. The queue never gets stuck: whenever waiters are queued, either some guard is alive,
  whose drop will wake them, or a woken waiter is on its way, whose poll or cancellation will.
\<close>

theorem rw_no_stuck_queue:
  assumes "reachable rw_init rw_step s" and "rw_queue s \<noteq> []"
  shows "\<not> rw_closed s \<and> (rw_shared s > 0 \<or> rw_excl s \<or> (\<exists>i n. rw_nodes s i = Some n \<and> rn_woken n))"
proof -
  have wf: "rw_wf s" by (rule rwl.reachable_inv [OF assms(1)])
  then have "rw_held s \<or> rw_some_woken s" "\<not> rw_closed s" using assms(2) by (auto simp: rw_wf_def)
  moreover have "rw_shared s > 0 \<or> rw_excl s" if "rw_held s"
    using wf that by (auto simp: rw_wf_def rw_guards_ok_def rw_held_unat split: if_splits)
  ultimately show ?thesis by (auto simp: rw_some_woken_def)
qed

theorem rw_no_stuck_queue_witness:
  "\<exists>s. rw_run [RwTryWrite, RwWrite 0 10, RwRead 1 11, RwDropWrite] (rw_new (0::nat)) = Some s \<and>
     rw_queue s = [1] \<and> \<not> rw_closed s \<and>
     (rw_shared s > 0 \<or> rw_excl s \<or> (\<exists>i n. rw_nodes s i = Some n \<and> rn_woken n))"
proof -
  obtain s where s: "rw_run [RwTryWrite, RwWrite 0 10, RwRead 1 11, RwDropWrite] (rw_new (0::nat)) = Some s"
    and q: "rw_queue s = [1]"
    by (simp add: rw_eval)
  with rw_no_stuck_queue [OF rw_run_reachable [OF s rw_new_reachable]] show ?thesis by simp
qed

text \<open>
  Waiters are woken in queue order. Dropping the last guard wakes the readers at the
  head of the queue and the first writer behind them (everybody when no writer is counted), in
  the order in which they queued; the others stay queued in order.
\<close>

lemma rw_release_order:
  assumes r: "reachable rw_init rw_step s" and last: "rw_excl s \<or> rw_shared s = 1"
  defines "wk \<equiv> (if rw_queued_writers s = 0 then rw_queue s else upto_writer (is_reader s) (rw_queue s))"
  shows "\<exists>t. (if rw_excl s then write_guard_drop s else read_guard_drop s) = Some t \<and>
     rw_queue s = wk @ rw_queue t \<and> rw_wakes t = rw_wakes s @ map (rw_node_waker s) wk"
proof -
  define s' where "s' = (if rw_excl s then s\<lparr>rw_writers := rw_writers s - 1\<rparr> else s\<lparr>rw_readers := rw_readers s - 1\<rparr>)"
  have wf: "rw_wf s" by (rule rwl.reachable_inv [OF r])
  have free: "rw_writers s' = 0" "rw_readers s' = 0" and nc: "\<not> rw_closed s"
    using last_guard [OF wf last] by (simp_all add: s'_def)
  have "wake_up_fibers s' = Some (rw_awoken wk (drop (length wk) (rw_queue s)) (if rw_queued_writers s = 0
      \<or> dropWhile (is_reader s) (rw_queue s) = [] then rw_queued_writers s else rw_queued_writers s - 1) s')"
    "rw_queue s = wk @ drop (length wk) (rw_queue s)"
    using wake_free [of s'] wf free by (simp_all add: s'_def wk_def rw_wf_def del: dropWhile_eq_Nil_conv split: if_splits)
  moreover have "rw_node_waker s' = rw_node_waker s" "rw_wakes s' = rw_wakes s"
    by (simp_all add: s'_def rw_node_waker_def fun_eq_iff)
  ultimately show ?thesis using nc by (auto simp: s'_def write_guard_drop_def read_guard_drop_def)
qed

end
