(* ===== verification/FreeList.thy ===== *)
theory FreeList
  imports Prelude
begin

section \<open>The free list (glommio/src/free\_list.rs)\<close>

text \<open>
  A vector of slots in which the free slots are chained through their \<^verbatim>\<open>next_free\<close> fields.
  Indices are naturals (\<^verbatim>\<open>Idx\<close> wraps the position in the vector). Out-of-range indices and
  the \<^verbatim>\<open>unreachable!\<close> arms are panics, \<open>None\<close> here.
\<close>

datatype 'a slot = SlotFree "nat option" | SlotFull 'a

record 'a free_list =
  first_free :: "nat option"
  slots :: "'a slot list"

definition free_list_default :: "'a free_list" where
  "free_list_default = \<lparr>first_free = None, slots = []\<rparr>"

definition fl_alloc :: "'a \<Rightarrow> 'a free_list \<Rightarrow> (nat \<times> 'a free_list) option" where
  "fl_alloc x fl =
     (case first_free fl of
        Some i \<Rightarrow>
          (if i < length (slots fl) then
             (case slots fl ! i of
                SlotFree nf \<Rightarrow> Some (i, fl\<lparr>first_free := nf, slots := (slots fl)[i := SlotFull x]\<rparr>)
              | SlotFull _ \<Rightarrow> None)
           else None)
      | None \<Rightarrow> Some (length (slots fl), fl\<lparr>slots := slots fl @ [SlotFull x]\<rparr>))"

definition fl_dealloc :: "nat \<Rightarrow> 'a free_list \<Rightarrow> ('a \<times> 'a free_list) option" where
  "fl_dealloc i fl =
     (if i < length (slots fl) then
        (case slots fl ! i of
           SlotFull x \<Rightarrow> Some (x, fl\<lparr>first_free := Some i, slots := (slots fl)[i := SlotFree (first_free fl)]\<rparr>)
         | SlotFree _ \<Rightarrow> None)
      else None)"

definition fl_index :: "'a free_list \<Rightarrow> nat \<Rightarrow> 'a option" where
  "fl_index fl i =
     (if i < length (slots fl) then (case slots fl ! i of SlotFull x \<Rightarrow> Some x | SlotFree _ \<Rightarrow> None) else None)"

text \<open>\<^verbatim>\<open>fl[i]\<close> used as a place: the item is replaced by its image under \<open>f\<close>.\<close>

definition fl_index_mut :: "(nat \<Rightarrow> 'a \<Rightarrow> 'a) \<Rightarrow> nat \<Rightarrow> 'a free_list \<Rightarrow> 'a free_list option" where
  "fl_index_mut f i fl =
     (if i < length (slots fl) then
        (case slots fl ! i of
           SlotFull x \<Rightarrow> Some (fl\<lparr>slots := (slots fl)[i := SlotFull (f i x)]\<rparr>)
         | SlotFree _ \<Rightarrow> None)
      else None)"

subsection \<open>The chain of free slots\<close>

fun chain :: "'a slot list \<Rightarrow> nat option \<Rightarrow> nat list \<Rightarrow> bool" where
  "chain s None [] = True"
| "chain s (Some i) (j # js) =
     (i = j \<and> i < length s \<and> (case s ! i of SlotFree nf \<Rightarrow> chain s nf js | SlotFull _ \<Rightarrow> False))"
| "chain s _ _ = False"

definition is_free :: "'a slot \<Rightarrow> bool" where
  "is_free sl = (case sl of SlotFree _ \<Rightarrow> True | SlotFull _ \<Rightarrow> False)"

lemma is_free_simps [simp]: "is_free (SlotFree nf)" "\<not> is_free (SlotFull x)"
  by (simp_all add: is_free_def)

definition free_ids :: "'a slot list \<Rightarrow> nat set" where
  "free_ids s = {i. i < length s \<and> is_free (s ! i)}"

definition fl_wf :: "'a free_list \<Rightarrow> bool" where
  "fl_wf fl \<longleftrightarrow> (\<exists>js. chain (slots fl) (first_free fl) js \<and> distinct js \<and> set js = free_ids (slots fl))"

lemma chain_SomeE:
  assumes "chain s (Some i) js"
  obtains nf js' where "js = i # js'" "i < length s" "s ! i = SlotFree nf" "chain s nf js'"
  using assms by (cases js) (auto split: slot.splits)

lemma chain_NoneD [dest]: "chain s None js \<Longrightarrow> js = []"
  by (cases js) auto

lemma chain_update:
  assumes "chain s o1 js" "i \<notin> set js"
  shows "chain (s[i := v]) o1 js"
  using assms
proof (induction s o1 js rule: chain.induct)
  case (2 s i' j js)
  then show ?case by (auto split: slot.splits)
qed auto

lemma chain_append:
  assumes "chain s o1 js"
  shows "chain (s @ [v]) o1 js"
  using assms
proof (induction s o1 js rule: chain.induct)
  case (2 s i j js)
  then show ?case by (auto simp: nth_append split: slot.splits)
qed auto

lemma free_ids_update:
  "i < length s \<Longrightarrow> free_ids (s[i := v]) = (if is_free v then insert i (free_ids s) else free_ids s - {i})"
  by (auto simp: free_ids_def nth_list_update split: if_splits)

lemma free_ids_append: "\<not> is_free v \<Longrightarrow> free_ids (s @ [v]) = free_ids s"
  by (auto simp: free_ids_def nth_append less_Suc_eq)

lemma fl_index_None_iff: "fl_index fl i = None \<longleftrightarrow> \<not> i < length (slots fl) \<or> i \<in> free_ids (slots fl)"
  by (auto simp: fl_index_def free_ids_def is_free_def split: slot.splits)

lemma fl_index_update [simp]:
  "i < length (slots fl) \<Longrightarrow> fl_index (fl\<lparr>first_free := ff, slots := (slots fl)[i := SlotFull x]\<rparr>) = (fl_index fl)(i \<mapsto> x)"
  "i < length (slots fl) \<Longrightarrow> fl_index (fl\<lparr>first_free := ff, slots := (slots fl)[i := SlotFree nf]\<rparr>) = (fl_index fl)(i := None)"
  by (auto simp: fl_index_def fun_eq_iff nth_list_update)

lemma fl_wf_default: "fl_wf free_list_default" "fl_index free_list_default = Map.empty"
  by (auto simp: fl_wf_def free_list_default_def free_ids_def fl_index_def intro: exI [of _ "[]"])

subsection \<open>The contract of an arena\<close>

text \<open>
  What a user of the free list relies on: an allocation returns an index that was not in use,
  a lookup sees what was stored last, a deallocation returns the item and releases its index.
\<close>

locale arena =
  fixes alloc :: "'a \<Rightarrow> 's \<Rightarrow> (nat \<times> 's) option"
    and dealloc :: "nat \<Rightarrow> 's \<Rightarrow> ('a \<times> 's) option"
    and look :: "'s \<Rightarrow> nat \<Rightarrow> 'a option"
    and ok :: "'s \<Rightarrow> bool"
  assumes alloc_ok: "ok s \<Longrightarrow> \<exists>i t. alloc x s = Some (i, t) \<and> ok t \<and> look s i = None \<and> look t = (look s)(i \<mapsto> x)"
    and dealloc_ok: "ok s \<Longrightarrow> look s i = Some x \<Longrightarrow> \<exists>t. dealloc i s = Some (x, t) \<and> ok t \<and> look t = (look s)(i := None)"
    and dealloc_free: "look s i = None \<Longrightarrow> dealloc i s = None"
begin

lemma alloc_fresh:
  assumes "ok s" "alloc x s = Some (i, t)"
  shows "i \<notin> dom (look s)" "look t = (look s)(i \<mapsto> x)" "ok t"
  using alloc_ok [OF assms(1), of x] assms(2) by auto

lemma dealloc_Some_iff: "ok s \<Longrightarrow> dealloc i s \<noteq> None \<longleftrightarrow> i \<in> dom (look s)"
  using dealloc_ok [of s i] dealloc_free [of s i] by (cases "look s i") auto

lemma alloc_dealloc:
  assumes "ok s" "alloc x s = Some (i, t)"
  shows "\<exists>u. dealloc i t = Some (x, u) \<and> ok u \<and> look u = look s"
proof -
  note f = alloc_fresh [OF assms]
  then obtain u where "dealloc i t = Some (x, u)" "ok u" "look u = (look t)(i := None)"
    using dealloc_ok [of t i x] by auto
  moreover have "(look t)(i := None) = look s" using f(1,2) by (auto simp: fun_eq_iff domIff)
  ultimately show ?thesis by simp
qed

end

subsection \<open>The free list is an arena\<close>

lemma fl_alloc_ok:
  assumes "fl_wf fl"
  shows "\<exists>i fl'. fl_alloc x fl = Some (i, fl') \<and> fl_wf fl' \<and> fl_index fl i = None \<and>
     fl_index fl' = (fl_index fl)(i \<mapsto> x)"
proof -
  obtain js where js: "chain (slots fl) (first_free fl) js" "distinct js" "set js = free_ids (slots fl)"
    using assms by (auto simp: fl_wf_def)
  show ?thesis
  proof (cases "first_free fl")
    case None
    let ?fl = "fl\<lparr>slots := slots fl @ [SlotFull x]\<rparr>"
    have "fl_wf ?fl" using js None by (auto simp: fl_wf_def free_ids_append dest: chain_append)
    moreover have "fl_index fl (length (slots fl)) = None" by (simp add: fl_index_def)
    moreover have "fl_index ?fl = (fl_index fl)(length (slots fl) \<mapsto> x)"
      by (auto simp: fl_index_def fun_eq_iff nth_append)
    ultimately show ?thesis using None by (simp add: fl_alloc_def)
  next
    case (Some i)
    with js(1) obtain nf js' where c: "js = i # js'" "i < length (slots fl)" "slots fl ! i = SlotFree nf"
      "chain (slots fl) nf js'"
      by (auto elim: chain_SomeE)
    let ?fl = "fl\<lparr>first_free := nf, slots := (slots fl)[i := SlotFull x]\<rparr>"
    have "fl_wf ?fl"
      using js c chain_update [OF c(4), of i "SlotFull x"] by (auto simp: fl_wf_def free_ids_update intro!: exI [of _ js'])
    then show ?thesis using Some c by (simp add: fl_alloc_def) (simp add: fl_index_def)
  qed
qed

lemma fl_dealloc_ok:
  assumes "fl_wf fl" and x: "fl_index fl i = Some x"
  shows "\<exists>fl'. fl_dealloc i fl = Some (x, fl') \<and> fl_wf fl' \<and> fl_index fl' = (fl_index fl)(i := None)"
proof -
  obtain js where js: "chain (slots fl) (first_free fl) js" "distinct js" "set js = free_ids (slots fl)"
    using assms by (auto simp: fl_wf_def)
  have i: "i < length (slots fl)" "slots fl ! i = SlotFull x"
    using x by (auto simp: fl_index_def split: if_splits slot.splits)
  then have "i \<notin> set js" using js by (auto simp: free_ids_def)
  let ?fl = "fl\<lparr>first_free := Some i, slots := (slots fl)[i := SlotFree (first_free fl)]\<rparr>"
  have "fl_wf ?fl"
    using i js \<open>i \<notin> set js\<close> chain_update [OF js(1) \<open>i \<notin> set js\<close>]
    by (auto simp: fl_wf_def free_ids_update intro!: exI [of _ "i # js"])
  with i show ?thesis by (simp add: fl_dealloc_def)
qed

lemma fl_dealloc_free: "fl_index fl i = None \<Longrightarrow> fl_dealloc i fl = None"
  by (auto simp: fl_dealloc_def fl_index_def split: if_splits slot.splits)

interpretation fl: arena fl_alloc fl_dealloc fl_index fl_wf
  by unfold_locales (rule fl_alloc_ok fl_dealloc_ok fl_dealloc_free; assumption)+

text \<open>Allocating a sequence of items gives pairwise different indices.\<close>

fun fl_alloc_all :: "'a list \<Rightarrow> 'a free_list \<Rightarrow> (nat list \<times> 'a free_list) option" where
  "fl_alloc_all [] s = Some ([], s)"
| "fl_alloc_all (x # xs) s =
     (case fl_alloc x s of None \<Rightarrow> None
      | Some (i, t) \<Rightarrow> map_option (\<lambda>(is, u). (i # is, u)) (fl_alloc_all xs t))"

lemma fl_alloc_all_ok:
  assumes "fl_wf s"
  shows "\<exists>is t. fl_alloc_all xs s = Some (is, t) \<and> fl_wf t \<and> distinct is \<and> length is = length xs \<and>
     set is \<inter> dom (fl_index s) = {} \<and> fl_index t = (fl_index s)(is [\<mapsto>] xs)"
  using assms
proof (induction xs arbitrary: s)
  case (Cons x xs)
  obtain i t where a: "fl_alloc x s = Some (i, t)" and t: "fl_wf t" "fl_index s i = None" "fl_index t = (fl_index s)(i \<mapsto> x)"
    using fl.alloc_ok [OF Cons.prems] by blast
  obtain "is" u where "fl_alloc_all xs t = Some (is, u)" "fl_wf u" "distinct is" "length is = length xs"
    "set is \<inter> dom (fl_index t) = {}" "fl_index u = (fl_index t)(is [\<mapsto>] xs)"
    using Cons.IH [OF t(1)] by blast
  with a t show ?case by (auto simp: domIff)
qed auto

text \<open>The slot released last is reused first.\<close>

lemma fl_alloc_reuses: "fl_dealloc i fl = Some (x, fl') \<Longrightarrow> \<exists>fl''. fl_alloc y fl' = Some (i, fl'')"
  by (auto simp: fl_dealloc_def fl_alloc_def split: if_splits slot.splits)

lemma fl_index_mut_ok:
  assumes "fl_wf fl" "fl_index fl i = Some x"
  shows "\<exists>fl'. fl_index_mut f i fl = Some fl' \<and> fl_wf fl' \<and> fl_index fl' = (fl_index fl)(i \<mapsto> f i x)"
proof -
  obtain js where js: "chain (slots fl) (first_free fl) js" "distinct js" "set js = free_ids (slots fl)"
    using assms by (auto simp: fl_wf_def)
  have i: "i < length (slots fl)" "slots fl ! i = SlotFull x"
    using assms(2) by (auto simp: fl_index_def split: if_splits slot.splits)
  then have "i \<notin> set js" "free_ids (slots fl) - {i} = free_ids (slots fl)" using js by (auto simp: free_ids_def)
  with js i chain_update [OF js(1)] have "fl_wf (fl\<lparr>slots := (slots fl)[i := SlotFull (f i x)]\<rparr>)"
    by (auto simp: fl_wf_def free_ids_update intro!: exI [of _ js])
  moreover have "fl_index (fl\<lparr>slots := (slots fl)[i := SlotFull (f i x)]\<rparr>) = (fl_index fl)(i \<mapsto> f i x)"
    using i by (auto simp: fl_index_def fun_eq_iff nth_list_update)
  ultimately show ?thesis using i by (simp add: fl_index_mut_def)
qed

subsection \<open>Properties\<close>

text \<open>
  The free list is an arena: on a well-formed list an allocation never hits an
  \<^verbatim>\<open>unreachable!\<close> arm, returns an index that was not in use and changes no other entry, and
  giving that index back returns the item and restores the previous contents.
\<close>

lemma free_list_roundtrip:
  assumes "fl_wf fl"
  shows "\<exists>i fl' fl''. fl_alloc x fl = Some (i, fl') \<and> fl_index fl i = None \<and>
     fl_index fl' = (fl_index fl)(i \<mapsto> x) \<and> fl_dealloc i fl' = Some (x, fl'') \<and> fl_wf fl'' \<and>
     fl_index fl'' = fl_index fl"
  using fl.alloc_ok [OF assms, of x] fl.alloc_dealloc [OF assms, of x] by blast

text \<open>
  Live indices are never handed out twice: allocating any sequence of items on a
  well-formed list gives pairwise different indices, none of them in use before, and the list
  then holds exactly the old entries and the new ones.
\<close>

lemma free_list_distinct:
  assumes "fl_wf fl"
  shows "\<exists>is fl'. fl_alloc_all xs fl = Some (is, fl') \<and> fl_wf fl' \<and> distinct is \<and>
     set is \<inter> dom (fl_index fl) = {} \<and> fl_index fl' = (fl_index fl)(is [\<mapsto>] xs)"
  using fl_alloc_all_ok [OF assms, of xs] by blast

end
