(* ===== verification/LocalChannel.thy ===== *)
theory LocalChannel
  imports Errors
begin

section \<open>Channels within one executor (glommio/src/channels/local\_channel.rs)\<close>

text \<open>
  The channel's state is the queue of items and one queue of waiting tasks per side; a side's
  queue is \<open>None\<close> once that side has been dropped. Waiter nodes live in the futures of
  \<^verbatim>\<open>send\<close>, \<^verbatim>\<open>recv\<close> and \<^verbatim>\<open>stream\<close>; here they are entries of a node store. An operation
  that would panic, or follow a dangling node pointer, is \<open>None\<close>.
\<close>

subsection \<open>State\<close>

datatype channel_capacity = Unbounded | Bounded usize

datatype chan_kind = Sender | Receiver

datatype 'r poll_result = PrPending chan_kind | PrReady 'r

record chan_node =
  cn_waker :: "waker option"
  cn_kind :: "chan_kind option"
  cn_woken :: bool

record 'a lchan =
  lc_capacity :: channel_capacity
  lc_channel :: "'a list"
  lc_recv_waiters :: "node_id list option"
  lc_send_waiters :: "node_id list option"
  lc_nodes :: "node_id \<Rightarrow> chan_node option"
  lc_wakes :: "waker list"

definition lchan_new :: "channel_capacity \<Rightarrow> 'a lchan" where
  "lchan_new cap = \<lparr>lc_capacity = cap, lc_channel = [], lc_recv_waiters = Some [], lc_send_waiters = Some [],
     lc_nodes = (\<lambda>_. None), lc_wakes = []\<rparr>"

definition lc_waiters :: "chan_kind \<Rightarrow> 'a lchan \<Rightarrow> node_id list option" where
  "lc_waiters k c = (case k of Sender \<Rightarrow> lc_send_waiters c | Receiver \<Rightarrow> lc_recv_waiters c)"

definition set_waiters :: "chan_kind \<Rightarrow> node_id list option \<Rightarrow> 'a lchan \<Rightarrow> 'a lchan" where
  "set_waiters k q c = (case k of Sender \<Rightarrow> c\<lparr>lc_send_waiters := q\<rparr> | Receiver \<Rightarrow> c\<lparr>lc_recv_waiters := q\<rparr>)"

text \<open>\<^verbatim>\<open>link.is_linked()\<close>: the node is in one of the two queues.\<close>

definition lc_linked :: "node_id \<Rightarrow> 'a lchan \<Rightarrow> bool" where
  "lc_linked i c \<longleftrightarrow> (\<exists>q. lc_recv_waiters c = Some q \<and> i \<in> set q) \<or> (\<exists>q. lc_send_waiters c = Some q \<and> i \<in> set q)"

definition chan_wake :: "waker option \<Rightarrow> 'a lchan \<Rightarrow> 'a lchan" where
  "chan_wake w c = (case w of None \<Rightarrow> c | Some x \<Rightarrow> c\<lparr>lc_wakes := lc_wakes c @ [x]\<rparr>)"

definition node_set :: "node_id \<Rightarrow> chan_node \<Rightarrow> 'a lchan \<Rightarrow> 'a lchan" where
  "node_set i n c = c\<lparr>lc_nodes := (lc_nodes c)(i \<mapsto> n)\<rparr>"

definition node_free :: "node_id \<Rightarrow> 'a lchan \<Rightarrow> 'a lchan" where
  "node_free i c = c\<lparr>lc_nodes := (lc_nodes c)(i := None)\<rparr>"

definition chan_node_new :: "node_id \<Rightarrow> 'a lchan \<Rightarrow> 'a lchan" where
  "chan_node_new i c = node_set i \<lparr>cn_waker = None, cn_kind = None, cn_woken = False\<rparr> c"

subsection \<open>Waking\<close>

definition wake_first :: "chan_kind \<Rightarrow> 'a lchan \<Rightarrow> (waker option \<times> 'a lchan) option" where
  "wake_first k c =
     (case lc_waiters k c of
        None \<Rightarrow> Some (None, c)
      | Some [] \<Rightarrow> Some (None, c)
      | Some (i # is) \<Rightarrow>
          (case lc_nodes c i of
             None \<Rightarrow> None
           | Some n \<Rightarrow> Some (cn_waker n,
               node_set i (n\<lparr>cn_woken := True, cn_waker := None\<rparr>) (set_waiters k (Some is) c))))"

fun wake_up_all_loop :: "chan_kind \<Rightarrow> node_id list \<Rightarrow> 'a lchan \<Rightarrow> 'a lchan option" where
  "wake_up_all_loop k [] c = Some c"
| "wake_up_all_loop k (i # is) c =
     (case lc_nodes c i of
        None \<Rightarrow> None
      | Some n \<Rightarrow>
          (case cn_waker n of
             None \<Rightarrow> None
           | Some w \<Rightarrow> wake_up_all_loop k is
               (set_waiters k (Some is) (chan_wake (Some w) (node_set i (n\<lparr>cn_waker := None\<rparr>) c)))))"

definition wake_up_all :: "chan_kind \<Rightarrow> 'a lchan \<Rightarrow> 'a lchan option" where
  "wake_up_all k c = (case lc_waiters k c of None \<Rightarrow> Some c | Some q \<Rightarrow> wake_up_all_loop k q c)"

subsection \<open>State\<close>

definition lc_is_full :: "'a lchan \<Rightarrow> bool" where
  "lc_is_full c = (case lc_capacity c of Unbounded \<Rightarrow> False | Bounded x \<Rightarrow> length (lc_channel c) \<ge> unat x)"

definition lc_push :: "'a \<Rightarrow> 'a lchan \<Rightarrow> ((waker option, 'a glommio_error) result \<times> 'a lchan) option" where
  "lc_push item c =
     (if lc_recv_waiters c = None then Some (Inl (Closed (ResChannel item)), c)
      else if lc_is_full c then Some (Inl (WouldBlock (ResChannel item)), c)
      else map_option (\<lambda>(w, c'). (Inr w, c')) (wake_first Receiver (c\<lparr>lc_channel := lc_channel c @ [item]\<rparr>)))"

definition pass_on_wakeup :: "chan_kind \<Rightarrow> 'a lchan \<Rightarrow> (waker option \<times> 'a lchan) option" where
  "pass_on_wakeup k c =
     (if k = Sender \<and> \<not> lc_is_full c then wake_first Sender c
      else if k = Receiver \<and> lc_channel c \<noteq> [] then wake_first Receiver c
      else Some (None, c))"

definition lc_wait_for_room :: "'a lchan \<Rightarrow> (unit poll_result \<times> 'a lchan) option" where
  "lc_wait_for_room c = Some (if \<not> lc_is_full c then PrReady () else PrPending Sender, c)"

definition state_recv_one :: "'a lchan \<Rightarrow> (('a \<times> waker option) option poll_result \<times> 'a lchan) option" where
  "state_recv_one c =
     (case lc_channel c of
        item # items \<Rightarrow>
          map_option (\<lambda>(w, c'). (PrReady (Some (item, w)), c')) (wake_first Sender (c\<lparr>lc_channel := items\<rparr>))
      | [] \<Rightarrow> Some (if lc_send_waiters c \<noteq> None then PrPending Receiver else PrReady None, c))"

subsection \<open>Waiter\<close>

definition register_into_waiting_queue :: "node_id \<Rightarrow> 'a lchan \<Rightarrow> 'a lchan option" where
  "register_into_waiting_queue i c =
     (if lc_linked i c then Some c
      else Option.bind (lc_nodes c i) (\<lambda>n. Option.bind (cn_kind n) (\<lambda>k.
             map_option (\<lambda>q. set_waiters k (Some (q @ [i])) c) (lc_waiters k c))))"

definition remove_from_the_waiting_queue :: "node_id \<Rightarrow> 'a lchan \<Rightarrow> 'a lchan option" where
  "remove_from_the_waiting_queue i c =
     (if \<not> lc_linked i c then Some c
      else Option.bind (lc_nodes c i) (\<lambda>n. Option.bind (cn_kind n) (\<lambda>k.
             Option.bind (lc_waiters k c) (\<lambda>q.
               if i \<in> set q then Some (set_waiters k (Some (remove1 i q)) c) else None))))"

definition chan_waiter_poll ::
    "('a lchan \<Rightarrow> ('r poll_result \<times> 'a lchan) option) \<Rightarrow> node_id \<Rightarrow> waker \<Rightarrow> 'a lchan \<Rightarrow> ('r poll \<times> 'a lchan) option" where
  "chan_waiter_poll poll_fn i w c =
     Option.bind (lc_nodes c i) (\<lambda>n.
     Option.bind (poll_fn (node_set i (n\<lparr>cn_woken := False\<rparr>) c)) (\<lambda>(r, c1).
       case r of
         PrPending k \<Rightarrow>
           Option.bind (lc_nodes c1 i) (\<lambda>n1.
             map_option (\<lambda>c2. (Pending, c2))
               (register_into_waiting_queue i (node_set i (n1\<lparr>cn_kind := Some k, cn_waker := Some w\<rparr>) c1)))
       | PrReady x \<Rightarrow> map_option (\<lambda>c2. (Ready x, c2)) (remove_from_the_waiting_queue i c1)))"

definition chan_waiter_drop :: "node_id \<Rightarrow> 'a lchan \<Rightarrow> 'a lchan option" where
  "chan_waiter_drop i c =
     Option.bind (lc_nodes c i) (\<lambda>n.
       if cn_woken n then
         Option.bind (cn_kind n) (\<lambda>k.
           map_option (\<lambda>(w, c'). node_free i (chan_wake w c')) (pass_on_wakeup k c))
       else if lc_linked i c then
         Option.bind (cn_kind n) (\<lambda>k. Option.bind (lc_waiters k c) (\<lambda>q.
           if i \<in> set q then Some (node_free i (set_waiters k (Some (remove1 i q)) c)) else None))
       else Some (node_free i c))"

subsection \<open>LocalSender\<close>

definition lc_try_send :: "'a \<Rightarrow> 'a lchan \<Rightarrow> ((unit, 'a glommio_error) result \<times> 'a lchan) option" where
  "lc_try_send item c =
     map_option (\<lambda>(r, c'). case r of Inl e \<Rightarrow> (Inl e, c') | Inr w \<Rightarrow> (Inr (), chan_wake w c')) (lc_push item c)"

text \<open>
  One poll of the future of \<^verbatim>\<open>send\<close>, whose waiter is node \<open>i\<close>: when the wait for room is over the
  waiter is dropped and the item is sent.
\<close>

definition lc_send_poll ::
    "node_id \<Rightarrow> 'a \<Rightarrow> waker \<Rightarrow> 'a lchan \<Rightarrow> ((unit, 'a glommio_error) result poll \<times> 'a lchan) option" where
  "lc_send_poll i item w c =
     Option.bind (chan_waiter_poll lc_wait_for_room i w c) (\<lambda>(p, c1).
       case p of
         Pending \<Rightarrow> Some (Pending, c1)
       | Ready _ \<Rightarrow> Option.bind (chan_waiter_drop i c1) (\<lambda>c2.
           map_option (\<lambda>(r, c3). (Ready r, c3)) (lc_try_send item c2)))"

definition lc_len :: "'a lchan \<Rightarrow> nat" where
  "lc_len c = length (lc_channel c)"

text \<open>
  Dropping a half: its own queue goes away, the other side is woken, then the handle on the
  channel is dropped, which asserts that no waiter is left.
\<close>

definition lchan_drop :: "'a lchan \<Rightarrow> 'a lchan option" where
  "lchan_drop c =
     (if (lc_recv_waiters c = None \<or> lc_recv_waiters c = Some []) \<and>
         (lc_send_waiters c = None \<or> lc_send_waiters c = Some []) then Some c else None)"

definition sender_drop :: "'a lchan \<Rightarrow> 'a lchan option" where
  "sender_drop c = Option.bind (wake_up_all Receiver (c\<lparr>lc_send_waiters := None\<rparr>)) lchan_drop"

definition receiver_drop :: "'a lchan \<Rightarrow> 'a lchan option" where
  "receiver_drop c = Option.bind (wake_up_all Sender (c\<lparr>lc_recv_waiters := None\<rparr>)) lchan_drop"

subsection \<open>LocalReceiver and its stream\<close>

definition lc_recv_one :: "'a lchan \<Rightarrow> ('a option poll_result \<times> 'a lchan) option" where
  "lc_recv_one c =
     map_option (\<lambda>(r, c'). case r of
         PrPending k \<Rightarrow> (PrPending k, c')
       | PrReady None \<Rightarrow> (PrReady None, c')
       | PrReady (Some (x, w)) \<Rightarrow> (PrReady (Some x), chan_wake w c')) (state_recv_one c)"

definition lc_recv_poll :: "node_id \<Rightarrow> waker \<Rightarrow> 'a lchan \<Rightarrow> ('a option poll \<times> 'a lchan) option" where
  "lc_recv_poll i w c =
     Option.bind (chan_waiter_poll lc_recv_one i w c) (\<lambda>(p, c1).
       case p of
         Pending \<Rightarrow> Some (Pending, c1)
       | Ready x \<Rightarrow> map_option (\<lambda>c2. (Ready x, c2)) (chan_waiter_drop i c1))"

definition stream_poll_next :: "node_id \<Rightarrow> waker \<Rightarrow> 'a lchan \<Rightarrow> ('a option poll \<times> 'a lchan) option" where
  "stream_poll_next i w c =
     Option.bind (lc_nodes c i) (\<lambda>n.
     Option.bind (state_recv_one (node_set i (n\<lparr>cn_woken := False\<rparr>) c)) (\<lambda>(r, c1).
       case r of
         PrPending k \<Rightarrow>
           Option.bind (lc_nodes c1 i) (\<lambda>n1.
             map_option (\<lambda>c2. (Pending, c2))
               (register_into_waiting_queue i (node_set i (n1\<lparr>cn_waker := Some w, cn_kind := Some k\<rparr>) c1)))
       | PrReady x \<Rightarrow>
           map_option (\<lambda>c2. case x of None \<Rightarrow> (Ready None, c2) | Some (y, mw) \<Rightarrow> (Ready (Some y), chan_wake mw c2))
             (remove_from_the_waiting_queue i c1)))"

definition stream_drop :: "node_id \<Rightarrow> 'a lchan \<Rightarrow> 'a lchan option" where
  "stream_drop i c =
     Option.bind (lc_nodes c i) (\<lambda>n.
       if cn_woken n then map_option (\<lambda>(w, c'). node_free i (chan_wake w c')) (pass_on_wakeup Receiver c)
       else map_option (node_free i) (remove_from_the_waiting_queue i c))"


subsection \<open>Views of the state\<close>

lemma waiters_set [simp]:
  "lc_waiters k (set_waiters k' q c) = (if k = k' then q else lc_waiters k c)"
  "lc_waiters k (node_set i n c) = lc_waiters k c" "lc_waiters k (node_free i c) = lc_waiters k c"
  "lc_waiters k (chan_wake w c) = lc_waiters k c" "lc_waiters k (c\<lparr>lc_channel := xs\<rparr>) = lc_waiters k c"
  by (cases k; cases k'; simp add: lc_waiters_def set_waiters_def node_set_def node_free_def chan_wake_def split: option.splits)+

lemma nodes_set [simp]:
  "lc_nodes (set_waiters k q c) = lc_nodes c" "lc_nodes (chan_wake w c) = lc_nodes c"
  "lc_nodes (node_set i n c) = (lc_nodes c)(i \<mapsto> n)" "lc_nodes (node_free i c) = (lc_nodes c)(i := None)"
  by (cases k; simp add: set_waiters_def node_set_def node_free_def chan_wake_def split: option.splits)+

lemma channel_set [simp]:
  "lc_channel (set_waiters k q c) = lc_channel c" "lc_channel (chan_wake w c) = lc_channel c"
  "lc_channel (node_set i n c) = lc_channel c" "lc_channel (node_free i c) = lc_channel c"
  "lc_capacity (set_waiters k q c) = lc_capacity c" "lc_capacity (chan_wake w c) = lc_capacity c"
  "lc_capacity (node_set i n c) = lc_capacity c" "lc_capacity (node_free i c) = lc_capacity c"
  by (cases k; simp add: set_waiters_def node_set_def node_free_def chan_wake_def split: option.splits)+

lemma waiters_by_kind:
  "lc_recv_waiters c = lc_waiters Receiver c" "lc_send_waiters c = lc_waiters Sender c"
  by (simp_all add: lc_waiters_def)

lemma all_kinds: "(\<forall>k. P k) \<longleftrightarrow> P Sender \<and> P Receiver"
  by (metis chan_kind.exhaust)

lemma lc_linked_iff: "lc_linked i c \<longleftrightarrow> (\<exists>k q. lc_waiters k c = Some q \<and> i \<in> set q)"
  by (auto simp: lc_linked_def waiters_by_kind) (metis chan_kind.exhaust)

lemma is_full_view: "lc_capacity c' = lc_capacity c \<Longrightarrow> lc_channel c' = lc_channel c \<Longrightarrow> lc_is_full c' = lc_is_full c"
  by (cases "lc_capacity c") (simp_all add: lc_is_full_def)

subsection \<open>Invariant\<close>

text \<open>\<open>fk\<close> gives the side of each live future; a node learns its side when its future first waits.\<close>

type_synonym fut_kinds = "node_id \<Rightarrow> chan_kind option"

definition nodes_ok :: "fut_kinds \<Rightarrow> (node_id \<Rightarrow> chan_node option) \<Rightarrow> bool" where
  "nodes_ok fk nd \<longleftrightarrow> finite (dom nd) \<and> dom nd = dom fk \<and>
     (\<forall>i n. nd i = Some n \<longrightarrow> (cn_kind n = None \<or> cn_kind n = fk i) \<and> (cn_woken n \<longrightarrow> cn_kind n \<noteq> None))"

definition waits_in :: "chan_kind \<Rightarrow> (node_id \<Rightarrow> chan_node option) \<Rightarrow> node_id \<Rightarrow> bool" where
  "waits_in k nd i \<longleftrightarrow> (\<exists>n. nd i = Some n \<and> cn_kind n = Some k \<and> cn_waker n \<noteq> None \<and> \<not> cn_woken n)"

definition lqueue_ok :: "chan_kind \<Rightarrow> 'a lchan \<Rightarrow> bool" where
  "lqueue_ok k c \<longleftrightarrow> (\<forall>q. lc_waiters k c = Some q \<longrightarrow> distinct q \<and> (\<forall>i\<in>set q. waits_in k (lc_nodes c) i))"

definition lcap_ok :: "'a lchan \<Rightarrow> bool" where
  "lcap_ok c \<longleftrightarrow> (case lc_capacity c of Unbounded \<Rightarrow> True | Bounded x \<Rightarrow> length (lc_channel c) \<le> unat x)"

definition lc_core :: "fut_kinds \<Rightarrow> 'a lchan \<Rightarrow> bool" where
  "lc_core fk c \<longleftrightarrow> nodes_ok fk (lc_nodes c) \<and> (\<forall>k. lqueue_ok k c) \<and> lcap_ok c \<and>
     (\<forall>k i. lc_waiters k c = None \<longrightarrow> fk i \<noteq> Some k)"

definition woken_set :: "chan_kind \<Rightarrow> (node_id \<Rightarrow> chan_node option) \<Rightarrow> node_id set" where
  "woken_set k nd = {i. \<exists>n. nd i = Some n \<and> cn_woken n \<and> cn_kind n = Some k}"

definition lc_woken :: "chan_kind \<Rightarrow> 'a lchan \<Rightarrow> nat" where
  "lc_woken k c = card (woken_set k (lc_nodes c))"

lemma lcap_view: "lc_capacity c' = lc_capacity c \<Longrightarrow> lc_channel c' = lc_channel c \<Longrightarrow> lcap_ok c' = lcap_ok c"
  by (cases "lc_capacity c") (simp_all add: lcap_ok_def)

lemma lcap_views [simp]:
  "lcap_ok (set_waiters k q c) = lcap_ok c" "lcap_ok (chan_wake w c) = lcap_ok c"
  "lcap_ok (node_set i n c) = lcap_ok c" "lcap_ok (node_free i c) = lcap_ok c"
  "lc_is_full (set_waiters k q c) = lc_is_full c" "lc_is_full (chan_wake w c) = lc_is_full c"
  "lc_is_full (node_set i n c) = lc_is_full c" "lc_is_full (node_free i c) = lc_is_full c"
  by (rule lcap_view is_full_view; simp)+

lemma lc_coreI:
  assumes "nodes_ok fk (lc_nodes c)" "\<And>k q. lc_waiters k c = Some q \<Longrightarrow> distinct q"
    "\<And>k q i. lc_waiters k c = Some q \<Longrightarrow> i \<in> set q \<Longrightarrow> waits_in k (lc_nodes c) i" "lcap_ok c"
    "\<And>k i. lc_waiters k c = None \<Longrightarrow> fk i \<noteq> Some k"
  shows "lc_core fk c"
  using assms by (simp add: lc_core_def lqueue_ok_def)

lemma lc_coreD:
  assumes "lc_core fk c"
  shows "nodes_ok fk (lc_nodes c)" "lc_waiters k c = Some q \<Longrightarrow> distinct q"
    "lc_waiters k c = Some q \<Longrightarrow> i \<in> set q \<Longrightarrow> waits_in k (lc_nodes c) i" "lcap_ok c"
    "lc_waiters k c = None \<Longrightarrow> fk i \<noteq> Some k"
  using assms by (simp_all add: lc_core_def lqueue_ok_def)

text \<open>What a side waits for: items for the receivers, free places for the senders.\<close>

definition lc_avail :: "chan_kind \<Rightarrow> 'a lchan \<Rightarrow> nat" where
  "lc_avail k c = (case k of Receiver \<Rightarrow> length (lc_channel c)
     | Sender \<Rightarrow> (case lc_capacity c of Unbounded \<Rightarrow> 0 | Bounded x \<Rightarrow> unat x - length (lc_channel c)))"

text \<open>No lost wake-up: while a side's tasks wait, enough of that side's tasks have been woken.\<close>

definition lc_live_side :: "chan_kind \<Rightarrow> 'a lchan \<Rightarrow> bool" where
  "lc_live_side k c \<longleftrightarrow> (\<forall>q. lc_waiters k c = Some q \<longrightarrow> q \<noteq> [] \<longrightarrow> lc_avail k c \<le> lc_woken k c)"

definition no_waiters :: "chan_kind \<Rightarrow> 'a lchan \<Rightarrow> bool" where
  "no_waiters k c \<longleftrightarrow> lc_waiters k c = None \<or> lc_waiters k c = Some []"

definition lc_live :: "'a lchan \<Rightarrow> bool" where
  "lc_live c \<longleftrightarrow> lc_live_side Sender c \<and> lc_live_side Receiver c \<and>
     (lc_waiters Sender c = None \<longrightarrow> no_waiters Receiver c) \<and>
     (lc_waiters Receiver c = None \<longrightarrow> lc_is_full c \<or> no_waiters Sender c) \<and>
     (lc_capacity c = Unbounded \<longrightarrow> no_waiters Sender c)"

lemma core_node:
  assumes "lc_core fk c" "lc_nodes c i = Some n"
  shows "cn_kind n = None \<or> cn_kind n = fk i" "cn_woken n \<Longrightarrow> cn_kind n = fk i" "fk i \<noteq> None"
proof -
  have ok: "nodes_ok fk (lc_nodes c)" using assms(1) by (rule lc_coreD)
  show "cn_kind n = None \<or> cn_kind n = fk i" "cn_woken n \<Longrightarrow> cn_kind n = fk i"
    using ok assms(2) unfolding nodes_ok_def by metis+
  show "fk i \<noteq> None" using ok assms(2) unfolding nodes_ok_def by (metis domIff option.discI)
qed

lemma core_waits: "lc_core fk c \<Longrightarrow> lc_waiters k c = Some q \<Longrightarrow> i \<in> set q \<Longrightarrow> waits_in k (lc_nodes c) i"
  by (simp add: lc_core_def lqueue_ok_def)

lemma core_distinct: "lc_core fk c \<Longrightarrow> lc_waiters k c = Some q \<Longrightarrow> distinct q"
  by (simp add: lc_core_def lqueue_ok_def)

lemma core_finite: "lc_core fk c \<Longrightarrow> finite (woken_set k (lc_nodes c))"
  by (rule finite_subset [of _ "dom (lc_nodes c)"]) (auto simp: lc_core_def nodes_ok_def woken_set_def)

lemma core_queue_kind: "lc_core fk c \<Longrightarrow> lc_waiters k c = Some q \<Longrightarrow> i \<in> set q \<Longrightarrow> fk i = Some k"
  using core_waits core_node(1) by (fastforce simp: waits_in_def)

text \<open>A state change that keeps the queues and turns nodes only into nodes of the same side.\<close>

lemma core_nodes_update:
  assumes c: "lc_core fk c" and i: "lc_nodes c i = Some n" and n': "cn_kind n' = None \<or> cn_kind n' = fk i"
    "cn_woken n' \<longrightarrow> cn_kind n' \<noteq> None"
    and l: "lc_linked i c \<Longrightarrow> cn_kind n' = cn_kind n \<and> (cn_waker n \<noteq> None \<longrightarrow> cn_waker n' \<noteq> None) \<and> (cn_woken n' \<longrightarrow> cn_woken n)"
  shows "lc_core fk (node_set i n' c)"
proof (rule lc_coreI)
  show "nodes_ok fk (lc_nodes (node_set i n' c))"
    using lc_coreD(1) [OF c] i n' by (auto simp: nodes_ok_def)
  show "waits_in k (lc_nodes (node_set i n' c)) j" if "lc_waiters k (node_set i n' c) = Some q" "j \<in> set q" for k q j
  proof (cases "j = i")
    case True
    with that have "lc_linked i c" by (auto simp: lc_linked_iff)
    moreover have "waits_in k (lc_nodes c) i" using lc_coreD(3) [OF c, of k q j] that True by simp
    ultimately show ?thesis using True l i by (auto simp: waits_in_def)
  next
    case False
    with lc_coreD(3) [OF c, of k q j] that show ?thesis by (simp add: waits_in_def)
  qed
qed (use lc_coreD(2,4,5) [OF c] in simp_all)

lemma core_channel:
  assumes "lc_core fk c" "lcap_ok (c\<lparr>lc_channel := xs\<rparr>)"
  shows "lc_core fk (c\<lparr>lc_channel := xs\<rparr>)"
  using lc_coreD [OF assms(1)] assms(2) by (intro lc_coreI) simp_all

lemma core_wake [simp]: "lc_core fk (chan_wake w c) = lc_core fk c"
  by (simp add: lc_core_def lqueue_ok_def)

lemma woken_views [simp]:
  "lc_woken k (chan_wake w c) = lc_woken k c" "lc_woken k (set_waiters k' q c) = lc_woken k c"
  "lc_woken k (c\<lparr>lc_channel := xs\<rparr>) = lc_woken k c"
  by (simp_all add: lc_woken_def)

subsection \<open>The primitive moves\<close>

text \<open>A poll first clears the woken mark.\<close>

lemma unwake:
  assumes c: "lc_core fk c" and i: "lc_nodes c i = Some n"
  defines "c' \<equiv> node_set i (n\<lparr>cn_woken := False\<rparr>) c"
  shows "lc_core fk c'" "lc_woken k c \<le> lc_woken k c' + (if fk i = Some k then 1 else 0)"
proof -
  show "lc_core fk c'" unfolding c'_def
    using core_node [OF c i] by (intro core_nodes_update [OF c i]) auto
  have eq: "woken_set k (lc_nodes c') = woken_set k (lc_nodes c) - {i}"
    by (auto simp: c'_def woken_set_def)
  show "lc_woken k c \<le> lc_woken k c' + (if fk i = Some k then 1 else 0)"
  proof (cases "i \<in> woken_set k (lc_nodes c)")
    case True
    then have "fk i = Some k" using core_node(2) [OF c i] i by (auto simp: woken_set_def)
    with True eq core_finite [OF c, of k] show ?thesis by (simp add: lc_woken_def card_Diff_singleton)
  next
    case False
    with eq show ?thesis by (simp add: lc_woken_def)
  qed
qed

text \<open>Waking the head of a queue.\<close>

definition woke_first :: "chan_kind \<Rightarrow> 'a lchan \<Rightarrow> 'a lchan \<Rightarrow> bool" where
  "woke_first k c c' \<longleftrightarrow> lc_channel c' = lc_channel c \<and> lc_capacity c' = lc_capacity c \<and>
     (\<forall>k'. k' \<noteq> k \<longrightarrow> lc_waiters k' c' = lc_waiters k' c \<and> lc_woken k' c' = lc_woken k' c) \<and>
     lc_waiters k c' = map_option tl (lc_waiters k c) \<and>
     lc_woken k c' = lc_woken k c + (if no_waiters k c then 0 else 1) \<and>
     (\<forall>i. lc_nodes c' i \<noteq> lc_nodes c i \<longrightarrow> (\<exists>q. lc_waiters k c = Some q \<and> i \<in> set q))"

lemma wake_first_core:
  assumes c: "lc_core fk c" and ne: "lc_waiters k c = Some (i # is)"
  obtains n where "lc_nodes c i = Some n" "cn_kind n = Some k" "\<not> cn_woken n"
    "wake_first k c = Some (cn_waker n, node_set i (n\<lparr>cn_woken := True, cn_waker := None\<rparr>) (set_waiters k (Some is) c))"
    "lc_core fk (node_set i (n\<lparr>cn_woken := True, cn_waker := None\<rparr>) (set_waiters k (Some is) c))"
proof -
  obtain n where n: "lc_nodes c i = Some n" "cn_kind n = Some k" "\<not> cn_woken n"
    using core_waits [OF c ne, of i] by (auto simp: waits_in_def)
  let ?c = "set_waiters k (Some is) c"
  have kd: "fk i = Some k" using core_queue_kind [OF c ne] by simp
  have nl: "\<not> lc_linked i ?c"
    using core_distinct [OF c ne] core_queue_kind [OF c, of _ _ i] kd
    by (auto simp: lc_linked_iff split: if_splits)
  have "lc_core fk ?c"
    using lc_coreD [OF c] ne by (intro lc_coreI) (auto split: if_splits dest: lc_coreD(2,3) [OF c])
  then have "lc_core fk (node_set i (n\<lparr>cn_woken := True, cn_waker := None\<rparr>) ?c)"
    using n kd nl by (intro core_nodes_update) auto
  with n ne that show ?thesis by (simp add: wake_first_def)
qed

lemma wake_first_ok:
  assumes c: "lc_core fk c"
  shows "\<exists>w c'. wake_first k c = Some (w, c') \<and> lc_core fk c' \<and> woke_first k c c'"
proof (cases "no_waiters k c")
  case True
  then have "wake_first k c = Some (None, c)" by (auto simp: no_waiters_def wake_first_def)
  moreover have "woke_first k c c" using True by (auto simp: woke_first_def no_waiters_def)
  ultimately show ?thesis using c by blast
next
  case False
  then obtain i "is" where ne: "lc_waiters k c = Some (i # is)"
    by (cases "lc_waiters k c") (auto simp: no_waiters_def neq_Nil_conv)
  obtain n where n: "lc_nodes c i = Some n" "cn_kind n = Some k" "\<not> cn_woken n"
    and w: "wake_first k c = Some (cn_waker n, node_set i (n\<lparr>cn_woken := True, cn_waker := None\<rparr>) (set_waiters k (Some is) c))"
    and cc: "lc_core fk (node_set i (n\<lparr>cn_woken := True, cn_waker := None\<rparr>) (set_waiters k (Some is) c))"
    using wake_first_core [OF c ne] by blast
  let ?c = "node_set i (n\<lparr>cn_woken := True, cn_waker := None\<rparr>) (set_waiters k (Some is) c)"
  have "woken_set k (lc_nodes ?c) = insert i (woken_set k (lc_nodes c))" "i \<notin> woken_set k (lc_nodes c)"
    using n by (auto simp: woken_set_def)
  then have "lc_woken k ?c = Suc (lc_woken k c)"
    using core_finite [OF c, of k] by (simp add: lc_woken_def)
  moreover have "woken_set k' (lc_nodes ?c) = woken_set k' (lc_nodes c)" if "k' \<noteq> k" for k'
    using n that by (auto simp: woken_set_def)
  ultimately have "woke_first k c ?c"
    using ne False by (auto simp: woke_first_def lc_woken_def)
  with w cc show ?thesis by blast
qed

text \<open>Leaving a queue.\<close>

lemma linked_kind:
  assumes c: "lc_core fk c" and l: "lc_linked i c"
  obtains k n q where "lc_nodes c i = Some n" "cn_kind n = Some k" "\<not> cn_woken n" "lc_waiters k c = Some q" "i \<in> set q"
    "fk i = Some k"
proof -
  from l obtain k q where kq: "lc_waiters k c = Some q" "i \<in> set q" by (auto simp: lc_linked_iff)
  with core_waits [OF c kq] core_queue_kind [OF c kq] that show ?thesis by (auto simp: waits_in_def)
qed

definition unqueued :: "node_id \<Rightarrow> 'a lchan \<Rightarrow> 'a lchan \<Rightarrow> bool" where
  "unqueued i c c' \<longleftrightarrow> (\<forall>k. lc_waiters k c' = map_option (remove1 i) (lc_waiters k c)) \<and>
     lc_nodes c' = lc_nodes c \<and> lc_channel c' = lc_channel c \<and> lc_capacity c' = lc_capacity c"

lemma unqueued_core:
  assumes c: "lc_core fk c" and u: "unqueued i c c'"
  shows "lc_core fk c'" "\<not> lc_linked i c'" "lc_woken k c' = lc_woken k c"
proof -
  have cap: "lcap_ok c'" using lc_coreD(4) [OF c] lcap_view [of c' c] u by (simp add: unqueued_def)
  show "lc_core fk c'"
    using lc_coreD [OF c] u cap by (intro lc_coreI) (auto simp: unqueued_def dest: mem_remove1D)
  show "\<not> lc_linked i c'" using core_distinct [OF c] u by (auto simp: lc_linked_iff unqueued_def)
  show "lc_woken k c' = lc_woken k c" using u by (simp add: lc_woken_def unqueued_def)
qed

lemma unqueued_set:
  assumes c: "lc_core fk c" and q: "lc_waiters k c = Some q" "i \<in> set q"
  shows "unqueued i c (set_waiters k (Some (remove1 i q)) c)"
proof -
  have "remove1 i q' = q'" if "lc_waiters k' c = Some q'" "k' \<noteq> k" for k' q'
    using core_queue_kind [OF c q] core_queue_kind [OF c that(1), of i] that(2) by (intro remove1_idem) auto
  then have "lc_waiters k' c = map_option (remove1 i) (lc_waiters k' c)" if "k' \<noteq> k" for k'
    using that by (cases "lc_waiters k' c") auto
  then show ?thesis using q by (simp add: unqueued_def)
qed

lemma unqueued_refl: "\<not> lc_linked i c \<Longrightarrow> unqueued i c c"
proof -
  assume nl: "\<not> lc_linked i c"
  have "lc_waiters k c = map_option (remove1 i) (lc_waiters k c)" for k
    using nl by (cases "lc_waiters k c") (auto simp: lc_linked_iff intro!: remove1_idem [symmetric])
  then show ?thesis by (simp add: unqueued_def)
qed

lemma remove_ok:
  assumes c: "lc_core fk c"
  shows "\<exists>c'. remove_from_the_waiting_queue i c = Some c' \<and> unqueued i c c'"
proof (cases "lc_linked i c")
  case True
  then obtain k n q where "lc_nodes c i = Some n" "cn_kind n = Some k" and q: "lc_waiters k c = Some q" "i \<in> set q"
    using linked_kind [OF c True] by blast
  with True unqueued_set [OF c q] show ?thesis by (simp add: remove_from_the_waiting_queue_def)
next
  case False
  then show ?thesis by (simp add: remove_from_the_waiting_queue_def unqueued_refl)
qed

text \<open>Freeing the node of a future that is neither queued nor woken.\<close>

lemma free_ok:
  assumes c: "lc_core fk c" and nl: "\<not> lc_linked i c"
  shows "lc_core (fk(i := None)) (node_free i c)"
proof (rule lc_coreI)
  show "nodes_ok (fk(i := None)) (lc_nodes (node_free i c))"
    using lc_coreD(1) [OF c] by (auto simp: nodes_ok_def)
  show "waits_in k (lc_nodes (node_free i c)) j" if "lc_waiters k (node_free i c) = Some q" "j \<in> set q" for k q j
    using lc_coreD(3) [OF c, of k q j] that nl by (auto simp: waits_in_def lc_linked_iff)
qed (use lc_coreD(2,4,5) [OF c] in \<open>auto split: if_splits\<close>)

lemma free_woken:
  assumes "i \<notin> woken_set k (lc_nodes c)"
  shows "lc_woken k (node_free i c) = lc_woken k c"
proof -
  have "woken_set k (lc_nodes (node_free i c)) = woken_set k (lc_nodes c)" using assms by (auto simp: woken_set_def)
  then show ?thesis by (simp add: lc_woken_def)
qed

text \<open>Joining a queue.\<close>

definition enqueued :: "node_id \<Rightarrow> chan_kind \<Rightarrow> 'a lchan \<Rightarrow> 'a lchan \<Rightarrow> bool" where
  "enqueued i k c c' \<longleftrightarrow> lc_channel c' = lc_channel c \<and> lc_capacity c' = lc_capacity c \<and>
     (\<forall>k'. k' \<noteq> k \<longrightarrow> lc_waiters k' c' = lc_waiters k' c) \<and> (\<forall>k'. lc_woken k' c' = lc_woken k' c) \<and>
     lc_waiters k c \<noteq> None \<and> (\<exists>q. lc_waiters k c' = Some q \<and> i \<in> set q)"

lemma register_ok:
  assumes c: "lc_core fk c" and n: "lc_nodes c i = Some n" "\<not> cn_woken n" and k: "fk i = Some k"
  shows "\<exists>c'. register_into_waiting_queue i (node_set i (n\<lparr>cn_kind := Some k, cn_waker := Some w\<rparr>) c) = Some c' \<and>
     lc_core fk c' \<and> enqueued i k c c'"
proof -
  let ?n = "n\<lparr>cn_kind := Some k, cn_waker := Some w\<rparr>"
  let ?c = "node_set i ?n c"
  have cc: "lc_core fk ?c"
    using n k by (intro core_nodes_update [OF c n(1)]) (auto elim: linked_kind [OF c])
  obtain q where q: "lc_waiters k c = Some q" using c k by (cases "lc_waiters k c") (auto simp: lc_core_def)
  have wk: "lc_woken k' ?c = lc_woken k' c" for k'
  proof -
    have "woken_set k' (lc_nodes ?c) = woken_set k' (lc_nodes c)" using n by (auto simp: woken_set_def)
    then show ?thesis by (simp add: lc_woken_def)
  qed
  show ?thesis
  proof (cases "lc_linked i ?c")
    case True
    obtain k' q' where "lc_waiters k' ?c = Some q'" "i \<in> set q'" "fk i = Some k'"
      using linked_kind [OF cc True] by blast
    then have "i \<in> set q" using k q by simp
    with True cc q wk show ?thesis by (auto simp: register_into_waiting_queue_def enqueued_def)
  next
    case False
    let ?d = "set_waiters k (Some (q @ [i])) ?c"
    have wi: "waits_in k (lc_nodes ?d) i" using n by (simp add: waits_in_def)
    have "lc_core fk ?d"
    proof (rule lc_coreI)
      show "distinct q'" if "lc_waiters k' ?d = Some q'" for k' q'
        using that lc_coreD(2) [OF cc] False q by (auto simp: lc_linked_iff split: if_splits)
      show "waits_in k' (lc_nodes ?d) j" if "lc_waiters k' ?d = Some q'" "j \<in> set q'" for k' q' j
        using that lc_coreD(3) [OF cc] wi q by (auto split: if_splits)
    qed (use lc_coreD(1,4,5) [OF cc] q in \<open>auto split: if_splits\<close>)
    moreover have "enqueued i k c ?d" using wk q by (simp add: enqueued_def)
    ultimately show ?thesis using False q by (simp add: register_into_waiting_queue_def)
  qed
qed


subsection \<open>No wake-up is lost\<close>

text \<open>Side \<open>k\<close> may be one wake-up short: the task that has just been polled still has to act.\<close>

definition live_but :: "chan_kind \<Rightarrow> 'a lchan \<Rightarrow> bool" where
  "live_but k c \<longleftrightarrow>
     (\<forall>k' q. lc_waiters k' c = Some q \<longrightarrow> q \<noteq> [] \<longrightarrow> lc_avail k' c \<le> lc_woken k' c + (if k' = k then 1 else 0)) \<and>
     (lc_waiters Sender c = None \<longrightarrow> no_waiters Receiver c) \<and>
     (lc_waiters Receiver c = None \<longrightarrow> lc_is_full c \<or> no_waiters Sender c) \<and>
     (lc_capacity c = Unbounded \<longrightarrow> no_waiters Sender c)"

lemma lc_liveI:
  assumes "\<And>k q. lc_waiters k c = Some q \<Longrightarrow> q \<noteq> [] \<Longrightarrow> lc_avail k c \<le> lc_woken k c"
    "lc_waiters Sender c = None \<Longrightarrow> no_waiters Receiver c"
    "lc_waiters Receiver c = None \<Longrightarrow> lc_is_full c \<or> no_waiters Sender c"
    "lc_capacity c = Unbounded \<Longrightarrow> no_waiters Sender c"
  shows "lc_live c"
  using assms by (simp add: lc_live_def lc_live_side_def)

lemma live_butD:
  assumes "live_but k c"
  shows "lc_waiters k' c = Some q \<Longrightarrow> q \<noteq> [] \<Longrightarrow> lc_avail k' c \<le> lc_woken k' c + (if k' = k then 1 else 0)"
    "lc_waiters Sender c = None \<Longrightarrow> no_waiters Receiver c"
    "lc_waiters Receiver c = None \<Longrightarrow> lc_is_full c \<or> no_waiters Sender c"
    "lc_capacity c = Unbounded \<Longrightarrow> no_waiters Sender c"
  using assms by (simp_all add: live_but_def)

lemma live_side: "lc_live c \<Longrightarrow> lc_waiters k c = Some q \<Longrightarrow> q \<noteq> [] \<Longrightarrow> lc_avail k c \<le> lc_woken k c"
  by (cases k) (simp_all add: lc_live_def lc_live_side_def)

lemma live_live_but: "lc_live c \<Longrightarrow> live_but k c"
  using live_side [of c] by (fastforce simp: live_but_def lc_live_def)

lemma live_but_live: "(\<And>k. live_but k c) \<Longrightarrow> lc_live c"
proof (rule lc_liveI)
  assume l: "\<And>k. live_but k c"
  show "lc_avail k c \<le> lc_woken k c" if "lc_waiters k c = Some q" "q \<noteq> []" for k q
  proof (cases k)
    case Sender
    with live_butD(1) [OF l [of Receiver] that] show ?thesis by simp
  next
    case Receiver
    with live_butD(1) [OF l [of Sender] that] show ?thesis by simp
  qed
  show "lc_waiters Sender c = None \<Longrightarrow> no_waiters Receiver c"
    "lc_waiters Receiver c = None \<Longrightarrow> lc_is_full c \<or> no_waiters Sender c"
    "lc_capacity c = Unbounded \<Longrightarrow> no_waiters Sender c"
    using live_butD(2-4) [OF l] by blast+
qed

lemma avail_view: "lc_capacity c' = lc_capacity c \<Longrightarrow> lc_channel c' = lc_channel c \<Longrightarrow> lc_avail k c' = lc_avail k c"
  by (cases k; cases "lc_capacity c") (simp_all add: lc_avail_def)

lemma no_waiters_tl: "lc_waiters k c' = map_option tl (lc_waiters k c) \<Longrightarrow> no_waiters k c \<Longrightarrow> no_waiters k c'"
  by (auto simp: no_waiters_def)

lemma waiters_tlE:
  assumes "lc_waiters k c' = map_option tl (lc_waiters k c)" "lc_waiters k c' = Some q" "q \<noteq> []"
  obtains q0 where "lc_waiters k c = Some q0" "q0 \<noteq> []"
proof -
  obtain q0 where "lc_waiters k c = Some q0" "q = tl q0"
    using assms(1,2) by (cases "lc_waiters k c") simp_all
  moreover from this assms(3) have "q0 \<noteq> []" by auto
  ultimately show thesis using that by blast
qed

lemma no_waiters_remove: "lc_waiters k c' = map_option (remove1 i) (lc_waiters k c) \<Longrightarrow> no_waiters k c \<Longrightarrow> no_waiters k c'"
  by (auto simp: no_waiters_def)

lemma no_waiters_iff: "no_waiters k c \<longleftrightarrow> (\<forall>q. lc_waiters k c = Some q \<longrightarrow> q = [])"
  by (cases "lc_waiters k c") (auto simp: no_waiters_def)

text \<open>A change that only shrinks queues keeps the invariant when it keeps the marks.\<close>

lemma live_but_shrink:
  assumes l: "live_but k c" and v: "lc_capacity c' = lc_capacity c" "lc_channel c' = lc_channel c"
    and w: "\<And>k'. lc_woken k' c + (if k' = k then d else 0) \<le> lc_woken k' c' + (if k' = k then e else 0)"
    and q: "\<And>k'. lc_waiters k' c' = None \<longleftrightarrow> lc_waiters k' c = None" "\<And>k'. no_waiters k' c \<Longrightarrow> no_waiters k' c'"
    and de: "e \<le> d"
  shows "live_but k c'"
proof -
  have "lc_avail k' c' \<le> lc_woken k' c' + (if k' = k then 1 else 0)" if "lc_waiters k' c' = Some q'" "q' \<noteq> []" for k' q'
  proof -
    have "\<not> no_waiters k' c" using q(2) [of k'] that by (auto simp: no_waiters_iff)
    then obtain q0 where "lc_waiters k' c = Some q0" "q0 \<noteq> []" by (auto simp: no_waiters_iff)
    from live_butD(1) [OF l this] avail_view [OF v, of k'] w [of k'] de show ?thesis by (auto split: if_splits)
  qed
  with live_butD(2-4) [OF l] q is_full_view [OF v] v show ?thesis
    by (auto simp: live_but_def)
qed

lemma unwake_live:
  assumes c: "lc_core fk c" and i: "lc_nodes c i = Some n" and k: "fk i = Some k" and l: "lc_live c"
  shows "live_but k (node_set i (n\<lparr>cn_woken := False\<rparr>) c)"
proof -
  let ?c = "node_set i (n\<lparr>cn_woken := False\<rparr>) c"
  have "lc_avail k' ?c \<le> lc_woken k' ?c + (if k' = k then 1 else 0)" if "lc_waiters k' c = Some q" "q \<noteq> []" for k' q
    using live_side [OF l that] unwake(2) [OF c i, of k'] k avail_view [of ?c c k'] by (auto split: if_splits)
  with l show ?thesis by (auto simp: live_but_def lc_live_def no_waiters_def)
qed

lemma unqueued_live:
  assumes l: "live_but k c" and u: "unqueued i c c'" and w: "\<And>k. lc_woken k c' = lc_woken k c"
  shows "live_but k c'"
  using u w by (intro live_but_shrink [OF l, where d = 0 and e = 0]) (auto simp: unqueued_def no_waiters_def)

lemma free_live:
  assumes l: "live_but k c" and w: "\<And>k. i \<notin> woken_set k (lc_nodes c)"
  shows "live_but k (node_free i c)"
  by (intro live_but_shrink [OF l, where d = 0 and e = 0]) (auto simp: no_waiters_def free_woken [OF w])

lemma wake_live [simp]: "live_but k (chan_wake w c) = live_but k c" "lc_live (chan_wake w c) = lc_live c"
proof -
  have "lc_avail k (chan_wake w c) = lc_avail k c" for k by (rule avail_view) simp_all
  then show "live_but k (chan_wake w c) = live_but k c" "lc_live (chan_wake w c) = lc_live c"
    by (simp_all add: live_but_def lc_live_def lc_live_side_def no_waiters_def)
qed

lemma live_but_idle:
  assumes l: "live_but k c" and k: "lc_avail k c = 0 \<or> no_waiters k c"
  shows "lc_live c"
proof (rule lc_liveI)
  show "lc_avail k' c \<le> lc_woken k' c" if "lc_waiters k' c = Some q" "q \<noteq> []" for k' q
    using live_butD(1) [OF l that] k that by (cases "k' = k") (auto simp: no_waiters_iff)
qed (use live_butD(2-4) [OF l] in simp_all)

lemma recv_live:
  assumes l: "live_but Receiver c" and x: "lc_channel c = x # xs"
    and w: "woke_first Sender (c\<lparr>lc_channel := xs\<rparr>) c'" and r: "lc_waiters Receiver c \<noteq> None"
  shows "lc_live c'"
proof -
  have v: "lc_channel c' = xs" "lc_capacity c' = lc_capacity c" "lc_waiters Receiver c' = lc_waiters Receiver c"
    "lc_waiters Sender c' = map_option tl (lc_waiters Sender c)" "lc_woken Receiver c' = lc_woken Receiver c"
    "lc_woken Sender c' = lc_woken Sender c + (if no_waiters Sender c then 0 else 1)"
    using w by (simp_all add: woke_first_def no_waiters_def)
  have av: "lc_avail Receiver c = Suc (lc_avail Receiver c')" "lc_avail Sender c' \<le> lc_avail Sender c + 1"
    using v x by (auto simp: lc_avail_def split: channel_capacity.splits)
  show ?thesis
  proof (rule lc_liveI)
    show "lc_avail k c' \<le> lc_woken k c'" if "lc_waiters k c' = Some q" "q \<noteq> []" for k q
    proof (cases k)
      case Receiver
      with that live_butD(1) [OF l, of Receiver q] v av show ?thesis by simp
    next
      case Sender
      with that obtain q0 where q0: "lc_waiters Sender c = Some q0" "q0 \<noteq> []"
        by (auto elim: waiters_tlE [OF v(4)])
      with Sender that live_butD(1) [OF l, of Sender q0] v av show ?thesis by (simp add: no_waiters_def)
    qed
  qed (use live_butD(2-4) [OF l] v r in \<open>auto simp: no_waiters_def\<close>)
qed

lemma push_live:
  assumes l: "live_but Sender c" and nf: "\<not> lc_is_full c"
    and w: "woke_first Receiver (c\<lparr>lc_channel := lc_channel c @ [x]\<rparr>) c'" and r: "lc_waiters Receiver c \<noteq> None"
  shows "lc_live c'"
proof -
  have v: "lc_channel c' = lc_channel c @ [x]" "lc_capacity c' = lc_capacity c" "lc_waiters Sender c' = lc_waiters Sender c"
    "lc_waiters Receiver c' = map_option tl (lc_waiters Receiver c)" "lc_woken Sender c' = lc_woken Sender c"
    "lc_woken Receiver c' = lc_woken Receiver c + (if no_waiters Receiver c then 0 else 1)"
    using w by (simp_all add: woke_first_def no_waiters_def)
  have av: "lc_avail Receiver c' = Suc (lc_avail Receiver c)" "lc_avail Sender c' = lc_avail Sender c - 1"
    using v nf by (auto simp: lc_avail_def lc_is_full_def split: channel_capacity.splits)
  show ?thesis
  proof (rule lc_liveI)
    show "lc_avail k c' \<le> lc_woken k c'" if "lc_waiters k c' = Some q" "q \<noteq> []" for k q
    proof (cases k)
      case Sender
      with that live_butD(1) [OF l, of Sender q] v av show ?thesis by simp
    next
      case Receiver
      with that obtain q0 where q0: "lc_waiters Receiver c = Some q0" "q0 \<noteq> []"
        by (auto elim: waiters_tlE [OF v(4)])
      with Receiver that live_butD(1) [OF l, of Receiver q0] v av show ?thesis by (simp add: no_waiters_def)
    qed
  qed (use live_butD(2-4) [OF l] v r in \<open>auto simp: no_waiters_def\<close>)
qed

lemma enqueued_live:
  assumes l: "live_but k c" and e: "enqueued i k c c'" and a: "lc_avail k c = 0"
    and k: "k = Receiver \<Longrightarrow> lc_waiters Sender c \<noteq> None" "k = Sender \<Longrightarrow> lc_is_full c"
  shows "lc_live c'"
proof -
  have v: "lc_capacity c' = lc_capacity c" "lc_channel c' = lc_channel c" using e by (simp_all add: enqueued_def)
  show ?thesis
  proof (rule lc_liveI)
    show "lc_avail k' c' \<le> lc_woken k' c'" if "lc_waiters k' c' = Some q" "q \<noteq> []" for k' q
      using live_butD(1) [OF l, of k' q] that e a avail_view [OF v, of k']
      by (cases "k' = k") (auto simp: enqueued_def)
    show "no_waiters Receiver c'" if "lc_waiters Sender c' = None"
      using that e k live_butD(2) [OF l] by (cases k) (auto simp: enqueued_def no_waiters_def)
    show "lc_is_full c' \<or> no_waiters Sender c'" if "lc_waiters Receiver c' = None"
      using that e k live_butD(3) [OF l] is_full_view [OF v] by (cases k) (auto simp: enqueued_def no_waiters_def)
    show "no_waiters Sender c'" if "lc_capacity c' = Unbounded"
      using that e k live_butD(4) [OF l] by (cases k) (auto simp: enqueued_def no_waiters_def lc_is_full_def)
  qed
qed

text \<open>A cancelled task that had been woken passes its wake-up on.\<close>

lemma passed_on_live:
  assumes l: "lc_live c" and w: "woke_first k c c1" and i: "lc_woken k c1 \<le> Suc (lc_woken k c2)"
    and o: "\<And>k'. k' \<noteq> k \<Longrightarrow> lc_woken k' c2 = lc_woken k' c1"
    and v: "lc_capacity c2 = lc_capacity c1" "lc_channel c2 = lc_channel c1" "\<And>k'. lc_waiters k' c2 = lc_waiters k' c1"
  shows "lc_live c2"
proof (rule lc_liveI)
  have v': "lc_capacity c2 = lc_capacity c" "lc_channel c2 = lc_channel c" using v w by (simp_all add: woke_first_def)
  show "lc_avail k' c2 \<le> lc_woken k' c2" if q: "lc_waiters k' c2 = Some q" "q \<noteq> []" for k' q
  proof (cases "k' = k")
    case True
    have "lc_waiters k c1 = map_option tl (lc_waiters k c)" using w by (simp add: woke_first_def)
    then obtain q0 where "lc_waiters k c = Some q0" "q0 \<noteq> []"
      using True q v(3) [of k] by (metis waiters_tlE)
    then show ?thesis
      using True live_side [OF l, of k q0] i w avail_view [OF v', of k]
      by (simp add: woke_first_def no_waiters_def)
  next
    case False
    then show ?thesis
      using q v w o [of k'] live_side [OF l, of k' q] avail_view [OF v', of k'] by (simp add: woke_first_def)
  qed
  have n: "no_waiters k' c \<Longrightarrow> no_waiters k' c2" "lc_waiters k' c2 = None \<longleftrightarrow> lc_waiters k' c = None" for k'
    using v w by (cases "k' = k"; auto simp: woke_first_def no_waiters_def)+
  show "no_waiters Receiver c2" if "lc_waiters Sender c2 = None" using that n l by (auto simp: lc_live_def)
  show "lc_is_full c2 \<or> no_waiters Sender c2" if "lc_waiters Receiver c2 = None"
    using that n l is_full_view [OF v'] by (auto simp: lc_live_def)
  show "no_waiters Sender c2" if "lc_capacity c2 = Unbounded" using that n l v' by (auto simp: lc_live_def)
qed


subsection \<open>Polls and drops of futures\<close>

lemma recv_side_alive: "lc_core fk c \<Longrightarrow> fk i = Some k \<Longrightarrow> lc_waiters k c \<noteq> None"
  by (auto dest: lc_coreD(5))

lemma core_pop:
  assumes c: "lc_core fk c" and x: "lc_channel c = x # xs"
  shows "lc_core fk (c\<lparr>lc_channel := xs\<rparr>)"
proof -
  have "lcap_ok (c\<lparr>lc_channel := xs\<rparr>)"
    using lc_coreD(4) [OF c] x by (auto simp: lcap_ok_def split: channel_capacity.splits)
  then show ?thesis by (rule core_channel [OF c])
qed

lemma state_recv_one_item:
  assumes c: "lc_core fk c" and x: "lc_channel c = x # xs"
  obtains w c' where "state_recv_one c = Some (PrReady (Some (x, w)), c')" "lc_core fk c'"
    "woke_first Sender (c\<lparr>lc_channel := xs\<rparr>) c'"
  using wake_first_ok [OF core_pop [OF c x], of Sender] that x by (auto simp: state_recv_one_def)

lemma woke_first_keeps:
  assumes "woke_first k c c'" "lc_core fk c" "fk i \<noteq> Some k"
  shows "lc_nodes c' i = lc_nodes c i"
proof (rule ccontr)
  assume "lc_nodes c' i \<noteq> lc_nodes c i"
  with assms(1) obtain q where "lc_waiters k c = Some q" "i \<in> set q" by (auto simp: woke_first_def)
  with core_queue_kind [OF assms(2)] assms(3) show False by blast
qed

text \<open>
  The result of a poll on the receiving side: either the task is queued and nothing else
  changes, or it gets the oldest item, or the channel is empty and its sender gone.
\<close>

lemma node_upd_commute: "(n::chan_node)\<lparr>cn_waker := a, cn_kind := b\<rparr> = n\<lparr>cn_kind := b, cn_waker := a\<rparr>"
  by simp

definition recv_done :: "'a option \<Rightarrow> 'a lchan \<Rightarrow> 'a lchan \<Rightarrow> bool" where
  "recv_done r c c' \<longleftrightarrow> (case r of
       Some x \<Rightarrow> lc_channel c = x # lc_channel c'
     | None \<Rightarrow> lc_channel c = [] \<and> lc_channel c' = [] \<and> lc_waiters Sender c = None)"

text \<open>Polling an empty open channel queues the task.\<close>

lemma recv_pending:
  assumes c: "lc_core fk c" and l: "live_but Receiver c" and n: "lc_nodes c i = Some n" "\<not> cn_woken n"
    and k: "fk i = Some Receiver" and e: "lc_channel c = []" and s: "lc_waiters Sender c \<noteq> None"
  shows "\<exists>c'. register_into_waiting_queue i (node_set i (n\<lparr>cn_kind := Some Receiver, cn_waker := Some w\<rparr>) c) = Some c' \<and>
     lc_core fk c' \<and> lc_live c' \<and> lc_channel c' = []"
proof -
  obtain c' where r: "register_into_waiting_queue i (node_set i (n\<lparr>cn_kind := Some Receiver, cn_waker := Some w\<rparr>) c) = Some c'"
    "lc_core fk c'" "enqueued i Receiver c c'"
    using register_ok [OF c n k] by blast
  moreover have "lc_live c'" using s e by (intro enqueued_live [OF l r(3)]) (auto simp: lc_avail_def)
  moreover have "lc_channel c' = []" using r(3) e by (simp add: enqueued_def)
  ultimately show ?thesis by blast
qed

text \<open>Taking an item, then leaving the queue.\<close>

lemma recv_taken:
  assumes c: "lc_core fk c" and l: "live_but Receiver c" and n: "lc_nodes c i = Some n" "\<not> cn_woken n"
    and k: "fk i = Some Receiver" and x: "lc_channel c = x # xs"
  shows "\<exists>w c1. state_recv_one c = Some (PrReady (Some (x, w)), c1) \<and>
     (\<forall>w'. \<exists>c2. remove_from_the_waiting_queue i (chan_wake w' c1) = Some c2 \<and> lc_core fk c2 \<and> lc_live c2 \<and>
        lc_channel c2 = xs \<and> \<not> lc_linked i c2 \<and> lc_nodes c2 i = Some n)"
proof -
  obtain w c1 where r: "state_recv_one c = Some (PrReady (Some (x, w)), c1)" "lc_core fk c1"
    "woke_first Sender (c\<lparr>lc_channel := xs\<rparr>) c1"
    using state_recv_one_item [OF c x] .
  have l1: "lc_live c1" using recv_live [OF l x r(3)] recv_side_alive [OF c k] by simp
  have "\<exists>c2. remove_from_the_waiting_queue i (chan_wake w' c1) = Some c2 \<and> lc_core fk c2 \<and> lc_live c2 \<and>
        lc_channel c2 = xs \<and> \<not> lc_linked i c2 \<and> lc_nodes c2 i = Some n" for w'
  proof -
    have cw: "lc_core fk (chan_wake w' c1)" using r(2) by simp
    obtain c2 where c2: "remove_from_the_waiting_queue i (chan_wake w' c1) = Some c2" "unqueued i (chan_wake w' c1) c2"
      using remove_ok [OF cw] by blast
    note u = unqueued_core [OF cw c2(2)]
    have "live_but k c2" for k using unqueued_live [OF _ c2(2) u(3)] live_live_but [OF l1] by simp
    then have "lc_live c2" using live_but_live by blast
    moreover have "lc_nodes c2 i = Some n"
    proof -
      have "lc_nodes c1 i = lc_nodes (c\<lparr>lc_channel := xs\<rparr>) i"
        using k by (intro woke_first_keeps [OF r(3) core_pop [OF c x]]) simp
      with c2(2) n show ?thesis by (simp add: unqueued_def)
    qed
    moreover have "lc_channel c2 = xs" using c2(2) r(3) by (simp add: unqueued_def woke_first_def)
    ultimately show ?thesis using c2(1) u(1,2) by blast
  qed
  with r(1) show ?thesis by blast
qed

lemma waiter_drop_idle:
  assumes "lc_nodes c i = Some n" "\<not> cn_woken n" "\<not> lc_linked i c"
  shows "chan_waiter_drop i c = Some (node_free i c)"
  using assms by (simp add: chan_waiter_drop_def)

lemma freed_ok:
  assumes c: "lc_core fk c" and l: "lc_live c" and n: "lc_nodes c i = Some n" "\<not> cn_woken n" and nl: "\<not> lc_linked i c"
  shows "lc_core (fk(i := None)) (node_free i c)" "lc_live (node_free i c)" "lc_channel (node_free i c) = lc_channel c"
proof -
  show "lc_core (fk(i := None)) (node_free i c)" by (rule free_ok [OF c nl])
  have "i \<notin> woken_set k (lc_nodes c)" for k using n by (auto simp: woken_set_def)
  then have "live_but k (node_free i c)" for k using free_live [OF live_live_but [OF l]] by blast
  then show "lc_live (node_free i c)" using live_but_live by blast
qed simp


lemma recv_poll_ok:
  assumes c: "lc_core fk c" and l: "lc_live c" and n: "lc_nodes c i = Some n" and k: "fk i = Some Receiver"
  shows "\<exists>p c'. lc_recv_poll i w c = Some (p, c') \<and> lc_live c' \<and> (case p of
     Pending \<Rightarrow> lc_core fk c' \<and> lc_channel c' = lc_channel c
   | Ready r \<Rightarrow> lc_core (fk(i := None)) c' \<and> recv_done r c c')"
proof -
  let ?n = "n\<lparr>cn_woken := False\<rparr>" and ?c = "node_set i (n\<lparr>cn_woken := False\<rparr>) c"
  have c0: "lc_core fk ?c" and l0: "live_but Receiver ?c"
    using unwake(1) [OF c n] unwake_live [OF c n k l] by simp_all
  have n0: "lc_nodes ?c i = Some ?n" "\<not> cn_woken ?n" by simp_all
  consider (item) x xs where "lc_channel c = x # xs" | (wait) "lc_channel c = []" "lc_waiters Sender c \<noteq> None"
    | (eof) "lc_channel c = []" "lc_waiters Sender c = None"
    by (cases "lc_channel c") auto
  then show ?thesis
  proof cases
    case item
    then obtain mw c1 where r: "state_recv_one ?c = Some (PrReady (Some (x, mw)), c1)"
      and rm: "\<forall>w'. \<exists>c2. remove_from_the_waiting_queue i (chan_wake w' c1) = Some c2 \<and> lc_core fk c2 \<and> lc_live c2 \<and>
        lc_channel c2 = xs \<and> \<not> lc_linked i c2 \<and> lc_nodes c2 i = Some ?n"
      using recv_taken [OF c0 l0 n0 k] by fastforce
    from rm obtain c2 where c2: "remove_from_the_waiting_queue i (chan_wake mw c1) = Some c2" "lc_core fk c2" "lc_live c2"
      "lc_channel c2 = xs" "\<not> lc_linked i c2" "lc_nodes c2 i = Some ?n" by blast
    note f = freed_ok [OF c2(2,3,6) n0(2) c2(5)]
    have "lc_recv_poll i w c = Some (Ready (Some x), node_free i c2)"
      using n r c2(1) waiter_drop_idle [OF c2(6) n0(2) c2(5)]
      by (simp add: lc_recv_poll_def chan_waiter_poll_def lc_recv_one_def)
    with f item c2(4) show ?thesis by (simp add: recv_done_def)
  next
    case wait
    then have "state_recv_one ?c = Some (PrPending Receiver, ?c)" by (simp add: state_recv_one_def waiters_by_kind)
    moreover obtain c' where "register_into_waiting_queue i (node_set i (?n\<lparr>cn_kind := Some Receiver, cn_waker := Some w\<rparr>) ?c) = Some c'"
      "lc_core fk c'" "lc_live c'" "lc_channel c' = []"
      using recv_pending [OF c0 l0 n0 k] wait by fastforce
    ultimately show ?thesis using n wait by (simp add: lc_recv_poll_def chan_waiter_poll_def lc_recv_one_def)
  next
    case eof
    then have r: "state_recv_one ?c = Some (PrReady None, ?c)" by (simp add: state_recv_one_def waiters_by_kind)
    obtain c2 where c2: "remove_from_the_waiting_queue i ?c = Some c2" "unqueued i ?c c2"
      using remove_ok [OF c0] by blast
    note u = unqueued_core [OF c0 c2(2)]
    have "lc_live ?c" using eof by (intro live_but_idle [OF l0]) (simp add: lc_avail_def)
    then have "live_but k c2" for k using unqueued_live [OF live_live_but c2(2) u(3)] by blast
    then have l2: "lc_live c2" by (rule live_but_live)
    have n2: "lc_nodes c2 i = Some ?n" using c2(2) by (simp add: unqueued_def)
    note f = freed_ok [OF u(1) l2 n2 n0(2) u(2)]
    have "lc_recv_poll i w c = Some (Ready None, node_free i c2)"
      using n r c2(1) waiter_drop_idle [OF n2 n0(2) u(2)]
      by (simp add: lc_recv_poll_def chan_waiter_poll_def lc_recv_one_def)
    moreover have "lc_channel c2 = []" using c2(2) eof by (simp add: unqueued_def)
    ultimately show ?thesis using f eof by (simp add: recv_done_def)
  qed
qed

lemma stream_poll_ok:
  assumes c: "lc_core fk c" and l: "lc_live c" and n: "lc_nodes c i = Some n" and k: "fk i = Some Receiver"
  shows "\<exists>p c'. stream_poll_next i w c = Some (p, c') \<and> lc_live c' \<and> lc_core fk c' \<and> (case p of
     Pending \<Rightarrow> lc_channel c' = lc_channel c | Ready r \<Rightarrow> recv_done r c c')"
proof -
  let ?n = "n\<lparr>cn_woken := False\<rparr>" and ?c = "node_set i (n\<lparr>cn_woken := False\<rparr>) c"
  have c0: "lc_core fk ?c" and l0: "live_but Receiver ?c"
    using unwake(1) [OF c n] unwake_live [OF c n k l] by simp_all
  have n0: "lc_nodes ?c i = Some ?n" "\<not> cn_woken ?n" by simp_all
  consider (item) x xs where "lc_channel c = x # xs" | (wait) "lc_channel c = []" "lc_waiters Sender c \<noteq> None"
    | (eof) "lc_channel c = []" "lc_waiters Sender c = None"
    by (cases "lc_channel c") auto
  then show ?thesis
  proof cases
    case item
    then obtain mw c1 where r: "state_recv_one ?c = Some (PrReady (Some (x, mw)), c1)"
      and rm: "\<forall>w'. \<exists>c2. remove_from_the_waiting_queue i (chan_wake w' c1) = Some c2 \<and> lc_core fk c2 \<and> lc_live c2 \<and>
        lc_channel c2 = xs \<and> \<not> lc_linked i c2 \<and> lc_nodes c2 i = Some ?n"
      using recv_taken [OF c0 l0 n0 k] by fastforce
    have "chan_wake None c1 = c1" by (simp add: chan_wake_def)
    with rm obtain c2 where "remove_from_the_waiting_queue i c1 = Some c2" "lc_core fk c2" "lc_live c2" "lc_channel c2 = xs"
      by metis
    with n r item show ?thesis by (simp add: stream_poll_next_def recv_done_def)
  next
    case wait
    then have "state_recv_one ?c = Some (PrPending Receiver, ?c)" by (simp add: state_recv_one_def waiters_by_kind)
    moreover obtain c' where "register_into_waiting_queue i (node_set i (?n\<lparr>cn_kind := Some Receiver, cn_waker := Some w\<rparr>) ?c) = Some c'"
      "lc_core fk c'" "lc_live c'" "lc_channel c' = []"
      using recv_pending [OF c0 l0 n0 k] wait by fastforce
    ultimately show ?thesis using n wait by (simp add: stream_poll_next_def node_upd_commute)
  next
    case eof
    then have r: "state_recv_one ?c = Some (PrReady None, ?c)" by (simp add: state_recv_one_def waiters_by_kind)
    obtain c2 where c2: "remove_from_the_waiting_queue i ?c = Some c2" "unqueued i ?c c2"
      using remove_ok [OF c0] by blast
    note u = unqueued_core [OF c0 c2(2)]
    have "lc_live ?c" using eof by (intro live_but_idle [OF l0]) (simp add: lc_avail_def)
    then have "live_but k c2" for k using unqueued_live [OF live_live_but c2(2) u(3)] by blast
    then have "lc_live c2" by (rule live_but_live)
    moreover have "lc_channel c2 = []" using c2(2) eof by (simp add: unqueued_def)
    ultimately show ?thesis using n r c2(1) u(1) eof by (simp add: stream_poll_next_def recv_done_def)
  qed
qed

subsection \<open>Sending\<close>

definition send_done :: "('a glommio_error + unit) \<Rightarrow> 'a \<Rightarrow> 'a lchan \<Rightarrow> 'a lchan \<Rightarrow> bool" where
  "send_done r x c c' \<longleftrightarrow> (case r of
       Inr _ \<Rightarrow> lc_channel c' = lc_channel c @ [x]
     | Inl e \<Rightarrow> lc_channel c' = lc_channel c \<and>
         (e = Closed (ResChannel x) \<and> lc_waiters Receiver c = None \<or> e = WouldBlock (ResChannel x) \<and> lc_is_full c))"

text \<open>Sends and cancellations drop no half of the channel.\<close>

definition same_ends :: "'a lchan \<Rightarrow> 'a lchan \<Rightarrow> bool" where
  "same_ends c c' \<longleftrightarrow> lc_capacity c' = lc_capacity c \<and> (\<forall>k. lc_waiters k c' = None \<longleftrightarrow> lc_waiters k c = None)"

lemma same_ends_refl [simp]: "same_ends c c"
  by (simp add: same_ends_def)

lemma same_ends_trans [trans]: "same_ends a b \<Longrightarrow> same_ends b c \<Longrightarrow> same_ends a c"
  by (simp add: same_ends_def)

lemma same_ends_moves:
  "woke_first k c c' \<Longrightarrow> same_ends c c'" "unqueued i c c' \<Longrightarrow> same_ends c c'" "enqueued i k c c' \<Longrightarrow> same_ends c c'"
proof -
  show "same_ends c c'" if "woke_first k c c'"
  proof -
    have "lc_waiters k' c' = None \<longleftrightarrow> lc_waiters k' c = None" for k' using that by (cases "k' = k") (auto simp: woke_first_def)
    then show ?thesis using that by (simp add: same_ends_def woke_first_def)
  qed
  show "same_ends c c'" if "unqueued i c c'" using that by (simp add: same_ends_def unqueued_def)
  show "same_ends c c'" if "enqueued i k c c'"
  proof -
    have "lc_waiters k' c' = None \<longleftrightarrow> lc_waiters k' c = None" for k' using that by (cases "k' = k") (auto simp: enqueued_def)
    then show ?thesis using that by (simp add: same_ends_def enqueued_def)
  qed
qed

lemma same_ends_views [simp]:
  "same_ends c (node_set i n c') = same_ends c c'" "same_ends c (node_free i c') = same_ends c c'"
  "same_ends c (chan_wake w c') = same_ends c c'" "same_ends (node_set i n c) c' = same_ends c c'"
  "same_ends (node_free i c) c' = same_ends c c'" "same_ends (c\<lparr>lc_channel := xs\<rparr>) c' = same_ends c c'"
  by (simp_all add: same_ends_def)

lemma try_send_ok:
  assumes c: "lc_core fk c" and l: "live_but Sender c" and i: "lc_is_full c \<or> lc_waiters Receiver c = None \<Longrightarrow> lc_live c"
  shows "\<exists>r c'. lc_try_send x c = Some (r, c') \<and> lc_core fk c' \<and> lc_live c' \<and> send_done r x c c' \<and> same_ends c c'"
proof (cases "lc_is_full c \<or> lc_waiters Receiver c = None")
  case True
  with c i show ?thesis
    by (cases "lc_waiters Receiver c = None") (auto simp: lc_try_send_def lc_push_def waiters_by_kind send_done_def)
next
  case False
  let ?c = "c\<lparr>lc_channel := lc_channel c @ [x]\<rparr>"
  have "lcap_ok ?c" using False by (auto simp: lcap_ok_def lc_is_full_def split: channel_capacity.splits)
  then have "lc_core fk ?c" by (rule core_channel [OF c])
  from wake_first_ok [OF this, of Receiver] obtain w c' where
    w: "wake_first Receiver ?c = Some (w, c')" "lc_core fk c'" "woke_first Receiver ?c c'" by blast
  have "lc_live c'" using False by (intro push_live [OF l _ w(3)]) auto
  moreover have "lc_channel c' = lc_channel c @ [x]" using w(3) by (simp add: woke_first_def)
  moreover have "same_ends c c'" using same_ends_moves(1) [OF w(3)] by simp
  ultimately show ?thesis using w False
    by (auto simp: lc_try_send_def lc_push_def waiters_by_kind send_done_def)
qed

lemma send_poll_ok:
  assumes c: "lc_core fk c" and l: "lc_live c" and n: "lc_nodes c i = Some n" and k: "fk i = Some Sender"
  shows "\<exists>p c'. lc_send_poll i x w c = Some (p, c') \<and> lc_live c' \<and> same_ends c c' \<and> (case p of
     Pending \<Rightarrow> lc_core fk c' \<and> lc_channel c' = lc_channel c \<and> lc_is_full c
   | Ready r \<Rightarrow> lc_core (fk(i := None)) c' \<and> send_done r x c c' \<and> \<not> lc_is_full c)"
proof -
  let ?n = "n\<lparr>cn_woken := False\<rparr>" and ?c = "node_set i (n\<lparr>cn_woken := False\<rparr>) c"
  have c0: "lc_core fk ?c" and l0: "live_but Sender ?c"
    using unwake(1) [OF c n] unwake_live [OF c n k l] by simp_all
  have n0: "lc_nodes ?c i = Some ?n" "\<not> cn_woken ?n" by simp_all
  show ?thesis
  proof (cases "lc_is_full c")
    case True
    obtain c' where r: "register_into_waiting_queue i (node_set i (?n\<lparr>cn_kind := Some Sender, cn_waker := Some w\<rparr>) ?c) = Some c'"
      "lc_core fk c'" "enqueued i Sender ?c c'"
      using register_ok [OF c0 n0 k] by blast
    have "lc_live c'" using True
      by (intro enqueued_live [OF l0 r(3)]) (auto simp: lc_avail_def lc_is_full_def split: channel_capacity.splits)
    moreover have "same_ends c c'" using same_ends_moves(3) [OF r(3)] by simp
    ultimately show ?thesis using r True n
      by (simp add: lc_send_poll_def chan_waiter_poll_def lc_wait_for_room_def enqueued_def)
  next
    case False
    obtain c2 where c2: "remove_from_the_waiting_queue i ?c = Some c2" "unqueued i ?c c2"
      using remove_ok [OF c0] by blast
    note u = unqueued_core [OF c0 c2(2)]
    let ?d = "node_free i c2"
    have l2: "live_but Sender c2" by (rule unqueued_live [OF l0 c2(2) u(3)])
    have n2: "lc_nodes c2 i = Some ?n" using c2(2) by (simp add: unqueued_def)
    then have "i \<notin> woken_set k (lc_nodes c2)" for k by (auto simp: woken_set_def)
    then have l3: "live_but Sender ?d" by (intro free_live [OF l2])
    have v: "lc_channel ?d = lc_channel c" "lc_capacity ?d = lc_capacity c" "lc_is_full ?d = lc_is_full c"
      "lc_waiters Receiver ?d = None \<longleftrightarrow> lc_waiters Receiver c = None"
      using c2(2) is_full_view [of c2 c] by (simp_all add: unqueued_def)
    have "no_waiters Sender ?d" if "lc_waiters Receiver ?d = None"
      using live_butD(3) [OF l3 that] False v by simp
    then obtain r c' where t: "lc_try_send x ?d = Some (r, c')" "lc_core (fk(i := None)) c'" "lc_live c'" "send_done r x ?d c'" "same_ends ?d c'"
      using try_send_ok [OF free_ok [OF u(1,2)] l3, of x] False v live_but_idle [OF l3] by auto
    have "lc_send_poll i x w c = Some (Ready r, c')"
      using n c2(1) waiter_drop_idle [OF n2 n0(2) u(2)] False t(1)
      by (simp add: lc_send_poll_def chan_waiter_poll_def lc_wait_for_room_def)
    moreover have "send_done r x c c'" using t(4) v by (auto simp: send_done_def split: sum.splits)
    moreover have "same_ends c c'"
      using same_ends_moves(2) [OF c2(2)] t(5) by (simp add: same_ends_trans)
    ultimately show ?thesis using t False by simp
  qed
qed

subsection \<open>Cancellation\<close>

lemma free_woken_le:
  assumes "lc_core fk c"
  shows "lc_woken k c \<le> Suc (lc_woken k (node_free i c))"
proof -
  have "woken_set k ((lc_nodes c)(i := None)) = woken_set k (lc_nodes c) - {i}" by (auto simp: woken_set_def)
  moreover have "card A \<le> Suc (card (A - {i}))" if "finite A" for A using that by (cases "i \<in> A") simp_all
  ultimately show ?thesis using core_finite [OF assms, of k] by (simp add: lc_woken_def)
qed

lemma free_any_live:
  assumes c: "lc_core fk c" and l: "lc_live c" and k: "fk i = Some k" and n: "lc_nodes c i = Some n"
  shows "live_but k (node_free i c)" "lc_woken k c \<le> Suc (lc_woken k (node_free i c))"
    "\<And>k'. k' \<noteq> k \<Longrightarrow> lc_woken k' (node_free i c) = lc_woken k' c"
proof -
  show k1: "lc_woken k c \<le> Suc (lc_woken k (node_free i c))" by (rule free_woken_le [OF c])
  show o: "lc_woken k' (node_free i c) = lc_woken k' c" if "k' \<noteq> k" for k'
  proof (rule free_woken)
    show "i \<notin> woken_set k' (lc_nodes c)" using core_node(1) [OF c n] n k that by (auto simp: woken_set_def)
  qed
  have "lc_avail k' (node_free i c) \<le> lc_woken k' (node_free i c) + (if k' = k then 1 else 0)"
    if "lc_waiters k' c = Some q" "q \<noteq> []" for k' q
    using live_side [OF l that] k1 o [of k'] avail_view [of "node_free i c" c k'] by (cases "k' = k") auto
  with l show "live_but k (node_free i c)" by (auto simp: live_but_def lc_live_def no_waiters_def)
qed

lemma pass_on_ok:
  assumes c: "lc_core fk c" and l: "lc_live c" and n: "lc_nodes c i = Some n" "cn_woken n" and k: "fk i = Some k"
  shows "\<exists>w c'. pass_on_wakeup k c = Some (w, c') \<and> lc_core (fk(i := None)) (node_free i (chan_wake w c')) \<and>
     lc_live (node_free i (chan_wake w c')) \<and> lc_channel c' = lc_channel c \<and> same_ends c c'"
proof (cases "k = Sender \<and> \<not> lc_is_full c \<or> k = Receiver \<and> lc_channel c \<noteq> []")
  case True
  obtain w c1 where w: "wake_first k c = Some (w, c1)" "lc_core fk c1" "woke_first k c c1"
    using wake_first_ok [OF c] by blast
  have p: "pass_on_wakeup k c = Some (w, c1)" using True w(1) by (auto simp: pass_on_wakeup_def)
  have nl: "\<not> lc_linked i c" using n by (auto elim: linked_kind [OF c])
  then have i1: "lc_nodes c1 i = Some n" using w(3) n by (metis woke_first_def lc_linked_iff)
  then have nl1: "\<not> lc_linked i c1" using n by (auto elim: linked_kind [OF w(2)])
  let ?d = "node_free i (chan_wake w c1)"
  have "lc_live ?d"
  proof (rule passed_on_live [OF l w(3)])
    have eq: "lc_woken k' ?d = lc_woken k' (node_free i c1)" for k' by (simp add: lc_woken_def)
    show "lc_woken k c1 \<le> Suc (lc_woken k ?d)" using free_woken_le [OF w(2)] by (simp add: eq)
    show "lc_woken k' ?d = lc_woken k' c1" if "k' \<noteq> k" for k'
    proof -
      have "i \<notin> woken_set k' (lc_nodes c1)" using core_node(1) [OF w(2) i1] i1 k that by (auto simp: woken_set_def)
      then show ?thesis using free_woken [of i k' c1] eq by simp
    qed
  qed simp_all
  moreover have "lc_core (fk(i := None)) ?d" using free_ok [of fk "chan_wake w c1" i] w(2) nl1 by (simp add: lc_linked_iff)
  moreover have "lc_channel c1 = lc_channel c" using w(3) by (simp add: woke_first_def)
  ultimately show ?thesis using p same_ends_moves(1) [OF w(3)] by blast
next
  case False
  then have p: "pass_on_wakeup k c = Some (None, c)" by (cases k) (auto simp: pass_on_wakeup_def)
  have nl: "\<not> lc_linked i c" using n by (auto elim: linked_kind [OF c])
  have "lc_avail k (node_free i c) = lc_avail k c" by (rule avail_view) simp_all
  moreover have "lc_avail k c = 0" using False
    by (cases k) (auto simp: lc_avail_def lc_is_full_def split: channel_capacity.splits)
  ultimately have "lc_live (node_free i c)"
    using live_but_idle [OF free_any_live(1) [OF c l k n(1)]] by simp
  with p free_ok [OF c nl] show ?thesis by (simp add: chan_wake_def)
qed

lemma unlinked_free_ok:
  assumes c: "lc_core fk c" and l: "lc_live c" and n: "lc_nodes c i = Some n" "\<not> cn_woken n" and u: "unqueued i c c'"
  shows "lc_core (fk(i := None)) (node_free i c')" "lc_live (node_free i c')" "lc_channel (node_free i c') = lc_channel c"
    "same_ends c c'"
proof -
  note uc = unqueued_core [OF c u]
  have "live_but k c'" for k using unqueued_live [OF live_live_but [OF l] u uc(3)] .
  then have l': "lc_live c'" by (rule live_but_live)
  have "lc_nodes c' i = Some n" using u n by (simp add: unqueued_def)
  note f = freed_ok [OF uc(1) l' this n(2) uc(2)]
  show "lc_core (fk(i := None)) (node_free i c')" "lc_live (node_free i c')" by (rule f)+
  show "lc_channel (node_free i c') = lc_channel c" using u by (simp add: unqueued_def)
  show "same_ends c c'" by (rule same_ends_moves(2) [OF u])
qed

lemma chan_waiter_drop_ok:
  assumes c: "lc_core fk c" and l: "lc_live c" and n: "lc_nodes c i = Some n"
  shows "\<exists>c'. chan_waiter_drop i c = Some c' \<and> lc_core (fk(i := None)) c' \<and> lc_live c' \<and>
     lc_channel c' = lc_channel c \<and> same_ends c c'"
proof -
  obtain k where k: "fk i = Some k" using core_node(3) [OF c n] by blast
  consider (woken) "cn_woken n" | (linked) "\<not> cn_woken n" "lc_linked i c" | (idle) "\<not> cn_woken n" "\<not> lc_linked i c"
    by blast
  then show ?thesis
  proof cases
    case woken
    obtain w c' where p: "pass_on_wakeup k c = Some (w, c')" "lc_core (fk(i := None)) (node_free i (chan_wake w c'))"
      "lc_live (node_free i (chan_wake w c'))" "lc_channel c' = lc_channel c" "same_ends c c'"
      using pass_on_ok [OF c l n woken k] by blast
    have "cn_kind n = Some k" using core_node(2) [OF c n woken] k by simp
    with p woken n show ?thesis by (simp add: chan_waiter_drop_def)
  next
    case linked
    obtain k' n' q where q: "lc_nodes c i = Some n'" "cn_kind n' = Some k'" "lc_waiters k' c = Some q" "i \<in> set q"
      using linked_kind [OF c linked(2)] by blast
    note u = unlinked_free_ok [OF c l n linked(1) unqueued_set [OF c q(3,4)]]
    have "chan_waiter_drop i c = Some (node_free i (set_waiters k' (Some (remove1 i q)) c))"
      using linked n q by (simp add: chan_waiter_drop_def)
    with u show ?thesis by simp
  next
    case idle
    from waiter_drop_idle [OF n idle] unlinked_free_ok [OF c l n idle(1) unqueued_refl [OF idle(2)]]
    show ?thesis by simp
  qed
qed

lemma stream_drop_ok:
  assumes c: "lc_core fk c" and l: "lc_live c" and n: "lc_nodes c i = Some n" and k: "fk i = Some Receiver"
  shows "\<exists>c'. stream_drop i c = Some c' \<and> lc_core (fk(i := None)) c' \<and> lc_live c' \<and>
     lc_channel c' = lc_channel c \<and> same_ends c c'"
proof (cases "cn_woken n")
  case True
  obtain w c' where "pass_on_wakeup Receiver c = Some (w, c')" "lc_core (fk(i := None)) (node_free i (chan_wake w c'))"
    "lc_live (node_free i (chan_wake w c'))" "lc_channel c' = lc_channel c" "same_ends c c'"
    using pass_on_ok [OF c l n True k] by blast
  with n True show ?thesis by (simp add: stream_drop_def)
next
  case False
  obtain c' where r: "remove_from_the_waiting_queue i c = Some c'" "unqueued i c c'" using remove_ok [OF c] by blast
  from unlinked_free_ok [OF c l n False r(2)] r(1) n False show ?thesis by (simp add: stream_drop_def)
qed


subsection \<open>Dropping a half\<close>

lemma wake_up_all_loop_ok:
  assumes "lc_core fk c" "lc_waiters k c = Some q"
  shows "\<exists>c'. wake_up_all_loop k q c = Some c' \<and> lc_core fk c' \<and> lc_waiters k c' = Some [] \<and>
     (\<forall>k'. k' \<noteq> k \<longrightarrow> lc_waiters k' c' = lc_waiters k' c) \<and> lc_channel c' = lc_channel c \<and> lc_capacity c' = lc_capacity c"
  using assms
proof (induction q arbitrary: c)
  case (Cons i "is")
  note c = Cons.prems(1) and q = Cons.prems(2)
  obtain n w where n: "lc_nodes c i = Some n" "cn_kind n = Some k" "\<not> cn_woken n" "cn_waker n = Some w"
    using core_waits [OF c q, of i] by (auto simp: waits_in_def)
  let ?c = "set_waiters k (Some is) c"
  let ?d = "set_waiters k (Some is) (chan_wake (Some w) (node_set i (n\<lparr>cn_waker := None\<rparr>) c))"
  have cc: "lc_core fk ?c"
    using lc_coreD [OF c] q by (intro lc_coreI) (auto split: if_splits dest: lc_coreD(2,3) [OF c])
  have kd: "fk i = Some k" using core_queue_kind [OF c q] by simp
  have nl: "\<not> lc_linked i ?c"
    using core_distinct [OF c q] core_queue_kind [OF c, of _ _ i] kd
    by (auto simp: lc_linked_iff split: if_splits)
  have "lc_core fk (node_set i (n\<lparr>cn_waker := None\<rparr>) ?c)"
    using n kd nl by (intro core_nodes_update [OF cc]) auto
  moreover have "lc_nodes ?d = lc_nodes (node_set i (n\<lparr>cn_waker := None\<rparr>) ?c)"
    "lc_waiters k' ?d = lc_waiters k' (node_set i (n\<lparr>cn_waker := None\<rparr>) ?c)"
    "lcap_ok ?d = lcap_ok (node_set i (n\<lparr>cn_waker := None\<rparr>) ?c)" for k'
    by simp_all
  ultimately have "lc_core fk ?d" unfolding lc_core_def lqueue_ok_def by simp
  from Cons.IH [OF this] obtain c' where "wake_up_all_loop k is ?d = Some c'" "lc_core fk c'" "lc_waiters k c' = Some []"
    "\<forall>k'. k' \<noteq> k \<longrightarrow> lc_waiters k' c' = lc_waiters k' ?d" "lc_channel c' = lc_channel ?d" "lc_capacity c' = lc_capacity ?d"
    by auto
  with n show ?case by simp
qed auto

lemma drop_half_ok:
  assumes c: "lc_core fk c" and k: "\<forall>i. fk i \<noteq> Some k" and o: "k' \<noteq> k"
  shows "\<exists>c'. Option.bind (wake_up_all k' (set_waiters k None c)) lchan_drop = Some c' \<and> lc_core fk c' \<and> lc_live c' \<and>
     lc_channel c' = lc_channel c \<and> lc_capacity c' = lc_capacity c \<and> lc_waiters k c' = None \<and>
     (lc_waiters k' c' = None \<longleftrightarrow> lc_waiters k' c = None)"
proof -
  let ?c = "set_waiters k None c"
  have cc: "lc_core fk ?c"
    using lc_coreD [OF c] k by (intro lc_coreI) (auto split: if_splits)
  obtain c' where c': "wake_up_all k' ?c = Some c'" "lc_core fk c'" "lc_channel c' = lc_channel c"
    "lc_capacity c' = lc_capacity c" "lc_waiters k c' = None" "no_waiters k' c'"
    "lc_waiters k' c' = None \<longleftrightarrow> lc_waiters k' c = None"
  proof (cases "lc_waiters k' c")
    case None
    with cc that [of ?c] o show ?thesis by (simp add: wake_up_all_def no_waiters_def)
  next
    case (Some q)
    with wake_up_all_loop_ok [OF cc, of k' q] that o show ?thesis by (auto simp: wake_up_all_def no_waiters_def)
  qed
  have nw: "no_waiters j c'" for j using c'(5,6) o by (cases j; cases k; cases k') (auto simp: no_waiters_def)
  then have "lc_live c'" by (intro lc_liveI) (auto simp: no_waiters_iff)
  moreover have "lchan_drop c' = Some c'"
    using nw [of Sender] nw [of Receiver] by (simp add: lchan_drop_def waiters_by_kind no_waiters_def)
  ultimately show ?thesis using c' by auto
qed

lemma half_drops:
  "sender_drop c = Option.bind (wake_up_all Receiver (set_waiters Sender None c)) lchan_drop"
  "receiver_drop c = Option.bind (wake_up_all Sender (set_waiters Receiver None c)) lchan_drop"
  by (simp_all add: sender_drop_def receiver_drop_def set_waiters_def)

subsection \<open>The channel and its clients\<close>

text \<open>
  The futures that are alive, and two histories: the items accepted by the channel and the items
  handed out, each in order. A half can be dropped when no future borrows it.
\<close>

datatype 'a lfut = FSend 'a | FRecv | FStream

fun fut_kind :: "'a lfut \<Rightarrow> chan_kind" where
  "fut_kind (FSend _) = Sender"
| "fut_kind FRecv = Receiver"
| "fut_kind FStream = Receiver"

record 'a lsys =
  ls_chan :: "'a lchan"
  ls_futs :: "node_id \<Rightarrow> 'a lfut option"
  ls_sent :: "'a list"
  ls_rcvd :: "'a list"

definition futs_kinds :: "(node_id \<Rightarrow> 'a lfut option) \<Rightarrow> fut_kinds" where
  "futs_kinds f = (\<lambda>i. map_option fut_kind (f i))"

datatype 'a lop = LSend node_id 'a waker | LSendPoll node_id waker | LTrySend 'a | LRecv node_id waker
  | LRecvPoll node_id waker | LStream node_id | LStreamPoll node_id waker | LCancel node_id
  | LDropSender | LDropReceiver

definition after_send :: "node_id \<Rightarrow> 'a \<Rightarrow> ('a glommio_error + unit) poll \<times> 'a lchan \<Rightarrow> 'a lsys \<Rightarrow> 'a lsys" where
  "after_send i x res s = (case res of
       (Pending, c) \<Rightarrow> s\<lparr>ls_chan := c, ls_futs := (ls_futs s)(i \<mapsto> FSend x)\<rparr>
     | (Ready (Inl _), c) \<Rightarrow> s\<lparr>ls_chan := c, ls_futs := (ls_futs s)(i := None)\<rparr>
     | (Ready (Inr _), c) \<Rightarrow> s\<lparr>ls_chan := c, ls_futs := (ls_futs s)(i := None), ls_sent := ls_sent s @ [x]\<rparr>)"

definition rcvd_upd :: "'a option \<Rightarrow> 'a list \<Rightarrow> 'a list" where
  "rcvd_upd r xs = (case r of None \<Rightarrow> xs | Some x \<Rightarrow> xs @ [x])"

definition after_recv :: "node_id \<Rightarrow> 'a option poll \<times> 'a lchan \<Rightarrow> 'a lsys \<Rightarrow> 'a lsys" where
  "after_recv i res s = (case res of
       (Pending, c) \<Rightarrow> s\<lparr>ls_chan := c, ls_futs := (ls_futs s)(i \<mapsto> FRecv)\<rparr>
     | (Ready r, c) \<Rightarrow> s\<lparr>ls_chan := c, ls_futs := (ls_futs s)(i := None), ls_rcvd := rcvd_upd r (ls_rcvd s)\<rparr>)"

definition after_next :: "'a option poll \<times> 'a lchan \<Rightarrow> 'a lsys \<Rightarrow> 'a lsys" where
  "after_next res s = (case res of
       (Pending, c) \<Rightarrow> s\<lparr>ls_chan := c\<rparr>
     | (Ready r, c) \<Rightarrow> s\<lparr>ls_chan := c, ls_rcvd := rcvd_upd r (ls_rcvd s)\<rparr>)"

fun lexec :: "'a lop \<Rightarrow> 'a lsys \<Rightarrow> 'a lsys option" where
  "lexec (LSend i x w) s =
     map_option (\<lambda>r. after_send i x r s) (lc_send_poll i x w (chan_node_new i (ls_chan s)))"
| "lexec (LSendPoll i w) s =
     (case ls_futs s i of Some (FSend x) \<Rightarrow> map_option (\<lambda>r. after_send i x r s) (lc_send_poll i x w (ls_chan s)) | _ \<Rightarrow> None)"
| "lexec (LTrySend x) s =
     map_option (\<lambda>(r, c). s\<lparr>ls_chan := c, ls_sent := (case r of Inl _ \<Rightarrow> ls_sent s | Inr _ \<Rightarrow> ls_sent s @ [x])\<rparr>)
       (lc_try_send x (ls_chan s))"
| "lexec (LRecv i w) s = map_option (\<lambda>r. after_recv i r s) (lc_recv_poll i w (chan_node_new i (ls_chan s)))"
| "lexec (LRecvPoll i w) s = map_option (\<lambda>r. after_recv i r s) (lc_recv_poll i w (ls_chan s))"
| "lexec (LStream i) s = Some (s\<lparr>ls_chan := chan_node_new i (ls_chan s), ls_futs := (ls_futs s)(i \<mapsto> FStream)\<rparr>)"
| "lexec (LStreamPoll i w) s = map_option (\<lambda>r. after_next r s) (stream_poll_next i w (ls_chan s))"
| "lexec (LCancel i) s =
     map_option (\<lambda>c. s\<lparr>ls_chan := c, ls_futs := (ls_futs s)(i := None)\<rparr>)
       (if ls_futs s i = Some FStream then stream_drop i (ls_chan s) else chan_waiter_drop i (ls_chan s))"
| "lexec LDropSender s = map_option (\<lambda>c. s\<lparr>ls_chan := c\<rparr>) (sender_drop (ls_chan s))"
| "lexec LDropReceiver s = map_option (\<lambda>c. s\<lparr>ls_chan := c\<rparr>) (receiver_drop (ls_chan s))"

fun lenabled :: "'a lop \<Rightarrow> 'a lsys \<Rightarrow> bool" where
  "lenabled (LSend i x w) s = (ls_futs s i = None \<and> lc_send_waiters (ls_chan s) \<noteq> None)"
| "lenabled (LSendPoll i w) s = (\<exists>x. ls_futs s i = Some (FSend x))"
| "lenabled (LTrySend x) s = (lc_send_waiters (ls_chan s) \<noteq> None)"
| "lenabled (LRecv i w) s = (ls_futs s i = None \<and> lc_recv_waiters (ls_chan s) \<noteq> None)"
| "lenabled (LRecvPoll i w) s = (ls_futs s i = Some FRecv)"
| "lenabled (LStream i) s = (ls_futs s i = None \<and> lc_recv_waiters (ls_chan s) \<noteq> None)"
| "lenabled (LStreamPoll i w) s = (ls_futs s i = Some FStream)"
| "lenabled (LCancel i) s = (ls_futs s i \<noteq> None)"
| "lenabled LDropSender s = (lc_send_waiters (ls_chan s) \<noteq> None \<and> (\<forall>i. futs_kinds (ls_futs s) i \<noteq> Some Sender))"
| "lenabled LDropReceiver s = (lc_recv_waiters (ls_chan s) \<noteq> None \<and> (\<forall>i. futs_kinds (ls_futs s) i \<noteq> Some Receiver))"

inductive lstep :: "'a lsys \<Rightarrow> 'a lsys \<Rightarrow> bool" where
  lstepI: "lenabled op s \<Longrightarrow> lexec op s = Some t \<Longrightarrow> lstep s t"

inductive_cases lstepE: "lstep s t"

definition lstart :: "channel_capacity \<Rightarrow> 'a lsys" where
  "lstart cap = \<lparr>ls_chan = lchan_new cap, ls_futs = (\<lambda>_. None), ls_sent = [], ls_rcvd = []\<rparr>"

definition linit :: "'a lsys \<Rightarrow> bool" where
  "linit s \<longleftrightarrow> (\<exists>cap. s = lstart cap)"

definition linv :: "'a lsys \<Rightarrow> bool" where
  "linv s \<longleftrightarrow> lc_core (futs_kinds (ls_futs s)) (ls_chan s) \<and> lc_live (ls_chan s) \<and>
     ls_sent s = ls_rcvd s @ lc_channel (ls_chan s)"


lemma futs_kinds_upd [simp]:
  "futs_kinds (f(i := None)) = (futs_kinds f)(i := None)"
  "futs_kinds (f(i \<mapsto> x)) = (futs_kinds f)(i \<mapsto> fut_kind x)"
  "futs_kinds f i = None \<longleftrightarrow> f i = None"
  by (auto simp: futs_kinds_def fun_eq_iff)

lemma node_new_ok:
  assumes c: "lc_core fk c" and l: "lc_live c" and i: "fk i = None" and k: "lc_waiters k c \<noteq> None"
  shows "lc_core (fk(i \<mapsto> k)) (chan_node_new i c)" "lc_live (chan_node_new i c)"
    "lc_channel (chan_node_new i c) = lc_channel c" "\<exists>n. lc_nodes (chan_node_new i c) i = Some n"
    "same_ends c (chan_node_new i c)" "lc_is_full (chan_node_new i c) = lc_is_full c"
proof -
  have nd: "lc_nodes c i = None" using lc_coreD(1) [OF c] i by (auto simp: nodes_ok_def)
  show "lc_core (fk(i \<mapsto> k)) (chan_node_new i c)"
  proof (rule lc_coreI)
    show "nodes_ok (fk(i \<mapsto> k)) (lc_nodes (chan_node_new i c))"
      using lc_coreD(1) [OF c] by (auto simp: nodes_ok_def chan_node_new_def)
    show "waits_in k' (lc_nodes (chan_node_new i c)) j" if "lc_waiters k' (chan_node_new i c) = Some q" "j \<in> set q" for k' q j
      using lc_coreD(3) [OF c, of k' q j] that nd by (auto simp: waits_in_def chan_node_new_def)
    show "(fk(i \<mapsto> k)) j \<noteq> Some k'" if "lc_waiters k' (chan_node_new i c) = None" for k' j
      using lc_coreD(5) [OF c, of k' j] that k by (auto simp: chan_node_new_def)
  qed (use lc_coreD(2,4) [OF c] in \<open>auto simp: chan_node_new_def\<close>)
  have "woken_set k (lc_nodes (chan_node_new i c)) = woken_set k (lc_nodes c)" for k
    using nd by (auto simp: woken_set_def chan_node_new_def)
  moreover have "lc_avail k (chan_node_new i c) = lc_avail k c" for k by (rule avail_view) (simp_all add: chan_node_new_def)
  ultimately show "lc_live (chan_node_new i c)"
    using l by (simp add: lc_live_def lc_live_side_def lc_woken_def no_waiters_def chan_node_new_def)
qed (simp_all add: chan_node_new_def)

lemma linv_parts:
  assumes "linv s"
  shows "lc_core (futs_kinds (ls_futs s)) (ls_chan s)" "lc_live (ls_chan s)"
    "ls_sent s = ls_rcvd s @ lc_channel (ls_chan s)"
  using assms by (simp_all add: linv_def)

lemma fut_node:
  assumes "linv s" "ls_futs s i = Some f"
  obtains n where "lc_nodes (ls_chan s) i = Some n" "futs_kinds (ls_futs s) i = Some (fut_kind f)"
proof -
  have "dom (lc_nodes (ls_chan s)) = dom (futs_kinds (ls_futs s))"
    using lc_coreD(1) [OF linv_parts(1) [OF assms(1)]] by (simp add: nodes_ok_def)
  moreover have "futs_kinds (ls_futs s) i = Some (fut_kind f)" using assms(2) by (simp add: futs_kinds_def)
  ultimately show thesis using that by blast
qed

text \<open>A poll of a send or a receive, from a channel \<open>c\<close> in which the future's node is \<open>i\<close>.\<close>

lemma send_step:
  assumes c: "lc_core ((futs_kinds (ls_futs s))(i \<mapsto> Sender)) c" and l: "lc_live c" and n: "lc_nodes c i = Some n"
    and h: "ls_sent s = ls_rcvd s @ lc_channel c"
  shows "\<exists>r. lc_send_poll i x w c = Some r \<and> linv (after_send i x r s)"
proof -
  have upd: "(futs_kinds (ls_futs s))(i \<mapsto> Sender, i := None) = (futs_kinds (ls_futs s))(i := None)" by simp
  obtain p c' where p: "lc_send_poll i x w c = Some (p, c')" "lc_live c'" "case p of
     Pending \<Rightarrow> lc_core ((futs_kinds (ls_futs s))(i \<mapsto> Sender)) c' \<and> lc_channel c' = lc_channel c \<and> lc_is_full c
   | Ready r \<Rightarrow> lc_core ((futs_kinds (ls_futs s))(i := None)) c' \<and> send_done r x c c' \<and> \<not> lc_is_full c"
    using send_poll_ok [OF c l n, of x w] by (simp only: upd fun_upd_same simp_thms) blast
  then show ?thesis using h
    by (cases p) (auto simp: after_send_def linv_def send_done_def split: sum.splits)
qed

lemma recv_step:
  assumes c: "lc_core ((futs_kinds (ls_futs s))(i \<mapsto> Receiver)) c" and l: "lc_live c" and n: "lc_nodes c i = Some n"
    and h: "ls_sent s = ls_rcvd s @ lc_channel c"
  shows "\<exists>r. lc_recv_poll i w c = Some r \<and> linv (after_recv i r s)"
proof -
  have upd: "(futs_kinds (ls_futs s))(i \<mapsto> Receiver, i := None) = (futs_kinds (ls_futs s))(i := None)" by simp
  obtain p c' where p: "lc_recv_poll i w c = Some (p, c')" "lc_live c'" "case p of
     Pending \<Rightarrow> lc_core ((futs_kinds (ls_futs s))(i \<mapsto> Receiver)) c' \<and> lc_channel c' = lc_channel c
   | Ready r \<Rightarrow> lc_core ((futs_kinds (ls_futs s))(i := None)) c' \<and> recv_done r c c'"
    using recv_poll_ok [OF c l n, of w] by (simp only: upd fun_upd_same simp_thms) blast
  then show ?thesis using h
    by (cases p) (auto simp: after_recv_def rcvd_upd_def linv_def recv_done_def split: option.splits)
qed

lemma next_step:
  assumes inv: "linv s" and f: "ls_futs s i = Some FStream"
  shows "\<exists>r. stream_poll_next i w (ls_chan s) = Some r \<and> linv (after_next r s)"
proof -
  obtain n where n: "lc_nodes (ls_chan s) i = Some n" "futs_kinds (ls_futs s) i = Some Receiver"
    using fut_node [OF inv f] by auto
  obtain p c' where p: "stream_poll_next i w (ls_chan s) = Some (p, c')" "lc_live c'" "lc_core (futs_kinds (ls_futs s)) c'"
    "case p of Pending \<Rightarrow> lc_channel c' = lc_channel (ls_chan s) | Ready r \<Rightarrow> recv_done r (ls_chan s) c'"
    using stream_poll_ok [OF linv_parts(1,2) [OF inv] n] by blast
  then show ?thesis using linv_parts(3) [OF inv]
    by (cases p) (auto simp: after_next_def rcvd_upd_def linv_def recv_done_def split: option.splits)
qed

lemma cancel_step:
  assumes inv: "linv s" and f: "ls_futs s i = Some f"
  shows "\<exists>c. (if f = FStream then stream_drop i (ls_chan s) else chan_waiter_drop i (ls_chan s)) = Some c \<and>
     linv (s\<lparr>ls_chan := c, ls_futs := (ls_futs s)(i := None)\<rparr>) \<and> lc_channel c = lc_channel (ls_chan s) \<and> same_ends (ls_chan s) c"
proof -
  note parts = linv_parts [OF inv]
  obtain n where n: "lc_nodes (ls_chan s) i = Some n" "futs_kinds (ls_futs s) i = Some (fut_kind f)"
    by (rule fut_node [OF inv f])
  show ?thesis
    using chan_waiter_drop_ok [OF parts(1,2) n(1)] stream_drop_ok [OF parts(1,2) n(1)] n(2) parts(3)
    by (cases f) (auto simp: linv_def)
qed

lemma lexec_inv:
  assumes inv: "linv s" and en: "lenabled op s"
  shows "\<exists>t. lexec op s = Some t \<and> linv t"
proof -
  note parts = linv_parts [OF inv]
  have upd: "(futs_kinds (ls_futs s))(i \<mapsto> fut_kind f) = futs_kinds (ls_futs s)" if "ls_futs s i = Some f" for i f
    using that by (auto simp: futs_kinds_def fun_eq_iff)
  show ?thesis
  proof (cases op)
    case (LSend i x w)
    then have "futs_kinds (ls_futs s) i = None" "lc_waiters Sender (ls_chan s) \<noteq> None" using en by (simp_all add: waiters_by_kind)
    note new = node_new_ok [OF parts(1,2) this]
    then obtain n where "lc_nodes (chan_node_new i (ls_chan s)) i = Some n" by blast
    from send_step [OF new(1,2) this] new(3) parts(3) LSend show ?thesis by fastforce
  next
    case (LRecv i w)
    then have "futs_kinds (ls_futs s) i = None" "lc_waiters Receiver (ls_chan s) \<noteq> None" using en by (simp_all add: waiters_by_kind)
    note new = node_new_ok [OF parts(1,2) this]
    then obtain n where "lc_nodes (chan_node_new i (ls_chan s)) i = Some n" by blast
    from recv_step [OF new(1,2) this] new(3) parts(3) LRecv show ?thesis by fastforce
  next
    case (LSendPoll i w)
    then obtain x where f: "ls_futs s i = Some (FSend x)" using en by auto
    obtain n where n: "lc_nodes (ls_chan s) i = Some n" by (rule fut_node [OF inv f])
    from send_step [of s i, OF _ parts(2) n parts(3)] upd [OF f] parts(1) f LSendPoll show ?thesis by fastforce
  next
    case (LRecvPoll i w)
    then have f: "ls_futs s i = Some FRecv" using en by simp
    obtain n where n: "lc_nodes (ls_chan s) i = Some n" by (rule fut_node [OF inv f])
    from recv_step [of s i, OF _ parts(2) n parts(3)] upd [OF f] parts(1) f LRecvPoll show ?thesis by fastforce
  next
    case (LStream i)
    then have "futs_kinds (ls_futs s) i = None" "lc_waiters Receiver (ls_chan s) \<noteq> None" using en by (simp_all add: waiters_by_kind)
    from node_new_ok [OF parts(1,2) this] parts(3) LStream show ?thesis by (simp add: linv_def)
  next
    case (LStreamPoll i w)
    with next_step [OF inv, of i w] en show ?thesis by auto
  next
    case (LTrySend x)
    obtain r c where "lc_try_send x (ls_chan s) = Some (r, c)" "lc_core (futs_kinds (ls_futs s)) c" "lc_live c"
      "send_done r x (ls_chan s) c"
      using try_send_ok [OF parts(1) live_live_but [OF parts(2)], of x] parts(2) by blast
    then show ?thesis using LTrySend parts(3) by (cases r) (simp_all add: linv_def send_done_def)
  next
    case (LCancel i)
    with en obtain f where f: "ls_futs s i = Some f" by auto
    from cancel_step [OF inv f] f LCancel show ?thesis by auto
  next
    case LDropSender
    with drop_half_ok [OF parts(1), of Sender Receiver] en parts(3) show ?thesis
      by (auto simp: half_drops linv_def)
  next
    case LDropReceiver
    with drop_half_ok [OF parts(1), of Receiver Sender] en parts(3) show ?thesis
      by (auto simp: half_drops linv_def)
  qed
qed

lemma linit_inv: "linit s \<Longrightarrow> linv s"
  by (auto simp: linit_def linv_def lstart_def lchan_new_def futs_kinds_def lc_core_def nodes_ok_def lqueue_ok_def
      lcap_ok_def lc_live_def lc_live_side_def no_waiters_def lc_waiters_def dom_def
      split: channel_capacity.splits chan_kind.splits)

interpretation lch: transition_inv linit lstep linv
proof unfold_locales
  show "linv s" if "linit s" for s :: "'a lsys" using that by (rule linit_inv)
  show "linv t" if "linv s" "lstep s t" for s t :: "'a lsys"
    using that(2) lexec_inv [OF that(1)] by (fastforce elim: lstepE)
qed


subsection \<open>Concrete runs\<close>

fun lrun :: "'a lop list \<Rightarrow> 'a lsys \<Rightarrow> 'a lsys option" where
  "lrun [] s = Some s"
| "lrun (op # ops) s = (if lenabled op s then Option.bind (lexec op s) (lrun ops) else None)"

lemma lrun_reachable: "lrun ops s = Some t \<Longrightarrow> reachable linit lstep s \<Longrightarrow> reachable linit lstep t"
proof (induction ops arbitrary: s)
  case (Cons op ops)
  then show ?case by (auto split: if_splits bind_splits intro: lstepI)
qed simp

lemma lstart_reachable: "reachable linit lstep (lstart cap)"
  by (rule reachable_init) (auto simp: linit_def)

lemmas lc_eval = lstart_def lchan_new_def chan_node_new_def node_set_def node_free_def chan_wake_def
  lc_waiters_def set_waiters_def lc_linked_def wake_first_def wake_up_all_def lc_is_full_def lc_push_def
  pass_on_wakeup_def lc_wait_for_room_def state_recv_one_def register_into_waiting_queue_def
  remove_from_the_waiting_queue_def chan_waiter_poll_def chan_waiter_drop_def lc_try_send_def lc_send_poll_def
  lchan_drop_def sender_drop_def receiver_drop_def lc_recv_one_def lc_recv_poll_def stream_poll_next_def
  stream_drop_def after_send_def after_recv_def after_next_def rcvd_upd_def futs_kinds_def

subsection \<open>A sender that waits for room when the receiver goes away\<close>

definition closed_and_full :: "'a lsys \<Rightarrow> bool" where
  "closed_and_full s \<longleftrightarrow> lc_recv_waiters (ls_chan s) = None \<and> lc_is_full (ls_chan s)"

lemma full_same: "same_ends c c' \<Longrightarrow> lc_channel c' = lc_channel c \<Longrightarrow> lc_is_full c' = lc_is_full c"
  by (rule is_full_view) (simp_all add: same_ends_def)

lemma send_poll_closed_full:
  assumes c: "lc_core fk c" "lc_live c" "lc_nodes c i = Some n" "fk i = Some Sender" and f: "lc_is_full c"
  shows "\<exists>c'. lc_send_poll i x w c = Some (Pending, c') \<and> same_ends c c' \<and> lc_is_full c'"
proof -
  obtain p c' where p: "lc_send_poll i x w c = Some (p, c')" "same_ends c c'" "case p of
     Pending \<Rightarrow> lc_core fk c' \<and> lc_channel c' = lc_channel c \<and> lc_is_full c
   | Ready r \<Rightarrow> lc_core (fk(i := None)) c' \<and> send_done r x c c' \<and> \<not> lc_is_full c"
    using send_poll_ok [OF c] by blast
  with f have "p = Pending" "lc_channel c' = lc_channel c" by (cases p; simp)+
  with p full_same [of c c'] f show ?thesis by auto
qed

lemma closed_and_full_step:
  assumes inv: "linv s" and cf: "closed_and_full s" and st: "lstep s t"
  shows "closed_and_full t"
proof -
  note parts = linv_parts [OF inv]
  have nr: "lc_waiters Receiver (ls_chan s) = None" and fl: "lc_is_full (ls_chan s)"
    using cf by (simp_all add: closed_and_full_def waiters_by_kind)
  have no_recv: "futs_kinds (ls_futs s) i \<noteq> Some Receiver" for i by (rule lc_coreD(5) [OF parts(1) nr])
  have keep: "closed_and_full u" if "same_ends (ls_chan s) (ls_chan u)" "lc_is_full (ls_chan u)" for u :: "'a lsys"
    using that nr by (simp add: closed_and_full_def same_ends_def waiters_by_kind)
  from st obtain op where en: "lenabled op s" and ex: "lexec op s = Some t" by (rule lstepE)
  show ?thesis
  proof (cases op)
    case (LSend i x w)
    then have new: "futs_kinds (ls_futs s) i = None" "lc_waiters Sender (ls_chan s) \<noteq> None" using en by (simp_all add: waiters_by_kind)
    note nn = node_new_ok [OF parts(1,2) new]
    then obtain n where "lc_nodes (chan_node_new i (ls_chan s)) i = Some n" by blast
    from send_poll_closed_full [OF nn(1,2) this, of x w] nn(5,6) fl ex LSend show ?thesis
      by (auto simp: after_send_def intro!: keep intro: same_ends_trans [OF nn(5)])
  next
    case (LSendPoll i w)
    then obtain x where f: "ls_futs s i = Some (FSend x)" using en by auto
    obtain n where n: "lc_nodes (ls_chan s) i = Some n" "futs_kinds (ls_futs s) i = Some Sender"
      using fut_node [OF inv f] by auto
    from send_poll_closed_full [OF parts(1,2) n, of x w] fl ex f LSendPoll show ?thesis
      by (auto simp: after_send_def intro: keep)
  next
    case (LTrySend x)
    with ex nr fl show ?thesis
      by (auto simp: lc_try_send_def lc_push_def waiters_by_kind intro: keep)
  next
    case (LCancel i)
    with en obtain f where f: "ls_futs s i = Some f" by auto
    obtain c where c: "(if f = FStream then stream_drop i (ls_chan s) else chan_waiter_drop i (ls_chan s)) = Some c"
      "lc_channel c = lc_channel (ls_chan s)" "same_ends (ls_chan s) c"
      using cancel_step [OF inv f] by blast
    have t: "ls_chan t = c" using c(1) ex LCancel f by (cases "f = FStream") auto
    show ?thesis
    proof (rule keep)
      show "same_ends (ls_chan s) (ls_chan t)" using c(3) t by simp
      show "lc_is_full (ls_chan t)" using full_same [OF c(3,2)] fl t by simp
    qed
  next
    case LDropSender
    obtain c where c: "sender_drop (ls_chan s) = Some c" "lc_channel c = lc_channel (ls_chan s)"
      "lc_capacity c = lc_capacity (ls_chan s)" "lc_waiters Receiver c = None"
      using drop_half_ok [OF parts(1), of Sender Receiver] en nr LDropSender by (auto simp: half_drops)
    have t: "ls_chan t = c" using c(1) ex LDropSender by auto
    show ?thesis using c(4) is_full_view [OF c(3,2)] fl t by (simp add: closed_and_full_def waiters_by_kind)
  next
    case (LRecvPoll i w)
    with en no_recv [of i] show ?thesis by (simp add: futs_kinds_def)
  next
    case (LStreamPoll i w)
    with en no_recv [of i] show ?thesis by (simp add: futs_kinds_def)
  qed (use en nr in \<open>simp_all add: waiters_by_kind\<close>)
qed

lemma closed_and_full_steps:
  assumes "lstep\<^sup>*\<^sup>* s t" "linv s" "closed_and_full s"
  shows "closed_and_full t \<and> linv t"
  using assms
  by (induction rule: rtranclp_induct) (auto intro: closed_and_full_step lch.step_inv)

subsection \<open>Properties\<close>

text \<open>
  Claim C9. The channel is a bounded FIFO queue: in every reachable state, whatever sends,
  receives, streams, cancellations and drops have happened, the items accepted are the items
  handed out followed by the items still queued, in order, and no more items are queued than the
  capacity allows.
\<close>

theorem lc_fifo:
  assumes "reachable linit lstep s"
  shows "ls_sent s = ls_rcvd s @ lc_channel (ls_chan s) \<and>
     (\<forall>n. lc_capacity (ls_chan s) \<noteq> Bounded n \<or> length (lc_channel (ls_chan s)) \<le> unat n)"
  using linv_parts(1,3) [OF lch.reachable_inv [OF assms]] lc_coreD(4)
  by (fastforce simp: lcap_ok_def)

theorem lc_fifo_witness:
  "\<exists>s. lrun [LTrySend 1, LSend 0 2 10, LRecv 1 11, LSendPoll 0 10] (lstart (Bounded 1)) = Some s \<and>
     ls_sent s = [1, 2::nat] \<and> ls_rcvd s = [1] \<and> lc_channel (ls_chan s) = [2]"
proof -
  obtain s where s: "lrun [LTrySend 1, LSend 0 2 10, LRecv 1 11, LSendPoll 0 10] (lstart (Bounded 1)) = Some s"
    and h: "ls_sent s = [1, 2::nat]" "ls_rcvd s = [1]"
    by (simp add: lc_eval)
  with lc_fifo [OF lrun_reachable [OF s lstart_reachable]] show ?thesis by simp
qed

text \<open>
  No call on a channel panics: in every reachable state every call that the types
  allow returns and keeps the invariant, the assertions made when a half is dropped included.
\<close>

lemma lc_no_panic:
  assumes "reachable linit lstep s" and "lenabled op s"
  shows "\<exists>t. lexec op s = Some t \<and> linv t"
  by (rule lexec_inv [OF lch.reachable_inv [OF assms(1)] assms(2)])

text \<open>
  Claim C8. No wake-up is lost: in every reachable state, while receivers wait there are at
  least as many woken receivers on their way as items queued, and while senders wait at least as
  many woken senders as free places; when the sender is gone no receiver waits.
\<close>

theorem lc_no_lost_wakeup:
  assumes "reachable linit lstep s"
  shows "(no_waiters Receiver (ls_chan s) \<or> length (lc_channel (ls_chan s)) \<le> lc_woken Receiver (ls_chan s)) \<and>
     (no_waiters Sender (ls_chan s) \<or> lc_avail Sender (ls_chan s) \<le> lc_woken Sender (ls_chan s)) \<and>
     (lc_send_waiters (ls_chan s) \<noteq> None \<or> no_waiters Receiver (ls_chan s))"
proof -
  have l: "lc_live (ls_chan s)" by (rule linv_parts(2) [OF lch.reachable_inv [OF assms]])
  then have "no_waiters k (ls_chan s) \<or> lc_avail k (ls_chan s) \<le> lc_woken k (ls_chan s)" for k
    using live_side [OF l, of k] by (auto simp: no_waiters_iff)
  from this [of Receiver] this [of Sender] l show ?thesis
    by (auto simp: lc_avail_def lc_live_def waiters_by_kind)
qed

theorem lc_no_lost_wakeup_witness:
  "\<exists>s. lrun [LRecv 0 10, LRecv 1 11, LTrySend 5, LCancel 0] (lstart Unbounded) = Some (s :: nat lsys) \<and>
     lc_wakes (ls_chan s) = [10, 11] \<and> (no_waiters Receiver (ls_chan s) \<or> 1 \<le> lc_woken Receiver (ls_chan s))"
proof -
  obtain s :: "nat lsys" where s: "lrun [LRecv 0 10, LRecv 1 11, LTrySend 5, LCancel 0] (lstart Unbounded) = Some s"
    and "lc_wakes (ls_chan s) = [10, 11]" "lc_channel (ls_chan s) = [5]"
    by (simp add: lc_eval)
  with lc_no_lost_wakeup [OF lrun_reachable [OF s lstart_reachable]] show ?thesis by simp
qed

text \<open>
  A sender that waits for room when the receiver is dropped waits forever: once the
  receiver of a full channel is gone, every later poll of a pending \<^verbatim>\<open>send\<close> is pending again,
  although \<^verbatim>\<open>try_send\<close> would report the channel as closed.
\<close>

lemma lc_send_hangs:
  assumes "reachable linit lstep s" and "closed_and_full s" and "lstep\<^sup>*\<^sup>* s t" and "ls_futs t i = Some (FSend x)"
  shows "\<exists>c. lc_send_poll i x w (ls_chan t) = Some (Pending, c) \<and>
     lc_try_send x (ls_chan t) = Some (Inl (Closed (ResChannel x)), ls_chan t)"
proof -
  have t: "closed_and_full t" "linv t"
    using closed_and_full_steps [OF assms(3) lch.reachable_inv [OF assms(1)] assms(2)] by auto
  obtain n where n: "lc_nodes (ls_chan t) i = Some n" "futs_kinds (ls_futs t) i = Some Sender"
    using fut_node [OF t(2) assms(4)] by auto
  from send_poll_closed_full [OF linv_parts(1,2) [OF t(2)] n] t(1) show ?thesis
    by (auto simp: closed_and_full_def lc_try_send_def lc_push_def)
qed

end
