(* ===== verification/SpscQueue.thy ===== *)
theory SpscQueue
  imports Errors
begin

section \<open>The single-producer single-consumer ring (glommio/src/channels/spsc\_queue.rs)\<close>

text \<open>
  The ring buffer behind the shared channels. The counters \<^verbatim>\<open>head\<close>, \<^verbatim>\<open>tail\<close> and \<^verbatim>\<open>limit\<close> are
  64-bit words that wrap around; a slot is a possibly uninitialised value and its
  \<^verbatim>\<open>has_value\<close> flag. Both threads' routines are modelled twice: as whole functions, and as
  sequences of atomic steps, one per access to memory that the other thread also accesses, so that
  their interleavings can be studied. Atomic accesses are sequentially consistent here; the
  weaker orderings of the source are not modelled. Reading an uninitialised value and indexing
  outside the buffer are \<open>None\<close>.
\<close>

unbundle bit_operations_syntax

subsection \<open>State\<close>

record 'a ring_slot =
  sl_value :: "'a option"
  sl_has_value :: bool

record 'a spsc =
  sp_slots :: "'a ring_slot list"
  sp_capacity :: usize
  sp_mask :: usize
  sp_lookahead :: usize
  sp_tail :: usize
  sp_limit :: usize
  sp_consumer_id :: usize
  sp_head :: usize
  sp_producer_id :: usize

definition disconnected_id :: usize where
  "disconnected_id = - 1"

text \<open>\<^verbatim>\<open>usize::next_power_of_two\<close>; the result wraps to 0 when it does not fit.\<close>

primrec pow2_from :: "nat \<Rightarrow> usize \<Rightarrow> usize \<Rightarrow> usize" where
  "pow2_from 0 p n = p"
| "pow2_from (Suc f) p n = (if n \<le> p then p else pow2_from f (2 * p) n)"

definition next_power_of_two :: "usize \<Rightarrow> usize" where
  "next_power_of_two n = pow2_from 64 1 n"

definition allocate_buffer :: "usize \<Rightarrow> 'a ring_slot list" where
  "allocate_buffer cap = replicate (unat cap) \<lparr>sl_value = None, sl_has_value = False\<rparr>"

definition max_lookahead :: usize where
  "max_lookahead = push_bit 12 1"

definition inner_make :: "usize \<Rightarrow> usize \<Rightarrow> 'a spsc" where
  "inner_make capacity initial =
     (let cap = next_power_of_two capacity
      in \<lparr>sp_slots = allocate_buffer cap, sp_capacity = cap, sp_mask = cap - 1,
          sp_lookahead = max 1 (min (cap div 4) max_lookahead),
          sp_tail = initial, sp_limit = initial, sp_consumer_id = 0, sp_head = initial, sp_producer_id = 0\<rparr>)"

definition spsc_make :: "usize \<Rightarrow> 'a spsc" where
  "spsc_make capacity = inner_make capacity 0"

subsection \<open>Buffer\<close>

definition ring_index :: "'a spsc \<Rightarrow> usize \<Rightarrow> nat" where
  "ring_index b w = unat (w AND sp_mask b)"

definition slot_at :: "'a spsc \<Rightarrow> usize \<Rightarrow> 'a ring_slot option" where
  "slot_at b w = (if ring_index b w < length (sp_slots b) then Some (sp_slots b ! ring_index b w) else None)"

definition slot_upd :: "usize \<Rightarrow> ('a ring_slot \<Rightarrow> 'a ring_slot) \<Rightarrow> 'a spsc \<Rightarrow> 'a spsc" where
  "slot_upd w f b = b\<lparr>sp_slots := (sp_slots b)[ring_index b w := f (sp_slots b ! ring_index b w)]\<rparr>"

definition buf_disconnect_consumer :: "'a spsc \<Rightarrow> bool \<times> 'a spsc" where
  "buf_disconnect_consumer b = (sp_consumer_id b = disconnected_id, b\<lparr>sp_consumer_id := disconnected_id\<rparr>)"

definition buf_disconnect_producer :: "'a spsc \<Rightarrow> bool \<times> 'a spsc" where
  "buf_disconnect_producer b = (sp_producer_id b = disconnected_id, b\<lparr>sp_producer_id := disconnected_id\<rparr>)"

definition producer_disconnected :: "'a spsc \<Rightarrow> bool" where
  "producer_disconnected b \<longleftrightarrow> sp_producer_id b = disconnected_id"

definition consumer_disconnected :: "'a spsc \<Rightarrow> bool" where
  "consumer_disconnected b \<longleftrightarrow> sp_consumer_id b = disconnected_id"

definition try_pop :: "'a spsc \<Rightarrow> ('a option \<times> 'a spsc) option" where
  "try_pop b =
     (let head = sp_head b
      in case slot_at b head of
           None \<Rightarrow> None
         | Some sl \<Rightarrow>
             (if \<not> sl_has_value sl then Some (None, b)
              else case sl_value sl of
                     None \<Rightarrow> None
                   | Some v \<Rightarrow> Some (Some v,
                       (slot_upd head (\<lambda>sl. sl\<lparr>sl_has_value := False\<rparr>) b)\<lparr>sp_head := head + 1\<rparr>)))"

text \<open>The value that could not be pushed is handed back; \<open>None\<close> inside means it was pushed.\<close>

definition try_push :: "'a \<Rightarrow> 'a spsc \<Rightarrow> ('a option \<times> 'a spsc) option" where
  "try_push v b =
     (if consumer_disconnected b then Some (Some v, b)
      else
        let tail = sp_tail b;
            push = (\<lambda>b. case slot_at b tail of
                None \<Rightarrow> None
              | Some _ \<Rightarrow> Some (None :: 'a option,
                  (slot_upd tail (\<lambda>sl. sl\<lparr>sl_value := Some v, sl_has_value := True\<rparr>) b)\<lparr>sp_tail := tail + 1\<rparr>))
        in if tail = sp_limit b then
             (let idx = tail + sp_lookahead b
              in case slot_at b idx of
                   None \<Rightarrow> None
                 | Some sl \<Rightarrow>
                     (if \<not> sl_has_value sl then push (b\<lparr>sp_limit := idx\<rparr>)
                      else case slot_at b tail of
                             None \<Rightarrow> None
                           | Some sl' \<Rightarrow>
                               (if sl_has_value sl' then Some (Some v, b)
                                else push (b\<lparr>sp_limit := tail + 1\<rparr>))))
           else push b)"

definition saturating_sub :: "usize \<Rightarrow> usize \<Rightarrow> usize" where
  "saturating_sub x y = (if y \<le> x then x - y else 0)"

definition buf_size :: "'a spsc \<Rightarrow> usize" where
  "buf_size b = min (sp_capacity b) (saturating_sub (sp_tail b) (sp_head b))"

text \<open>\<^verbatim>\<open>Drop for Buffer\<close> pops until nothing is left; the number of slots bounds the loop.\<close>

fun pop_all :: "('s \<Rightarrow> ('a option \<times> 's) option) \<Rightarrow> nat \<Rightarrow> 's \<Rightarrow> ('a list \<times> 's) option" where
  "pop_all pop 0 s = None"
| "pop_all pop (Suc n) s =
     (case pop s of
        None \<Rightarrow> None
      | Some (None, s') \<Rightarrow> Some ([], s')
      | Some (Some v, s') \<Rightarrow> map_option (\<lambda>(vs, s''). (v # vs, s'')) (pop_all pop n s'))"

definition buffer_drop :: "'a spsc \<Rightarrow> ('a list \<times> 'a spsc) option" where
  "buffer_drop b = pop_all try_pop (Suc (length (sp_slots b))) b"

subsection \<open>The two halves\<close>

definition producer_connect :: "usize \<Rightarrow> 'a spsc \<Rightarrow> 'a spsc option" where
  "producer_connect i b = (if i = 0 \<or> i = disconnected_id then None else Some (b\<lparr>sp_producer_id := i\<rparr>))"

definition consumer_connect :: "usize \<Rightarrow> 'a spsc \<Rightarrow> 'a spsc option" where
  "consumer_connect i b = (if i = disconnected_id \<or> i = 0 then None else Some (b\<lparr>sp_consumer_id := i\<rparr>))"

definition producer_peer_id :: "'a spsc \<Rightarrow> usize" where
  "producer_peer_id b = sp_consumer_id b"

definition consumer_peer_id :: "'a spsc \<Rightarrow> usize" where
  "consumer_peer_id b = sp_producer_id b"

definition producer_disconnect_peer :: "'a spsc \<Rightarrow> 'a spsc" where
  "producer_disconnect_peer b = snd (buf_disconnect_consumer b)"

definition consumer_disconnect_peer :: "'a spsc \<Rightarrow> 'a spsc" where
  "consumer_disconnect_peer b = snd (buf_disconnect_producer b)"

definition free_space :: "'a spsc \<Rightarrow> usize" where
  "free_space b = sp_capacity b - buf_size b"

subsection \<open>Atomic steps of the two threads\<close>

datatype 'a cons_pc = CIdle | CRead usize | CClear usize 'a | CStore usize
datatype 'a prod_pc = PIdle | PStart 'a | PRecheck 'a usize | PWrite 'a usize | PPublish 'a usize | PTail usize

record 'a ring_sys =
  rs_buf :: "'a spsc"
  rs_cpc :: "'a cons_pc"
  rs_ppc :: "'a prod_pc"
  rs_pushed :: "'a list"
  rs_popped :: "'a list"

text \<open>
  \<^verbatim>\<open>try_pop\<close> of the consumer, step by step: test the flag, read the value, clear the flag, store
  the new head. The histories record an item when its flag is set and when it is cleared.
\<close>

definition cons_step :: "'a ring_sys \<Rightarrow> 'a ring_sys option" where
  "cons_step s =
     (let b = rs_buf s
      in case rs_cpc s of
           CIdle \<Rightarrow>
             (case slot_at b (sp_head b) of
                None \<Rightarrow> None
              | Some sl \<Rightarrow> Some (if sl_has_value sl then s\<lparr>rs_cpc := CRead (sp_head b)\<rparr> else s))
         | CRead h \<Rightarrow>
             Option.bind (slot_at b h) (\<lambda>sl. Option.bind (sl_value sl) (\<lambda>v. Some (s\<lparr>rs_cpc := CClear h v\<rparr>)))
         | CClear h v \<Rightarrow>
             Option.bind (slot_at b h) (\<lambda>_.
               Some (s\<lparr>rs_buf := slot_upd h (\<lambda>sl. sl\<lparr>sl_has_value := False\<rparr>) b, rs_cpc := CStore h,
                       rs_popped := rs_popped s @ [v]\<rparr>))
         | CStore h \<Rightarrow> Some (s\<lparr>rs_buf := b\<lparr>sp_head := h + 1\<rparr>, rs_cpc := CIdle\<rparr>))"

text \<open>
  \<^verbatim>\<open>try_push\<close> of the producer: test the consumer, look ahead when the known room is used up, test
  the slot itself when the look-ahead failed, write the value, set the flag, store the new tail.
\<close>

definition prod_step :: "'a \<Rightarrow> 'a ring_sys \<Rightarrow> 'a ring_sys option" where
  "prod_step x s =
     (let b = rs_buf s
      in case rs_ppc s of
           PIdle \<Rightarrow> Some (if consumer_disconnected b then s else s\<lparr>rs_ppc := PStart x\<rparr>)
         | PStart v \<Rightarrow>
             (let tail = sp_tail b
              in if tail = sp_limit b then
                   (let idx = tail + sp_lookahead b
                    in Option.bind (slot_at b idx) (\<lambda>sl.
                         Some (if \<not> sl_has_value sl then s\<lparr>rs_buf := b\<lparr>sp_limit := idx\<rparr>, rs_ppc := PWrite v tail\<rparr>
                               else s\<lparr>rs_ppc := PRecheck v tail\<rparr>)))
                 else Some (s\<lparr>rs_ppc := PWrite v tail\<rparr>))
         | PRecheck v tail \<Rightarrow>
             Option.bind (slot_at b tail) (\<lambda>sl.
               Some (if sl_has_value sl then s\<lparr>rs_ppc := PIdle\<rparr>
                     else s\<lparr>rs_buf := b\<lparr>sp_limit := tail + 1\<rparr>, rs_ppc := PWrite v tail\<rparr>))
         | PWrite v tail \<Rightarrow>
             Option.bind (slot_at b tail) (\<lambda>_.
               Some (s\<lparr>rs_buf := slot_upd tail (\<lambda>sl. sl\<lparr>sl_value := Some v\<rparr>) b, rs_ppc := PPublish v tail\<rparr>))
         | PPublish v tail \<Rightarrow>
             Option.bind (slot_at b tail) (\<lambda>_.
               Some (s\<lparr>rs_buf := slot_upd tail (\<lambda>sl. sl\<lparr>sl_has_value := True\<rparr>) b, rs_ppc := PTail tail,
                       rs_pushed := rs_pushed s @ [v]\<rparr>))
         | PTail tail \<Rightarrow> Some (s\<lparr>rs_buf := b\<lparr>sp_tail := tail + 1\<rparr>, rs_ppc := PIdle\<rparr>))"

text \<open>Any interleaving, with either half disconnecting at any moment.\<close>

inductive ring_step :: "'a ring_sys \<Rightarrow> 'a ring_sys \<Rightarrow> bool" where
  consume: "cons_step s = Some t \<Longrightarrow> ring_step s t"
| produce: "prod_step x s = Some t \<Longrightarrow> ring_step s t"
| drop_consumer: "ring_step s (s\<lparr>rs_buf := snd (buf_disconnect_consumer (rs_buf s))\<rparr>)"
| drop_producer: "ring_step s (s\<lparr>rs_buf := snd (buf_disconnect_producer (rs_buf s))\<rparr>)"

definition ring_start :: "usize \<Rightarrow> usize \<Rightarrow> 'a ring_sys" where
  "ring_start capacity initial =
     \<lparr>rs_buf = inner_make capacity initial, rs_cpc = CIdle, rs_ppc = PIdle, rs_pushed = [], rs_popped = []\<rparr>"

definition ring_init :: "'a ring_sys \<Rightarrow> bool" where
  "ring_init s \<longleftrightarrow> (\<exists>capacity initial. unat capacity \<le> 2 ^ 63 \<and> s = ring_start capacity initial)"

subsection \<open>Words and positions\<close>

lemma mask_pow2: "(2 ^ n - 1 :: usize) = mask n"
  by (simp add: mask_eq_exp_minus_1)

lemma index_of_nat: "n \<le> 63 \<Longrightarrow> unat ((of_nat k :: usize) AND (2 ^ n - 1)) = k mod 2 ^ n"
proof -
  assume n: "n \<le> 63"
  have "unat ((of_nat k :: usize) AND mask n) = take_bit n (unat (of_nat k :: usize))"
    by (simp add: take_bit_eq_mask [symmetric] unsigned_take_bit_eq)
  also have "\<dots> = (k mod 2 ^ 64) mod 2 ^ n" by (simp add: take_bit_eq_mod unat_of_nat)
  also have "\<dots> = k mod 2 ^ n" using n by (intro mod_mod_cancel le_imp_power_dvd) linarith
  finally show ?thesis by (simp add: mask_pow2)
qed

lemma of_nat_usize_eq: "a \<le> b \<Longrightarrow> b < a + 2 ^ 64 \<Longrightarrow> (of_nat a :: usize) = of_nat b \<longleftrightarrow> a = b"
proof
  assume ab: "a \<le> b" "b < a + 2 ^ 64" and eq: "(of_nat a :: usize) = of_nat b"
  have "(of_nat (b - a) :: usize) = 0" using ab eq by (simp add: of_nat_diff)
  then have "2 ^ 64 dvd b - a" by (simp add: word_of_nat_eq_0_iff)
  then have "b - a = 0 \<or> 2 ^ 64 \<le> b - a" using dvd_imp_le by blast
  with ab show "a = b" by linarith
qed simp

lemma mod_add_inj: "j < N \<Longrightarrow> j' < N \<Longrightarrow> (h + j) mod N = (h + j') mod N \<longleftrightarrow> j = (j' :: nat)"
proof (induction j j' rule: linorder_wlog)
  case (le a b)
  show ?case
  proof
    assume "(h + a) mod N = (h + b) mod N"
    then have "(h + b) mod N = (h + a) mod N" by simp
    then have "N dvd (h + b) - (h + a)" using le mod_eq_dvd_iff_nat [of "h + a" "h + b" N] by simp
    then have "N dvd b - a" by simp
    then have "b - a = 0 \<or> N \<le> b - a" using dvd_imp_le by blast
    with le show "a = b" by linarith
  qed simp
qed auto


subsection \<open>The ring holds a list\<close>

text \<open>
  \<open>q\<close> is the list of items in the ring, the oldest at position \<open>h\<close>; positions count without
  wrapping around. The look-ahead is shorter than the ring, except in the ring of one slot.
\<close>

definition lookahead_ok :: "nat \<Rightarrow> 'a spsc \<Rightarrow> bool" where
  "lookahead_ok n b \<longleftrightarrow> 1 \<le> unat (sp_lookahead b) \<and>
     (unat (sp_lookahead b) < 2 ^ n \<or> unat (sp_lookahead b) = 1 \<and> n = 0)"

definition ring_core :: "nat \<Rightarrow> nat \<Rightarrow> 'a list \<Rightarrow> 'a spsc \<Rightarrow> bool" where
  "ring_core n h q b \<longleftrightarrow> n \<le> 63 \<and> sp_mask b = 2 ^ n - 1 \<and> sp_capacity b = 2 ^ n \<and> length (sp_slots b) = 2 ^ n \<and>
     lookahead_ok n b \<and> length q \<le> 2 ^ n \<and>
     (\<forall>j < length q. sp_slots b ! ((h + j) mod 2 ^ n) = \<lparr>sl_value = Some (q ! j), sl_has_value = True\<rparr>) \<and>
     (\<forall>j < 2 ^ n. length q \<le> j \<longrightarrow> \<not> sl_has_value (sp_slots b ! ((h + j) mod 2 ^ n)))"

lemma ring_core_frame [simp]:
  "ring_core n h q (b\<lparr>sp_head := w\<rparr>) = ring_core n h q b" "ring_core n h q (b\<lparr>sp_tail := w\<rparr>) = ring_core n h q b"
  "ring_core n h q (b\<lparr>sp_limit := w\<rparr>) = ring_core n h q b" "ring_core n h q (b\<lparr>sp_consumer_id := w\<rparr>) = ring_core n h q b"
  "ring_core n h q (b\<lparr>sp_producer_id := w\<rparr>) = ring_core n h q b"
  by (simp_all add: ring_core_def lookahead_ok_def)

lemma slot_upd_sel [simp]:
  "sp_head (slot_upd w f b) = sp_head b" "sp_tail (slot_upd w f b) = sp_tail b" "sp_limit (slot_upd w f b) = sp_limit b"
  "sp_mask (slot_upd w f b) = sp_mask b" "sp_capacity (slot_upd w f b) = sp_capacity b"
  "sp_lookahead (slot_upd w f b) = sp_lookahead b" "sp_consumer_id (slot_upd w f b) = sp_consumer_id b"
  "sp_producer_id (slot_upd w f b) = sp_producer_id b" "length (sp_slots (slot_upd w f b)) = length (sp_slots b)"
  by (simp_all add: slot_upd_def)

lemma slot_views [simp]:
  "slot_at (b\<lparr>sp_limit := x\<rparr>) w = slot_at b w" "slot_at (b\<lparr>sp_tail := x\<rparr>) w = slot_at b w"
  by (simp_all add: slot_at_def ring_index_def)

lemma core_slot:
  assumes c: "ring_core n h q b"
  shows "ring_index b (of_nat k) = k mod 2 ^ n" "slot_at b (of_nat k) = Some (sp_slots b ! (k mod 2 ^ n))"
    "sp_slots (slot_upd (of_nat k) f b) = (sp_slots b)[k mod 2 ^ n := f (sp_slots b ! (k mod 2 ^ n))]"
proof -
  show i: "ring_index b (of_nat k) = k mod 2 ^ n" using c by (simp add: ring_index_def ring_core_def index_of_nat)
  then show "slot_at b (of_nat k) = Some (sp_slots b ! (k mod 2 ^ n))"
    "sp_slots (slot_upd (of_nat k) f b) = (sp_slots b)[k mod 2 ^ n := f (sp_slots b ! (k mod 2 ^ n))]"
    using c by (simp_all add: slot_at_def slot_upd_def ring_core_def)
qed

lemma core_occupied:
  assumes c: "ring_core n h q b" and j: "j < 2 ^ n"
  shows "sl_has_value (sp_slots b ! ((h + j) mod 2 ^ n)) \<longleftrightarrow> j < length q"
  using c j by (cases "j < length q") (auto simp: ring_core_def)

lemma core_item:
  assumes "ring_core n h q b" "j < length q"
  shows "sp_slots b ! ((h + j) mod 2 ^ n) = \<lparr>sl_value = Some (q ! j), sl_has_value = True\<rparr>"
  using assms by (simp add: ring_core_def)

lemma core_head:
  assumes c: "ring_core n h q b"
  shows "sl_has_value (sp_slots b ! (h mod 2 ^ n)) \<longleftrightarrow> q \<noteq> []"
    "q \<noteq> [] \<Longrightarrow> sl_value (sp_slots b ! (h mod 2 ^ n)) = Some (hd q)"
  using core_occupied [OF c, of 0] core_item [OF c, of 0] by (auto simp: hd_conv_nth)

lemma core_tail:
  assumes c: "ring_core n h q b"
  shows "sl_has_value (sp_slots b ! ((h + length q) mod 2 ^ n)) \<longleftrightarrow> length q = 2 ^ n"
proof (cases "length q < 2 ^ n")
  case True
  with core_occupied [OF c True] show ?thesis by simp
next
  case False
  then have l: "length q = 2 ^ n" using c by (simp add: ring_core_def)
  then have "q \<noteq> []" by auto
  then show ?thesis using core_head(1) [OF c] l by simp
qed

lemma core_clear:
  assumes c: "ring_core n h (x # q) b"
  shows "ring_core n (Suc h) q (slot_upd (of_nat h) (\<lambda>sl. sl\<lparr>sl_has_value := False\<rparr>) b)"
proof -
  let ?N = "2 ^ n :: nat" and ?b = "slot_upd (of_nat h) (\<lambda>sl. sl\<lparr>sl_has_value := False\<rparr>) b"
  have len: "Suc (length q) \<le> ?N" "length (sp_slots b) = ?N" using c by (simp_all add: ring_core_def)
  have other: "sp_slots ?b ! ((h + Suc j) mod ?N) = sp_slots b ! ((h + Suc j) mod ?N)" if "Suc j < ?N" for j
    using mod_add_inj [of "Suc j" ?N 0 h] that len by (simp add: core_slot(3) [OF c] nth_list_update)
  have "sp_slots ?b ! ((Suc h + j) mod ?N) = \<lparr>sl_value = Some (q ! j), sl_has_value = True\<rparr>" if "j < length q" for j
    using that other [of j] core_item [OF c, of "Suc j"] len by simp
  moreover have "\<not> sl_has_value (sp_slots ?b ! ((Suc h + j) mod ?N))" if "j < ?N" "length q \<le> j" for j
  proof (cases "Suc j < ?N")
    case True
    then show ?thesis using other [OF True] core_occupied [OF c True] that by simp
  next
    case False
    with that have "Suc h + j = h + ?N" by simp
    then have "(Suc h + j) mod ?N = h mod ?N" by (simp only: mod_add_self2)
    then show ?thesis using len by (simp add: core_slot(3) [OF c])
  qed
  ultimately show ?thesis using c by (simp add: ring_core_def lookahead_ok_def)
qed

lemma core_tail_update:
  assumes c: "ring_core n h q b" and l: "length q < 2 ^ n" and j: "j < 2 ^ n" "j \<noteq> length q"
  shows "sp_slots (slot_upd (of_nat (h + length q)) f b) ! ((h + j) mod 2 ^ n) = sp_slots b ! ((h + j) mod 2 ^ n)"
  using mod_add_inj [OF j(1) l, of h] j(2) by (simp only: core_slot(3) [OF c]) (simp add: nth_list_update)

lemma core_tail_slot:
  assumes c: "ring_core n h q b"
  shows "sp_slots (slot_upd (of_nat (h + length q)) f b) ! ((h + length q) mod 2 ^ n) =
    f (sp_slots b ! ((h + length q) mod 2 ^ n))"
  using c by (simp only: core_slot(3) [OF c]) (simp add: ring_core_def)

lemma core_write:
  assumes c: "ring_core n h q b" and l: "length q < 2 ^ n"
    and b': "b' = slot_upd (of_nat (h + length q)) (\<lambda>sl. sl\<lparr>sl_value := Some v\<rparr>) b"
  shows "ring_core n h q b'" "sl_value (sp_slots b' ! ((h + length q) mod 2 ^ n)) = Some v"
proof -
  note up = core_tail_update [OF c l, where f = "\<lambda>sl. sl\<lparr>sl_value := Some v\<rparr>", folded b']
  note ts = core_tail_slot [OF c, where f = "\<lambda>sl. sl\<lparr>sl_value := Some v\<rparr>", folded b']
  have "sp_slots b' ! ((h + j) mod 2 ^ n) = \<lparr>sl_value = Some (q ! j), sl_has_value = True\<rparr>" if "j < length q" for j
    using up [of j] core_item [OF c that] that l by simp
  moreover have "\<not> sl_has_value (sp_slots b' ! ((h + j) mod 2 ^ n))" if "j < 2 ^ n" "length q \<le> j" for j
    using up [of j] ts core_occupied [OF c that(1)] that by (cases "j = length q") simp_all
  ultimately show "ring_core n h q b'" using c by (simp add: ring_core_def lookahead_ok_def b')
  show "sl_value (sp_slots b' ! ((h + length q) mod 2 ^ n)) = Some v" using ts by simp
qed

lemma core_publish:
  assumes c: "ring_core n h q b" and l: "length q < 2 ^ n"
    and v: "sl_value (sp_slots b ! ((h + length q) mod 2 ^ n)) = Some v"
  shows "ring_core n h (q @ [v]) (slot_upd (of_nat (h + length q)) (\<lambda>sl. sl\<lparr>sl_has_value := True\<rparr>) b)"
proof -
  let ?b = "slot_upd (of_nat (h + length q)) (\<lambda>sl. sl\<lparr>sl_has_value := True\<rparr>) b"
  note up = core_tail_update [OF c l, where f = "\<lambda>sl. sl\<lparr>sl_has_value := True\<rparr>"]
  note ts = core_tail_slot [OF c, where f = "\<lambda>sl. sl\<lparr>sl_has_value := True\<rparr>"]
  have "sp_slots ?b ! ((h + j) mod 2 ^ n) = \<lparr>sl_value = Some ((q @ [v]) ! j), sl_has_value = True\<rparr>"
    if "j < length (q @ [v])" for j
  proof (cases "j = length q")
    case True
    then show ?thesis using ts v by simp
  next
    case False
    with that have "j < length q" by simp
    then show ?thesis using up [of j] core_item [OF c, of j] l by (simp add: nth_append)
  qed
  moreover have "\<not> sl_has_value (sp_slots ?b ! ((h + j) mod 2 ^ n))" if "j < 2 ^ n" "length (q @ [v]) \<le> j" for j
    using up [of j] core_occupied [OF c that(1)] that by simp
  ultimately show ?thesis using c l by (simp add: ring_core_def lookahead_ok_def)
qed

text \<open>A free slot at the look-ahead position means that all slots up to there are free.\<close>

lemma lookahead_free:
  assumes c: "ring_core n h q b" and la: "la = unat (sp_lookahead b)"
    and f: "\<not> sl_has_value (sp_slots b ! ((h + length q + la) mod 2 ^ n))"
  shows "length q + la \<le> 2 ^ n" "0 < la"
proof -
  let ?N = "2 ^ n :: nat"
  have l: "1 \<le> la" "la < ?N \<or> la = 1 \<and> n = 0" "length q \<le> ?N" using c la by (auto simp: ring_core_def lookahead_ok_def)
  then show "0 < la" by simp
  show "length q + la \<le> ?N"
  proof (rule ccontr)
    assume big: "\<not> length q + la \<le> ?N"
    define j where "j = length q + la - ?N"
    have "h + length q + la = (h + j) + ?N" using big j_def by simp
    then have eq: "(h + length q + la) mod ?N = (h + j) mod ?N" by (simp only: mod_add_self2)
    show False
    proof (cases "j < length q")
      case True
      then have "j < ?N" using l by simp
      with core_occupied [OF c this] True f eq show False by simp
    next
      case False
      then have "la = ?N" "length q = j" using l big j_def by auto
      with l have "n = 0" by auto
      with l \<open>la = ?N\<close> big have "length q = ?N" by (cases q) simp_all
      then show False using core_tail [OF c] f eq \<open>length q = j\<close> by simp
    qed
  qed
qed


subsection \<open>The invariant of the interleavings\<close>

fun cons_ok :: "nat \<Rightarrow> 'a list \<Rightarrow> 'a spsc \<Rightarrow> 'a cons_pc \<Rightarrow> bool" where
  "cons_ok h q b CIdle = (sp_head b = of_nat h)"
| "cons_ok h q b (CRead w) = (sp_head b = of_nat h \<and> w = of_nat h \<and> q \<noteq> [])"
| "cons_ok h q b (CClear w v) = (sp_head b = of_nat h \<and> w = of_nat h \<and> q \<noteq> [] \<and> v = hd q)"
| "cons_ok h q b (CStore w) = (sp_head b = w \<and> w + 1 = of_nat h)"

fun prod_ok :: "nat \<Rightarrow> nat \<Rightarrow> nat \<Rightarrow> 'a spsc \<Rightarrow> 'a prod_pc \<Rightarrow> bool" where
  "prod_ok n t l b PIdle = (sp_tail b = of_nat t)"
| "prod_ok n t l b (PStart v) = (sp_tail b = of_nat t)"
| "prod_ok n t l b (PRecheck v w) = (sp_tail b = of_nat t \<and> w = of_nat t)"
| "prod_ok n t l b (PWrite v w) = (sp_tail b = of_nat t \<and> w = of_nat t \<and> t < l)"
| "prod_ok n t l b (PPublish v w) =
     (sp_tail b = of_nat t \<and> w = of_nat t \<and> t < l \<and> sl_value (sp_slots b ! (t mod 2 ^ n)) = Some v)"
| "prod_ok n t l b (PTail w) = (sp_tail b = w \<and> w + 1 = of_nat t)"

definition ring_rel :: "nat \<Rightarrow> nat \<Rightarrow> nat \<Rightarrow> 'a list \<Rightarrow> 'a ring_sys \<Rightarrow> bool" where
  "ring_rel n h l q s \<longleftrightarrow> ring_core n h q (rs_buf s) \<and> sp_limit (rs_buf s) = of_nat l \<and>
     h + length q \<le> l \<and> l \<le> h + 2 ^ n \<and> rs_pushed s = rs_popped s @ q \<and>
     cons_ok h q (rs_buf s) (rs_cpc s) \<and> prod_ok n (h + length q) l (rs_buf s) (rs_ppc s)"

definition ring_inv :: "'a ring_sys \<Rightarrow> bool" where
  "ring_inv s \<longleftrightarrow> (\<exists>n h l q. ring_rel n h l q s)"

lemma prod_ok_frame:
  assumes "sp_tail b' = sp_tail b"
    "\<And>v w. pc = PPublish v w \<Longrightarrow> sl_value (sp_slots b' ! (t mod 2 ^ n)) = sl_value (sp_slots b ! (t mod 2 ^ n))"
  shows "prod_ok n t l b' pc = prod_ok n t l b pc"
  using assms by (cases pc) simp_all

lemma cons_ok_frame [simp]:
  "cons_ok h q (slot_upd w f b) pc = cons_ok h q b pc" "cons_ok h q (b\<lparr>sp_tail := x\<rparr>) pc = cons_ok h q b pc"
  "cons_ok h q (b\<lparr>sp_limit := x\<rparr>) pc = cons_ok h q b pc" "cons_ok h q (b\<lparr>sp_consumer_id := x\<rparr>) pc = cons_ok h q b pc"
  "cons_ok h q (b\<lparr>sp_producer_id := x\<rparr>) pc = cons_ok h q b pc"
  by (cases pc; simp)+

lemma prod_ok_ids [simp]:
  "prod_ok n t l (b\<lparr>sp_head := x\<rparr>) pc = prod_ok n t l b pc" "prod_ok n t l (b\<lparr>sp_consumer_id := x\<rparr>) pc = prod_ok n t l b pc"
  "prod_ok n t l (b\<lparr>sp_producer_id := x\<rparr>) pc = prod_ok n t l b pc"
  by (cases pc; simp)+

lemma cons_ok_append: "cons_ok h q b pc \<Longrightarrow> cons_ok h (q @ [v]) b pc"
  by (cases pc) simp_all

lemma ring_relD:
  assumes "ring_rel n h l q s"
  shows "ring_core n h q (rs_buf s)" "sp_limit (rs_buf s) = of_nat l" "h + length q \<le> l" "l \<le> h + 2 ^ n"
    "rs_pushed s = rs_popped s @ q" "cons_ok h q (rs_buf s) (rs_cpc s)" "prod_ok n (h + length q) l (rs_buf s) (rs_ppc s)"
  using assms by (simp_all add: ring_rel_def)

lemma value_of_clear:
  assumes c: "ring_core n h q b"
  shows "sl_value (sp_slots (slot_upd (of_nat k) (\<lambda>sl. sl\<lparr>sl_has_value := x\<rparr>) b) ! i) = sl_value (sp_slots b ! i)"
proof (cases "i = k mod 2 ^ n")
  case True
  moreover have "k mod 2 ^ n < length (sp_slots b)" using c by (simp add: ring_core_def)
  ultimately show ?thesis by (simp add: core_slot(3) [OF c])
next
  case False
  then show ?thesis by (simp add: core_slot(3) [OF c])
qed

text \<open>The consumer never fails, and each of its steps keeps the invariant.\<close>

lemma cons_step_ok:
  assumes r: "ring_rel n h l q s"
  shows "\<exists>t h' q'. cons_step s = Some t \<and> ring_rel n h' l q' t"
proof -
  note R = ring_relD [OF r]
  let ?b = "rs_buf s"
  show ?thesis
  proof (cases "rs_cpc s")
    case CIdle
    then have "sp_head ?b = of_nat h" using R(6) by simp
    moreover have "ring_rel n h l q (s\<lparr>rs_cpc := CRead (of_nat h)\<rparr>)" if "q \<noteq> []"
      using r that calculation by (simp add: ring_rel_def)
    ultimately show ?thesis
      using CIdle r core_slot(2) [OF R(1)] core_head(1) [OF R(1)] by (auto simp: cons_step_def)
  next
    case (CRead w)
    then have w: "w = of_nat h" "q \<noteq> []" "sp_head ?b = of_nat h" using R(6) by simp_all
    have "ring_rel n h l q (s\<lparr>rs_cpc := CClear w (hd q)\<rparr>)" using r w by (simp add: ring_rel_def)
    then show ?thesis
      using CRead w core_slot(2) [OF R(1)] core_head(2) [OF R(1)] by (auto simp: cons_step_def)
  next
    case (CClear w v)
    then obtain q' where w: "w = of_nat h" "sp_head ?b = of_nat h" and q: "q = v # q'" using R(6) by (cases q) auto
    let ?b' = "slot_upd w (\<lambda>sl. sl\<lparr>sl_has_value := False\<rparr>) ?b"
    have c: "ring_core n (Suc h) q' ?b'" using core_clear [of n h v q' ?b] R(1) q w by simp
    have "h + length q = Suc h + length q'" using q by simp
    moreover have "prod_ok n (h + length q) l ?b' (rs_ppc s)"
      using R(7) w value_of_clear [OF R(1)] prod_ok_frame [of ?b' ?b] by simp
    moreover have "rs_pushed s = (rs_popped s @ [v]) @ q'" using R(5) q by simp
    ultimately have "ring_rel n (Suc h) l q'
        (s\<lparr>rs_buf := ?b', rs_cpc := CStore w, rs_popped := rs_popped s @ [v]\<rparr>)"
      using c R w by (simp add: ring_rel_def)
    then show ?thesis using CClear w core_slot(2) [OF R(1)] by (auto simp: cons_step_def)
  next
    case (CStore w)
    then have "ring_rel n h l q (s\<lparr>rs_buf := ?b\<lparr>sp_head := w + 1\<rparr>, rs_cpc := CIdle\<rparr>)"
      using r by (simp add: ring_rel_def)
    then show ?thesis using CStore by (auto simp: cons_step_def)
  qed
qed

lemma room_below_limit: "ring_rel n h l q s \<Longrightarrow> h + length q < l \<Longrightarrow> length q < 2 ^ n"
  using ring_relD(4) [of n h l q s] by linarith

lemma limit_reached:
  assumes r: "ring_rel n h l q s"
  shows "(of_nat (h + length q) :: usize) = of_nat l \<longleftrightarrow> h + length q = l"
proof (rule of_nat_usize_eq)
  have "n \<le> 63" using ring_relD(1) [OF r] by (simp add: ring_core_def)
  then have "(2 :: nat) ^ n \<le> 2 ^ 63" by (rule power_increasing) simp
  then show "h + length q \<le> l" "l < h + length q + 2 ^ 64"
    using ring_relD(3,4) [OF r] by simp_all
qed

lemma of_nat_plus_word: "(of_nat t :: usize) + w = of_nat (t + unat w)"
  by simp

text \<open>So does the producer.\<close>

lemma prod_step_start:
  assumes r: "ring_rel n h l q s" and pc: "rs_ppc s = PStart v"
  shows "\<exists>t l'. prod_step x s = Some t \<and> ring_rel n h l' q t"
proof -
  note R = ring_relD [OF r]
  let ?b = "rs_buf s" and ?t = "h + length q"
  have tl: "sp_tail ?b = of_nat ?t" using R(7) pc by simp
  show ?thesis
  proof (cases "?t = l")
    case False
    then have "ring_rel n h l q (s\<lparr>rs_ppc := PWrite v (of_nat ?t)\<rparr>)" using r tl R(3) by (simp add: ring_rel_def)
    moreover have "sp_tail ?b \<noteq> sp_limit ?b" using limit_reached [OF r] False R(2) tl by simp
    ultimately show ?thesis using pc tl by (auto simp: prod_step_def Let_def)
  next
    case True
    let ?la = "unat (sp_lookahead ?b)" and ?idx = "of_nat ?t + sp_lookahead ?b"
    have idx: "?idx = of_nat (?t + ?la)" by (rule of_nat_plus_word)
    have eq: "sp_tail ?b = sp_limit ?b" using True R(2) tl by simp
    show ?thesis
    proof (cases "sl_has_value (sp_slots ?b ! ((?t + ?la) mod 2 ^ n))")
      case free: False
      note la = lookahead_free [OF R(1) refl free]
      have "ring_rel n h (?t + ?la) q (s\<lparr>rs_buf := ?b\<lparr>sp_limit := ?idx\<rparr>, rs_ppc := PWrite v (of_nat ?t)\<rparr>)"
        using r la idx tl by (simp add: ring_rel_def)
      then show ?thesis using pc tl eq free core_slot(2) [OF R(1), of "?t + ?la"] idx
        by (auto simp: prod_step_def Let_def)
    next
      case used: True
      have "ring_rel n h l q (s\<lparr>rs_ppc := PRecheck v (of_nat ?t)\<rparr>)" using r tl by (simp add: ring_rel_def)
      then show ?thesis using pc tl eq used core_slot(2) [OF R(1), of "?t + ?la"] idx
        by (auto simp: prod_step_def Let_def)
    qed
  qed
qed

lemma prod_step_ok:
  assumes r: "ring_rel n h l q s"
  shows "\<exists>t l' q'. prod_step x s = Some t \<and> ring_rel n h l' q' t"
proof -
  note R = ring_relD [OF r]
  let ?b = "rs_buf s" and ?t = "h + length q"
  show ?thesis
  proof (cases "rs_ppc s")
    case PIdle
    have "ring_rel n h l q (s\<lparr>rs_ppc := PStart x\<rparr>)" using r PIdle by (simp add: ring_rel_def)
    then show ?thesis using PIdle r by (auto simp: prod_step_def Let_def)
  next
    case (PStart v)
    from prod_step_start [OF r this] show ?thesis by blast
  next
    case (PRecheck v w)
    then have w: "w = of_nat ?t" "sp_tail ?b = of_nat ?t" using R(7) by simp_all
    show ?thesis
    proof (cases "length q = 2 ^ n")
      case True
      have "ring_rel n h l q (s\<lparr>rs_ppc := PIdle\<rparr>)" using r w by (simp add: ring_rel_def)
      then show ?thesis using PRecheck True w core_slot(2) [OF R(1), of ?t] core_tail [OF R(1)] by (auto simp: prod_step_def Let_def)
    next
      case False
      then have "Suc ?t \<le> h + 2 ^ n" using R(1) by (simp add: ring_core_def)
      moreover have w1: "w + 1 = of_nat (Suc ?t)" using w(1) by (simp add: ac_simps)
      ultimately have "ring_rel n h (Suc ?t) q (s\<lparr>rs_buf := ?b\<lparr>sp_limit := w + 1\<rparr>, rs_ppc := PWrite v w\<rparr>)"
        using R w unfolding w1 by (simp add: ring_rel_def del: of_nat_Suc of_nat_add)
      then show ?thesis using PRecheck False w core_slot(2) [OF R(1), of ?t] core_tail [OF R(1)] by (auto simp: prod_step_def Let_def)
    qed
  next
    case (PWrite v w)
    then have w: "w = of_nat ?t" "sp_tail ?b = of_nat ?t" "?t < l" using R(7) by simp_all
    note wr = core_write [OF R(1) room_below_limit [OF r w(3)] refl, of v]
    have "ring_rel n h l q (s\<lparr>rs_buf := slot_upd w (\<lambda>sl. sl\<lparr>sl_value := Some v\<rparr>) ?b, rs_ppc := PPublish v w\<rparr>)"
      using r w wr by (simp add: ring_rel_def)
    then show ?thesis using PWrite w core_slot(2) [OF R(1), of ?t] by (auto simp: prod_step_def Let_def)
  next
    case (PPublish v w)
    then have w: "w = of_nat ?t" "sp_tail ?b = of_nat ?t" "?t < l" "sl_value (sp_slots ?b ! (?t mod 2 ^ n)) = Some v"
      using R(7) by simp_all
    have w1: "w + 1 = of_nat (Suc ?t)" using w(1) by (simp add: ac_simps)
    note pb = core_publish [OF R(1) room_below_limit [OF r w(3)] w(4)]
    have "ring_rel n h l (q @ [v]) (s\<lparr>rs_buf := slot_upd w (\<lambda>sl. sl\<lparr>sl_has_value := True\<rparr>) ?b,
        rs_ppc := PTail w, rs_pushed := rs_pushed s @ [v]\<rparr>)"
      using R w pb w1 by (simp add: ring_rel_def cons_ok_append del: of_nat_Suc of_nat_add)
    then show ?thesis using PPublish w core_slot(2) [OF R(1), of ?t] by (auto simp: prod_step_def Let_def)
  next
    case (PTail w)
    then have "ring_rel n h l q (s\<lparr>rs_buf := ?b\<lparr>sp_tail := w + 1\<rparr>, rs_ppc := PIdle\<rparr>)"
      using r by (simp add: ring_rel_def)
    then show ?thesis using PTail by (auto simp: prod_step_def Let_def)
  qed
qed


subsection \<open>Creation\<close>

lemma pow2_from_ok:
  assumes "unat n \<le> 2 ^ 63" "k + f = 64" "0 < f"
  shows "\<exists>m \<le> 63. pow2_from f (2 ^ k) n = 2 ^ m \<and> k \<le> m \<and> n \<le> 2 ^ m"
  using assms
proof (induction f arbitrary: k)
  case (Suc f)
  have k: "k \<le> 63" using Suc.prems by simp
  show ?case
  proof (cases "n \<le> 2 ^ k")
    case True
    with k show ?thesis by auto
  next
    case False
    have "k \<noteq> 63"
    proof
      assume "k = 63"
      then have "n \<le> 2 ^ k" using Suc.prems(1) by (simp add: word_le_nat_alt)
      with False show False by simp
    qed
    then have "0 < f" using Suc.prems by simp
    with Suc.IH [of "Suc k"] Suc.prems False show ?thesis by auto
  qed
qed simp

lemma next_power_of_two_ok:
  assumes "unat n \<le> 2 ^ 63"
  obtains m where "m \<le> 63" "next_power_of_two n = 2 ^ m" "n \<le> 2 ^ m"
  using pow2_from_ok [of n 0 64] assms that by (auto simp: next_power_of_two_def)

lemma unat_pow2: "m \<le> 63 \<Longrightarrow> unat (2 ^ m :: usize) = 2 ^ m"
proof -
  assume "m \<le> 63"
  then have "(2 :: nat) ^ m < 2 ^ 64" by (intro power_strict_increasing) simp_all
  then have "unat (of_nat (2 ^ m) :: usize) = 2 ^ m" by (simp only: unat_of_nat) simp
  then show ?thesis by simp
qed

lemma lookahead_make:
  assumes m: "m \<le> 63" and la: "la = max 1 (min ((2 ^ m :: usize) div 4) max_lookahead)"
  shows "1 \<le> unat la" "unat la < 2 ^ m \<or> unat la = 1 \<and> m = 0"
proof -
  have u: "unat ((2 ^ m :: usize) div 4) = 2 ^ m div 4" using unat_pow2 [OF m] by (simp add: unat_div)
  have ml: "unat max_lookahead = 4096" by (simp add: max_lookahead_def)
  have la': "unat la = max 1 (min (2 ^ m div 4) 4096)"
    using u ml la by (simp add: max_def min_def word_le_nat_alt)
  then show "1 \<le> unat la" by simp
  show "unat la < 2 ^ m \<or> unat la = 1 \<and> m = 0"
  proof (cases m)
    case (Suc k)
    have "0 < (2 :: nat) ^ k" by simp
    then have "2 ^ m div 4 < (2 :: nat) ^ m" "1 < (2 :: nat) ^ m" unfolding Suc power_Suc by linarith+
    then show ?thesis unfolding la' by linarith
  qed (use la' in simp)
qed

lemma make_core:
  assumes "unat capacity \<le> 2 ^ 63"
  obtains n where "ring_core n h [] (inner_make capacity initial)" "capacity \<le> 2 ^ n"
proof -
  obtain m where m: "m \<le> 63" "next_power_of_two capacity = 2 ^ m" "capacity \<le> 2 ^ m"
    by (rule next_power_of_two_ok [OF assms])
  have "ring_core m h [] (inner_make capacity initial)"
    using m unat_pow2 [OF m(1)] lookahead_make [OF m(1) refl]
    by (simp add: ring_core_def inner_make_def lookahead_ok_def Let_def allocate_buffer_def)
  with that m(3) show ?thesis by blast
qed

lemma inner_make_sel [simp]:
  "sp_head (inner_make c i) = i" "sp_tail (inner_make c i) = i" "sp_limit (inner_make c i) = i"
  "sp_consumer_id (inner_make c i) = 0" "sp_producer_id (inner_make c i) = 0"
  by (simp_all add: inner_make_def Let_def)

lemma ring_init_inv: "ring_init s \<Longrightarrow> ring_inv s"
proof -
  assume "ring_init s"
  then obtain c i where c: "unat c \<le> 2 ^ 63" "s = ring_start c i" by (auto simp: ring_init_def)
  obtain n where "ring_core n (unat i) [] (inner_make c i :: 'a spsc)" by (rule make_core [OF c(1)])
  then have "ring_rel n (unat i) (unat i) [] s" using c(2) by (simp add: ring_rel_def ring_start_def)
  then show ?thesis by (auto simp: ring_inv_def)
qed

interpretation ring: transition_inv ring_init ring_step ring_inv
proof unfold_locales
  show "ring_inv s" if "ring_init s" for s :: "'a ring_sys" using that by (rule ring_init_inv)
  show "ring_inv t" if inv: "ring_inv s" and st: "ring_step s t" for s t :: "'a ring_sys"
  proof -
    obtain n h l q where r: "ring_rel n h l q s" using inv by (auto simp: ring_inv_def)
    from st show ?thesis
    proof cases
      case consume
      with cons_step_ok [OF r] show ?thesis by (auto simp: ring_inv_def)
    next
      case (produce x)
      with prod_step_ok [OF r, of x] show ?thesis by (auto simp: ring_inv_def)
    next
      case drop_consumer
      with r show ?thesis by (auto simp: ring_inv_def ring_rel_def buf_disconnect_consumer_def)
    next
      case drop_producer
      with r show ?thesis by (auto simp: ring_inv_def ring_rel_def buf_disconnect_producer_def)
    qed
  qed
qed

subsection \<open>The contract of the queue\<close>

text \<open>
  What the shared channel relies on, between calls: \<open>items b q\<close> says that the queue holds the list
  \<open>q\<close>; \<open>closed\<close> that pushes are refused; \<open>room\<close> is the capacity.
\<close>

fun push_all :: "('a \<Rightarrow> 's \<Rightarrow> ('a option \<times> 's) option) \<Rightarrow> 'a list \<Rightarrow> 's \<Rightarrow> ('a list \<times> 's) option" where
  "push_all push [] s = Some ([], s)"
| "push_all push (v # vs) s =
     (case push v s of
        None \<Rightarrow> None
      | Some (Some v', s') \<Rightarrow> Some (v' # vs, s')
      | Some (None, s') \<Rightarrow> push_all push vs s')"

locale bounded_queue =
  fixes push :: "'a \<Rightarrow> 's \<Rightarrow> ('a option \<times> 's) option"
    and pop :: "'s \<Rightarrow> ('a option \<times> 's) option"
    and items :: "'s \<Rightarrow> 'a list \<Rightarrow> bool"
    and closed :: "'s \<Rightarrow> bool"
    and room :: "'s \<Rightarrow> nat"
  assumes pop_Nil: "items s [] \<Longrightarrow> pop s = Some (None, s)"
    and pop_Cons: "items s (x # xs) \<Longrightarrow> \<exists>t. pop s = Some (Some x, t) \<and> items t xs \<and> closed t = closed s \<and> room t = room s"
    and push_closed: "closed s \<Longrightarrow> push v s = Some (Some v, s)"
    and push_full: "items s q \<Longrightarrow> length q = room s \<Longrightarrow> push v s = Some (Some v, s)"
    and push_room: "items s q \<Longrightarrow> length q < room s \<Longrightarrow> \<not> closed s \<Longrightarrow>
      \<exists>t. push v s = Some (None, t) \<and> items t (q @ [v]) \<and> closed t = closed s \<and> room t = room s"
    and items_room: "items s q \<Longrightarrow> length q \<le> room s"
begin

lemma push_cases:
  assumes "items s q"
  shows "\<exists>r t. push v s = Some (r, t) \<and> (if closed s \<or> length q = room s then r = Some v \<and> t = s
     else r = None \<and> items t (q @ [v]) \<and> closed t = closed s \<and> room t = room s)"
  using push_closed [of s v] push_full [OF assms, of v] push_room [OF assms, of v] items_room [OF assms] by fastforce

lemma pop_all_ok:
  assumes "items s q" "length q < n"
  shows "\<exists>t. pop_all pop n s = Some (q, t) \<and> items t []"
  using assms
proof (induction q arbitrary: s n)
  case Nil
  with pop_Nil [of s] show ?case by (cases n) auto
next
  case (Cons x xs)
  obtain t where "pop s = Some (Some x, t)" "items t xs" using pop_Cons [OF Cons.prems(1)] by blast
  with Cons.IH [of t "n - 1"] Cons.prems(2) show ?case by (cases n) auto
qed

lemma push_all_ok:
  assumes "items s q" "\<not> closed s" "length q + length vs \<le> room s"
  shows "\<exists>t. push_all push vs s = Some ([], t) \<and> items t (q @ vs)"
  using assms
proof (induction vs arbitrary: s q)
  case (Cons v vs)
  obtain t where "push v s = Some (None, t)" "items t (q @ [v])" "closed t = closed s" "room t = room s"
    using push_room [OF Cons.prems(1), of v] Cons.prems by auto
  with Cons.IH [of t "q @ [v]"] Cons.prems show ?case by auto
qed auto

lemma roundtrip:
  assumes "items s []" "\<not> closed s" "length vs \<le> room s" "length vs < n"
  shows "\<exists>t u. push_all push vs s = Some ([], t) \<and> pop_all pop n t = Some (vs, u)"
proof -
  obtain t where t: "push_all push vs s = Some ([], t)" "items t vs" using push_all_ok [OF assms(1,2), of vs] assms(3) by auto
  with pop_all_ok [OF t(2) assms(4)] show ?thesis by blast
qed

end


subsection \<open>The whole functions\<close>

definition ring_at :: "nat \<Rightarrow> nat \<Rightarrow> nat \<Rightarrow> 'a list \<Rightarrow> 'a spsc \<Rightarrow> bool" where
  "ring_at n h l q b \<longleftrightarrow> ring_core n h q b \<and> sp_limit b = of_nat l \<and> h + length q \<le> l \<and> l \<le> h + 2 ^ n \<and>
     sp_head b = of_nat h \<and> sp_tail b = of_nat (h + length q)"

definition spsc_items :: "'a spsc \<Rightarrow> 'a list \<Rightarrow> bool" where
  "spsc_items b q \<longleftrightarrow> (\<exists>n h l. ring_at n h l q b)"

definition spsc_room :: "'a spsc \<Rightarrow> nat" where
  "spsc_room b = unat (sp_capacity b)"

lemma ring_at_rel:
  assumes "ring_at n h l q b"
  shows "ring_rel n h l q \<lparr>rs_buf = b, rs_cpc = CIdle, rs_ppc = PIdle, rs_pushed = q, rs_popped = []\<rparr>"
  using assms by (simp add: ring_at_def ring_rel_def)

lemma core_room: "ring_core n h q b \<Longrightarrow> spsc_room b = 2 ^ n"
  by (simp add: ring_core_def spsc_room_def unat_pow2)

lemma try_pop_ok:
  assumes r: "ring_at n h l q b"
  shows "try_pop b = Some (case q of [] \<Rightarrow> (None, b)
     | x # _ \<Rightarrow> (Some x, (slot_upd (of_nat h) (\<lambda>sl. sl\<lparr>sl_has_value := False\<rparr>) b)\<lparr>sp_head := of_nat h + 1\<rparr>))"
proof -
  have c: "ring_core n h q b" and hd: "sp_head b = of_nat h" using r by (simp_all add: ring_at_def)
  show ?thesis using core_slot(2) [OF c] core_head [OF c] hd by (cases q) (simp_all add: try_pop_def Let_def)
qed

lemma try_pop_at:
  assumes r: "ring_at n h l (x # q) b"
  shows "ring_at n (Suc h) l q ((slot_upd (of_nat h) (\<lambda>sl. sl\<lparr>sl_has_value := False\<rparr>) b)\<lparr>sp_head := of_nat h + 1\<rparr>)"
proof -
  have "of_nat h + 1 = (of_nat (Suc h) :: usize)" by (simp add: ac_simps)
  then show ?thesis using r core_clear [of n h x q b] by (simp add: ring_at_def del: of_nat_Suc of_nat_add)
qed

lemma upd_both:
  assumes "ring_core n h q b"
  shows "slot_upd (of_nat k) (\<lambda>sl. sl\<lparr>sl_has_value := True\<rparr>) (slot_upd (of_nat k) (\<lambda>sl. sl\<lparr>sl_value := Some v\<rparr>) b) =
     slot_upd (of_nat k) (\<lambda>sl. sl\<lparr>sl_value := Some v, sl_has_value := True\<rparr>) b"
proof -
  have "k mod 2 ^ n < length (sp_slots b)" using assms by (simp add: ring_core_def)
  then show ?thesis using core_slot(1) [OF assms, of k] by (simp add: slot_upd_def ring_index_def)
qed

text \<open>Once there is room below the limit, the push succeeds.\<close>

definition pushed_at :: "nat \<Rightarrow> 'a \<Rightarrow> 'a spsc \<Rightarrow> 'a spsc" where
  "pushed_at t v b =
     (slot_upd (of_nat t) (\<lambda>sl. sl\<lparr>sl_value := Some v, sl_has_value := True\<rparr>) b)\<lparr>sp_tail := of_nat t + 1\<rparr>"

lemma pushed_at_ok:
  assumes r: "ring_at n h l q b" and l: "h + length q < l"
  shows "ring_at n h l (q @ [v]) (pushed_at (h + length q) v b)"
proof -
  have c: "ring_core n h q b" using r by (simp add: ring_at_def)
  have lq: "length q < 2 ^ n" using r l by (simp add: ring_at_def)
  note w = core_write [OF c lq refl, of v]
  note p = core_publish [OF w(1) lq w(2)]
  have "ring_core n h (q @ [v]) (slot_upd (of_nat (h + length q)) (\<lambda>sl. sl\<lparr>sl_value := Some v, sl_has_value := True\<rparr>) b)"
    using p by (simp only: upd_both [OF c])
  moreover have "of_nat (h + length q) + 1 = (of_nat (h + length (q @ [v])) :: usize)" by (simp add: ac_simps)
  ultimately show ?thesis using r l by (simp add: ring_at_def pushed_at_def del: of_nat_add of_nat_Suc)
qed

lemma ring_at_limit:
  "ring_at n h l q b \<Longrightarrow> h + length q \<le> l' \<Longrightarrow> l' \<le> h + 2 ^ n \<Longrightarrow> ring_at n h l' q (b\<lparr>sp_limit := of_nat l'\<rparr>)"
  by (simp add: ring_at_def)

text \<open>The four ways through \<^verbatim>\<open>try_push\<close>.\<close>

lemma try_push_ok:
  assumes r: "ring_at n h l q b" and cd: "\<not> consumer_disconnected b"
  shows "if length q = 2 ^ n then try_push v b = Some (Some v, b)
     else \<exists>l'. try_push v b = Some (None, pushed_at (h + length q) v (b\<lparr>sp_limit := of_nat l'\<rparr>)) \<and>
            h + length q < l' \<and> l' \<le> h + 2 ^ n"
proof -
  let ?t = "h + length q" and ?la = "unat (sp_lookahead b)"
  have c: "ring_core n h q b" and tl: "sp_tail b = of_nat ?t" and lim: "sp_limit b = of_nat l"
    and bd: "?t \<le> l" "l \<le> h + 2 ^ n"
    using r by (simp_all add: ring_at_def)
  have idx: "of_nat ?t + sp_lookahead b = of_nat (?t + ?la)" by (rule of_nat_plus_word)
  have eq: "sp_tail b = sp_limit b \<longleftrightarrow> ?t = l" using limit_reached [OF ring_at_rel [OF r]] tl lim by simp
  have upd: "b\<lparr>sp_limit := of_nat l\<rparr> = b" using lim [symmetric] by simp
  have ps: "slot_at b (of_nat ?t) = Some (sp_slots b ! (?t mod 2 ^ n))" by (rule core_slot(2) [OF c])
  show ?thesis
  proof (cases "?t = l")
    case False
    then have "try_push v b = Some (None, pushed_at ?t v b)"
      using cd eq tl ps by (simp add: try_push_def Let_def pushed_at_def del: of_nat_add)
    then have "try_push v b = Some (None, pushed_at ?t v (b\<lparr>sp_limit := of_nat l\<rparr>))" by (simp only: upd)
    moreover have "length q \<noteq> 2 ^ n" using False bd by simp
    ultimately show ?thesis using False bd by auto
  next
    case True
    show ?thesis
    proof (cases "sl_has_value (sp_slots b ! ((?t + ?la) mod 2 ^ n))")
      case free: False
      note la = lookahead_free [OF c refl free]
      have "try_push v b = Some (None, pushed_at ?t v (b\<lparr>sp_limit := of_nat (?t + ?la)\<rparr>))"
        using cd eq True tl ps free core_slot(2) [OF c, of "?t + ?la"] idx
        by (simp add: try_push_def Let_def pushed_at_def del: of_nat_add)
      moreover have "length q \<noteq> 2 ^ n" using la by simp
      ultimately show ?thesis using la by (auto intro!: exI [of _ "?t + ?la"])
    next
      case used: True
      have t1: "of_nat ?t + 1 = (of_nat (Suc ?t) :: usize)" by (simp add: ac_simps)
      have "try_push v b = (if length q = 2 ^ n then Some (Some v, b)
          else Some (None, pushed_at ?t v (b\<lparr>sp_limit := of_nat (Suc ?t)\<rparr>)))"
        using cd eq True tl ps used core_slot(2) [OF c, of "?t + ?la"] idx core_tail [OF c] t1
        by (simp add: try_push_def Let_def pushed_at_def del: of_nat_add of_nat_Suc)
      moreover have "Suc ?t \<le> h + 2 ^ n" if "length q \<noteq> 2 ^ n" using c that by (simp add: ring_core_def)
      ultimately show ?thesis by (auto intro!: exI [of _ "Suc ?t"])
    qed
  qed
qed

interpretation spscq: bounded_queue try_push try_pop spsc_items consumer_disconnected spsc_room
proof unfold_locales
  fix s :: "'a spsc" and v x :: 'a and q xs
  show "try_pop s = Some (None, s)" if i: "spsc_items s []"
  proof -
    obtain n h l where r: "ring_at n h l [] s" using i by (auto simp: spsc_items_def)
    from try_pop_ok [OF r] show ?thesis by simp
  qed
  show "\<exists>t. try_pop s = Some (Some x, t) \<and> spsc_items t xs \<and> consumer_disconnected t = consumer_disconnected s \<and>
      spsc_room t = spsc_room s" if i: "spsc_items s (x # xs)"
  proof -
    obtain n h l where r: "ring_at n h l (x # xs) s" using i by (auto simp: spsc_items_def)
    then show ?thesis using try_pop_ok [OF r] try_pop_at [OF r]
      by (auto simp: spsc_items_def consumer_disconnected_def spsc_room_def)
  qed
  show "try_push v s = Some (Some v, s)" if "consumer_disconnected s" using that by (simp add: try_push_def)
  show "length q \<le> spsc_room s" if i: "spsc_items s q"
  proof -
    obtain n h l where c: "ring_core n h q s" using i by (auto simp: spsc_items_def ring_at_def)
    from core_room [OF c] c show ?thesis by (simp add: ring_core_def)
  qed
  show "try_push v s = Some (Some v, s)" if i: "spsc_items s q" and l: "length q = spsc_room s"
  proof -
    obtain n h l where r: "ring_at n h l q s" using i by (auto simp: spsc_items_def)
    moreover have "spsc_room s = 2 ^ n" using r by (auto simp: ring_at_def core_room)
    ultimately show ?thesis using try_push_ok [OF r, of v] l by (cases "consumer_disconnected s") (auto simp: try_push_def)
  qed
  show "\<exists>t. try_push v s = Some (None, t) \<and> spsc_items t (q @ [v]) \<and> consumer_disconnected t = consumer_disconnected s \<and>
      spsc_room t = spsc_room s" if i: "spsc_items s q" and l: "length q < spsc_room s" and c: "\<not> consumer_disconnected s"
  proof -
    obtain n h lm where r: "ring_at n h lm q s" using i by (auto simp: spsc_items_def)
    have "spsc_room s = 2 ^ n" using r by (auto simp: ring_at_def core_room)
    then obtain l' where p: "try_push v s = Some (None, pushed_at (h + length q) v (s\<lparr>sp_limit := of_nat l'\<rparr>))"
      "h + length q < l'" "l' \<le> h + 2 ^ n"
      using try_push_ok [OF r c, of v] l by auto
    have "ring_at n h l' (q @ [v]) (pushed_at (h + length q) v (s\<lparr>sp_limit := of_nat l'\<rparr>))"
      using p by (intro pushed_at_ok ring_at_limit [OF r]) simp_all
    then show ?thesis using p by (auto simp: spsc_items_def consumer_disconnected_def spsc_room_def pushed_at_def)
  qed
qed

lemma buffer_drop_items:
  assumes "spsc_items b q"
  shows "\<exists>b'. buffer_drop b = Some (q, b') \<and> spsc_items b' []"
proof -
  have "length q < Suc (length (sp_slots b))" using assms by (auto simp: spsc_items_def ring_at_def ring_core_def)
  then show ?thesis unfolding buffer_drop_def by (rule spscq.pop_all_ok [OF assms])
qed

lemma make_items: "unat c \<le> 2 ^ 63 \<Longrightarrow> spsc_items (inner_make c i) []"
proof -
  assume "unat c \<le> 2 ^ 63"
  then obtain n where "ring_core n (unat i) [] (inner_make c i :: 'a spsc)" by (rule make_core)
  then have "ring_at n (unat i) (unat i) [] (inner_make c i :: 'a spsc)" by (simp add: ring_at_def)
  then show ?thesis by (auto simp: spsc_items_def)
qed


subsection \<open>Uninterrupted runs of the atomic steps\<close>

fun run_steps :: "('s \<Rightarrow> 's option) \<Rightarrow> nat \<Rightarrow> 's \<Rightarrow> 's option" where
  "run_steps f 0 s = Some s"
| "run_steps f (Suc n) s = Option.bind (f s) (run_steps f n)"

lemma run_steps_numeral: "run_steps f (numeral k) s = Option.bind (f s) (run_steps f (pred_numeral k))"
  by (simp add: numeral_eq_Suc)

lemma slot_at_upd: "slot_at (slot_upd w f b) w = map_option f (slot_at b w)"
  by (simp add: slot_at_def slot_upd_def ring_index_def)

lemma slot_upd_upd: "slot_at b w \<noteq> None \<Longrightarrow> slot_upd w g (slot_upd w f b) = slot_upd w (\<lambda>sl. g (f sl)) b"
  by (auto simp: slot_at_def slot_upd_def ring_index_def split: if_splits)

lemma try_pop_steps:
  assumes pc: "rs_cpc s = CIdle" and p: "try_pop (rs_buf s) = Some (r, b')"
  shows "case r of
     None \<Rightarrow> run_steps cons_step 1 s = Some s \<and> b' = rs_buf s
   | Some v \<Rightarrow> run_steps cons_step 4 s = Some (s\<lparr>rs_buf := b', rs_popped := rs_popped s @ [v]\<rparr>)"
proof -
  obtain sl where sl: "slot_at (rs_buf s) (sp_head (rs_buf s)) = Some sl"
    using p by (auto simp: try_pop_def Let_def split: option.splits)
  show ?thesis
  proof (cases "sl_has_value sl")
    case True
    with p sl obtain v where v: "sl_value sl = Some v" by (auto simp: try_pop_def Let_def split: option.splits)
    with True p sl have "r = Some v"
      "b' = (slot_upd (sp_head (rs_buf s)) (\<lambda>sl. sl\<lparr>sl_has_value := False\<rparr>) (rs_buf s))\<lparr>sp_head := sp_head (rs_buf s) + 1\<rparr>"
      by (simp_all add: try_pop_def Let_def)
    with True v sl pc show ?thesis by (simp add: Let_def cons_step_def run_steps_numeral)
  next
    case False
    with p sl pc show ?thesis by (auto simp: try_pop_def Let_def cons_step_def)
  qed
qed

text \<open>A push takes five steps, six when the look-ahead fails, three when the ring is full.\<close>

lemma push_tail_steps:
  assumes "rs_ppc s = PWrite v w" "slot_at (rs_buf s) w \<noteq> None"
  shows "run_steps (prod_step x) 3 s = Some (s\<lparr>rs_buf :=
     (slot_upd w (\<lambda>sl. sl\<lparr>sl_value := Some v, sl_has_value := True\<rparr>) (rs_buf s))\<lparr>sp_tail := w + 1\<rparr>,
     rs_ppc := PIdle, rs_pushed := rs_pushed s @ [v]\<rparr>)"
  using assms by (auto simp: run_steps_numeral prod_step_def slot_at_upd slot_upd_upd)

lemma run_steps_add: "run_steps f (m + n) s = Option.bind (run_steps f m s) (run_steps f n)"
  by (induction m arbitrary: s) (auto split: bind_splits)

lemma try_push_steps:
  assumes pc: "rs_ppc s = PIdle" and p: "try_push v (rs_buf s) = Some (r, b')"
  shows "\<exists>k. run_steps (prod_step v) k s =
     Some (case r of None \<Rightarrow> s\<lparr>rs_buf := b', rs_pushed := rs_pushed s @ [v]\<rparr> | Some _ \<Rightarrow> s) \<and> (r = None \<or> r = Some v)"
proof (cases "consumer_disconnected (rs_buf s)")
  case True
  with p pc show ?thesis by (auto simp: try_push_def prod_step_def intro!: exI [of _ 1])
next
  case nd: False
  let ?b = "rs_buf s" and ?w = "sp_tail (rs_buf s)"
  have fin: "\<exists>k. run_steps (prod_step v) k s = Some (s\<lparr>rs_buf := b2, rs_pushed := rs_pushed s @ [v]\<rparr>)"
    if "run_steps (prod_step v) m s = Some (s\<lparr>rs_buf := b1, rs_ppc := PWrite v ?w\<rparr>)" "slot_at b1 ?w \<noteq> None"
      "b2 = (slot_upd ?w (\<lambda>sl. sl\<lparr>sl_value := Some v, sl_has_value := True\<rparr>) b1)\<lparr>sp_tail := ?w + 1\<rparr>" for m b1 b2
    using that push_tail_steps [of "s\<lparr>rs_buf := b1, rs_ppc := PWrite v ?w\<rparr>" v ?w v] pc
    by (auto simp: run_steps_add intro!: exI [of _ "m + 3"])
  consider (below) "?w \<noteq> sp_limit ?b"
    | (ahead) sl where "?w = sp_limit ?b" "slot_at ?b (?w + sp_lookahead ?b) = Some sl" "\<not> sl_has_value sl"
    | (check) sl sl' where "?w = sp_limit ?b" "slot_at ?b (?w + sp_lookahead ?b) = Some sl" "sl_has_value sl"
        "slot_at ?b ?w = Some sl'"
    using p nd by (auto simp: try_push_def Let_def split: if_splits option.splits)
  then show ?thesis
  proof cases
    case below
    have "run_steps (prod_step v) 2 s = Some (s\<lparr>rs_buf := ?b, rs_ppc := PWrite v ?w\<rparr>)"
      using below pc nd by (simp add: run_steps_numeral prod_step_def Let_def)
    from fin [OF this] p nd below show ?thesis
      by (auto simp: try_push_def Let_def split: option.splits)
  next
    case ahead
    have "run_steps (prod_step v) 2 s = Some (s\<lparr>rs_buf := ?b\<lparr>sp_limit := ?w + sp_lookahead ?b\<rparr>, rs_ppc := PWrite v ?w\<rparr>)"
      using ahead pc nd by (simp add: run_steps_numeral prod_step_def Let_def)
    from fin [OF this] p nd ahead show ?thesis
      by (auto simp: try_push_def Let_def split: option.splits)
  next
    case check
    show ?thesis
    proof (cases "sl_has_value sl'")
      case True
      have "s\<lparr>rs_ppc := PIdle\<rparr> = s" using pc [symmetric] by simp
      then have "run_steps (prod_step v) 3 s = Some s"
        using True check pc nd by (simp add: run_steps_numeral prod_step_def Let_def)
      then show ?thesis using True check p nd by (auto simp: try_push_def Let_def intro!: exI [of _ 3])
    next
      case False
      have "run_steps (prod_step v) 3 s = Some (s\<lparr>rs_buf := ?b\<lparr>sp_limit := ?w + 1\<rparr>, rs_ppc := PWrite v ?w\<rparr>)"
        using False check pc nd by (simp add: run_steps_numeral prod_step_def Let_def)
      from fin [OF this] p nd check False show ?thesis
        by (auto simp: try_push_def Let_def split: option.splits)
    qed
  qed
qed


subsection \<open>Reported size\<close>

lemma buf_size_ok:
  assumes r: "ring_at n h l q b" and w: "h + length q < 2 ^ 64"
  shows "unat (buf_size b) = length q" "unat (free_space b) = spsc_room b - length q"
proof -
  have c: "ring_core n h q b" and hd: "sp_head b = of_nat h" and tl: "sp_tail b = of_nat (h + length q)"
    using r by (simp_all add: ring_at_def)
  have u: "unat (sp_head b) = h" "unat (sp_tail b) = h + length q"
    using hd tl w by (simp_all add: unat_of_nat del: of_nat_add)
  have le: "sp_head b \<le> sp_tail b" using u by (simp add: word_le_nat_alt)
  then have sub: "unat (sp_tail b - sp_head b) = length q" using u by (simp add: unat_sub)
  have cap: "length q \<le> spsc_room b" using c core_room [OF c] by (simp add: ring_core_def)
  show s: "unat (buf_size b) = length q"
    using le sub cap by (simp add: buf_size_def saturating_sub_def min_def word_le_nat_alt spsc_room_def)
  then show "unat (free_space b) = spsc_room b - length q"
    using cap by (simp add: free_space_def unat_sub word_le_nat_alt spsc_room_def)
qed

text \<open>Once the tail has wrapped around and the head has not, the ring reports no items at all.\<close>

lemma buf_size_wrapped:
  assumes r: "ring_at n h l q b" and w: "h < 2 ^ 64" "2 ^ 64 \<le> h + length q"
  shows "buf_size b = 0"
proof -
  have c: "ring_core n h q b" and hd: "sp_head b = of_nat h" and tl: "sp_tail b = of_nat (h + length q)"
    using r by (simp_all add: ring_at_def)
  have "n \<le> 63" "length q \<le> 2 ^ n" using c by (simp_all add: ring_core_def)
  then have "length q \<le> 2 ^ 63" using power_increasing [of n 63 "2::nat"] by simp
  then have "unat (sp_tail b) = h + length q - 2 ^ 64" "unat (sp_head b) = h"
    using hd tl w by (simp_all add: unat_of_nat mod_if del: of_nat_add)
  then have "\<not> sp_head b \<le> sp_tail b" using w \<open>length q \<le> 2 ^ 63\<close> by (simp add: word_le_nat_alt)
  then show ?thesis by (simp add: buf_size_def saturating_sub_def min_def)
qed

subsection \<open>Concrete runs\<close>

fun ring_run :: "'a option list \<Rightarrow> 'a ring_sys \<Rightarrow> 'a ring_sys option" where
  "ring_run [] s = Some s"
| "ring_run (None # acts) s = Option.bind (cons_step s) (ring_run acts)"
| "ring_run (Some x # acts) s = Option.bind (prod_step x s) (ring_run acts)"

lemma ring_run_reachable: "ring_run acts s = Some t \<Longrightarrow> reachable ring_init ring_step s \<Longrightarrow> reachable ring_init ring_step t"
proof (induction acts s rule: ring_run.induct)
  case (2 acts s)
  then show ?case by (auto split: bind_splits intro: consume)
next
  case (3 x acts s)
  then show ?case by (auto split: bind_splits intro: produce)
qed simp

lemma ring_start_reachable: "unat c \<le> 2 ^ 63 \<Longrightarrow> reachable ring_init ring_step (ring_start c i)"
  by (rule reachable_init) (auto simp: ring_init_def)

lemma pow2_from_numeral: "pow2_from (numeral k) p n = (if n \<le> p then p else pow2_from (pred_numeral k) (2 * p) n)"
  by (simp add: numeral_eq_Suc)

lemma next_power_of_two_small: "next_power_of_two 1 = 1" "next_power_of_two 2 = 2" "next_power_of_two 3 = 4"
  by (simp_all add: next_power_of_two_def pow2_from_numeral word_le_nat_alt)

lemma replicate_2: "replicate 2 x = [x, x]"
  by (simp add: numeral_2_eq_2)

lemma ring_start_small:
  "ring_start 1 i = \<lparr>rs_buf = \<lparr>sp_slots = [\<lparr>sl_value = None, sl_has_value = False\<rparr>], sp_capacity = 1, sp_mask = 0,
      sp_lookahead = 1, sp_tail = i, sp_limit = i, sp_consumer_id = 0, sp_head = i, sp_producer_id = 0\<rparr>,
      rs_cpc = CIdle, rs_ppc = PIdle, rs_pushed = [], rs_popped = []\<rparr>"
  "ring_start 2 i = \<lparr>rs_buf = \<lparr>sp_slots = [\<lparr>sl_value = None, sl_has_value = False\<rparr>, \<lparr>sl_value = None, sl_has_value = False\<rparr>],
      sp_capacity = 2, sp_mask = 1, sp_lookahead = 1, sp_tail = i, sp_limit = i, sp_consumer_id = 0, sp_head = i,
      sp_producer_id = 0\<rparr>, rs_cpc = CIdle, rs_ppc = PIdle, rs_pushed = [], rs_popped = []\<rparr>"
  by (simp_all add: ring_start_def inner_make_def next_power_of_two_small allocate_buffer_def max_lookahead_def
      replicate_2)

lemmas ring_eval = ring_start_small prod_step_def cons_step_def slot_at_def slot_upd_def ring_index_def
  consumer_disconnected_def disconnected_id_def Let_def

subsection \<open>Properties\<close>

text \<open>
  Claim C1. The ring is a FIFO queue under every interleaving of the atomic steps of producer
  and consumer, counter wrap-around and disconnects included: no step fails, so no uninitialised
  slot is read and no index is out of range, the items taken out are a prefix of the items put in,
  and no more items are in flight than there are slots.
\<close>

theorem spsc_interleaved_fifo:
  assumes "reachable ring_init ring_step s"
  shows "cons_step s \<noteq> None \<and> prod_step x s \<noteq> None \<and>
     (\<exists>q. rs_pushed s = rs_popped s @ q \<and> length q \<le> unat (sp_capacity (rs_buf s)))"
proof -
  obtain n h l q where r: "ring_rel n h l q s" using ring.reachable_inv [OF assms] by (auto simp: ring_inv_def)
  have "length q \<le> unat (sp_capacity (rs_buf s))"
    using ring_relD(1) [OF r] core_room [OF ring_relD(1) [OF r]] by (simp add: ring_core_def spsc_room_def)
  with cons_step_ok [OF r] prod_step_ok [OF r, of x] ring_relD(5) [OF r] show ?thesis by auto
qed

theorem spsc_interleaved_fifo_witness:
  "\<exists>s. ring_run [Some 7, Some 7, Some 7, Some 7, None, Some 7, None, Some 8, None] (ring_start 1 (- 1)) = Some s \<and>
     rs_pushed s = [7::nat] \<and> rs_popped s = [7] \<and> rs_ppc s = PStart 8 \<and> cons_step s \<noteq> None"
proof -
  obtain s where s: "ring_run [Some 7, Some 7, Some 7, Some 7, None, Some 7, None, Some 8, None] (ring_start 1 (- 1)) = Some s"
    and "rs_pushed s = [7::nat]" "rs_popped s = [7]" "rs_ppc s = PStart 8"
    by (simp add: ring_eval)
  with spsc_interleaved_fifo [OF ring_run_reachable [OF s ring_start_reachable]] show ?thesis by simp
qed

text \<open>
  Claim C27. There is no data race on the values: whenever the producer is about to write a slot
  and the consumer is about to read one, the slots are different.
\<close>

theorem spsc_no_data_race:
  assumes "reachable ring_init ring_step s" and "rs_ppc s = PWrite v w" and "rs_cpc s = CRead u"
  shows "ring_index (rs_buf s) w \<noteq> ring_index (rs_buf s) u"
proof -
  obtain n h l q where r: "ring_rel n h l q s" using ring.reachable_inv [OF assms(1)] by (auto simp: ring_inv_def)
  note R = ring_relD [OF r]
  have w: "w = of_nat (h + length q)" "h + length q < l" and u: "u = of_nat h" "q \<noteq> []"
    using R(6,7) assms(2,3) by simp_all
  have "length q < 2 ^ n" using room_below_limit [OF r w(2)] .
  then have "(h + length q) mod 2 ^ n \<noteq> h mod 2 ^ n"
    using mod_add_inj [of "length q" "2 ^ n" 0 h] u(2) by simp
  then show ?thesis unfolding w(1) u(1) core_slot(1) [OF R(1)] .
qed

theorem spsc_no_data_race_witness:
  "\<exists>s. ring_run [Some 7, Some 7, Some 7, Some 7, Some 7, Some 8, Some 8, Some 8, None] (ring_start 2 0) = Some s \<and>
     rs_ppc s = PWrite (8::nat) 1 \<and> rs_cpc s = CRead 0 \<and> ring_index (rs_buf s) 1 \<noteq> ring_index (rs_buf s) 0"
proof -
  obtain s where s: "ring_run [Some 7, Some 7, Some 7, Some 7, Some 7, Some 8, Some 8, Some 8, None] (ring_start 2 0) = Some s"
    and pc: "rs_ppc s = PWrite (8::nat) 1" "rs_cpc s = CRead 0"
    by (simp add: ring_eval)
  from spsc_no_data_race [OF ring_run_reachable [OF s ring_start_reachable] pc] s pc show ?thesis by simp
qed

text \<open>
  The functions and the atomic steps agree: \<^verbatim>\<open>try_pop\<close> is what the consumer's steps do
  when nothing interrupts them, and \<^verbatim>\<open>try_push\<close> is what the producer's steps do.
\<close>

lemma spsc_steps_equiv:
  assumes "rs_cpc s = CIdle" and "rs_ppc s = PIdle"
    and "try_pop (rs_buf s) = Some (r, b)" and "try_push v (rs_buf s) = Some (r', b')"
  shows "(\<exists>k. run_steps cons_step k s = Some (s\<lparr>rs_buf := b, rs_popped := rs_popped s @ (case r of None \<Rightarrow> [] | Some x \<Rightarrow> [x])\<rparr>)) \<and>
     (\<exists>k. run_steps (prod_step v) k s =
        Some (case r' of None \<Rightarrow> s\<lparr>rs_buf := b', rs_pushed := rs_pushed s @ [v]\<rparr> | Some _ \<Rightarrow> s))"
proof
  show "\<exists>k. run_steps cons_step k s = Some (s\<lparr>rs_buf := b, rs_popped := rs_popped s @ (case r of None \<Rightarrow> [] | Some x \<Rightarrow> [x])\<rparr>)"
  proof (cases r)
    case None
    with try_pop_steps [OF assms(1,3)] show ?thesis by (intro exI [of _ 0]) simp
  next
    case (Some x)
    with try_pop_steps [OF assms(1,3)] show ?thesis by (intro exI [of _ 4]) simp
  qed
qed (use try_push_steps [OF assms(2,4)] in blast)

text \<open>
  Claim C35. Pushing items into a fresh queue and dropping the buffer, which pops until nothing
  is left, gives them back in order, for every list that fits and wherever the counters start;
  the loop ends.
\<close>

theorem spsc_roundtrip:
  assumes "unat c \<le> 2 ^ 63" and "length vs \<le> spsc_room (inner_make c i :: 'a spsc)"
  shows "\<exists>b b' :: 'a spsc. push_all try_push vs (inner_make c i) = Some ([], b) \<and> buffer_drop b = Some (vs, b')"
proof -
  have it: "spsc_items (inner_make c i :: 'a spsc) []" by (rule make_items [OF assms(1)])
  have "\<not> consumer_disconnected (inner_make c i :: 'a spsc)" by (simp add: consumer_disconnected_def disconnected_id_def)
  then obtain b :: "'a spsc" where b: "push_all try_push vs (inner_make c i) = Some ([], b)" "spsc_items b vs"
    using spscq.push_all_ok [OF it, of vs] assms(2) by auto
  with buffer_drop_items [OF b(2)] show ?thesis by blast
qed

theorem spsc_roundtrip_witness:
  "\<exists>b b'. push_all try_push [1, 2, 3 :: nat] (inner_make 3 (- 1)) = Some ([], b) \<and> buffer_drop b = Some ([1, 2, 3], b')"
  by (rule spsc_roundtrip) (simp_all add: spsc_room_def inner_make_def Let_def next_power_of_two_small)

text \<open>
  The reported size and free space are exact as long as the tail counter has not
  wrapped around; in the window in which the tail has wrapped and the head has not, the size is
  reported as 0 whatever the queue holds.
\<close>

lemma spsc_size:
  assumes "ring_at n h l q b" and "h < 2 ^ 64"
  shows "if h + length q < 2 ^ 64 then unat (buf_size b) = length q \<and> unat (free_space b) = spsc_room b - length q
     else buf_size b = 0 \<and> free_space b = sp_capacity b"
  using buf_size_ok [OF assms(1)] buf_size_wrapped [OF assms] by (auto simp: free_space_def)

end
