(* ===== verification/SharedChannel.thy ===== *)
theory SharedChannel
  imports SpscQueue OrderedMap
begin

section \<open>Shared channels (glommio/src/channels/shared\_channel.rs, glommio/src/reactor.rs)\<close>

text \<open>
  A channel between two executors over the ring of \<^verbatim>\<open>spsc_queue\<close>, with the registry in which each
  reactor keeps the tasks that wait for it. The two halves run on different threads: the calls of a half are
  cut into steps, one for each access to the ring, and the steps of the two halves interleave. The
  operations of the ring itself are atomic here; the theory of the ring justifies that. A reactor's
  notifier is named by the id of its executor; notifications only cut short the sleep of a reactor and are not
  recorded. A half is used by the tasks of its executor, so it is not used once the executor is gone.
\<close>

subsection \<open>The registry of a reactor\<close>

text \<open>An entry: the wakers that wait, and the test of how many may run; the test is a parameter.\<close>

record 'c shared_channels =
  sc_id :: nat
  sc_wakers_map :: "(nat \<times> (waker list \<times> 'c option)) list"
  sc_connection_wakers :: "waker list"
  sc_wakes :: "waker list"

definition shared_channels_new :: "'c shared_channels" where
  "shared_channels_new = \<lparr>sc_id = 0, sc_wakers_map = [], sc_connection_wakers = [], sc_wakes = []\<rparr>"

fun drain_ready :: "('c \<Rightarrow> usize) \<Rightarrow> (nat \<times> (waker list \<times> 'c option)) list \<Rightarrow> (waker list \<times> (nat \<times> (waker list \<times> 'c option)) list) option" where
  "drain_ready ev [] = Some ([], [])"
| "drain_ready ev ((i, pending, check) # m) =
     (if pending = [] then map_option (\<lambda>(rs, m'). (rs, (i, pending, check) # m')) (drain_ready ev m)
      else case check of
             None \<Rightarrow> None
           | Some c \<Rightarrow>
               (let room = min (unat (ev c)) (length pending)
                in map_option (\<lambda>(rs, m'). (rev (take room pending) @ rs, (i, drop room pending, check) # m')) (drain_ready ev m)))"

definition take_ready_wakers :: "('c \<Rightarrow> usize) \<Rightarrow> 'c shared_channels \<Rightarrow> (waker list \<times> 'c shared_channels) option" where
  "take_ready_wakers ev sc =
     map_option (\<lambda>(rs, m). (sc_connection_wakers sc @ rs, sc\<lparr>sc_connection_wakers := [], sc_wakers_map := m\<rparr>))
       (drain_ready ev (sc_wakers_map sc))"

definition register_shared_channel :: "'c \<Rightarrow> 'c shared_channels \<Rightarrow> (nat \<times> 'c shared_channels) option" where
  "register_shared_channel test sc =
     (let i = sc_id sc
      in if map_of (sc_wakers_map sc) i = None
         then Some (i, sc\<lparr>sc_id := i + 1, sc_wakers_map := bt_insert i ([], Some test) (sc_wakers_map sc)\<rparr>)
         else None)"

definition unregister_shared_channel :: "nat \<Rightarrow> 'c shared_channels \<Rightarrow> 'c shared_channels" where
  "unregister_shared_channel i sc = sc\<lparr>sc_wakers_map := bt_remove i (sc_wakers_map sc)\<rparr>"

definition add_shared_channel_connection_waker :: "waker \<Rightarrow> 'c shared_channels \<Rightarrow> 'c shared_channels" where
  "add_shared_channel_connection_waker w sc = sc\<lparr>sc_connection_wakers := sc_connection_wakers sc @ [w]\<rparr>"

definition add_shared_channel_waker :: "nat \<Rightarrow> waker \<Rightarrow> 'c shared_channels \<Rightarrow> 'c shared_channels" where
  "add_shared_channel_waker i w sc =
     (let (pending, check) = (case map_of (sc_wakers_map sc) i of None \<Rightarrow> ([], None) | Some e \<Rightarrow> e)
      in sc\<lparr>sc_wakers_map := bt_insert i (pending @ [w], check) (sc_wakers_map sc)\<rparr>)"

text \<open>The wakes that came from other executors are processed with the others and counted.\<close>

definition process_shared_channels :: "('c \<Rightarrow> usize) \<Rightarrow> nat \<Rightarrow> 'c shared_channels \<Rightarrow> (nat \<times> 'c shared_channels) option" where
  "process_shared_channels ev foreign_wakes sc =
     map_option (\<lambda>(ready, sc'). (length ready + foreign_wakes, sc'\<lparr>sc_wakes := sc_wakes sc' @ ready\<rparr>)) (take_ready_wakers ev sc)"

definition process_shared_channels_by_id :: "nat \<Rightarrow> 'c shared_channels \<Rightarrow> nat \<times> 'c shared_channels" where
  "process_shared_channels_by_id i sc =
     (case map_of (sc_wakers_map sc) i of
        None \<Rightarrow> (0, sc)
      | Some (pending, check) \<Rightarrow>
          (length pending, sc\<lparr>sc_wakers_map := bt_insert i ([], check) (sc_wakers_map sc), sc_wakes := sc_wakes sc @ pending\<rparr>))"

subsection \<open>Notifiers (glommio/src/sys/mod.rs)\<close>

text \<open>The notifier of an executor that exists; the placeholder for a disconnected peer always does.\<close>

definition get_sleep_notifier_for :: "usize set \<Rightarrow> usize \<Rightarrow> usize option" where
  "get_sleep_notifier_for live i = (if i = disconnected_id then Some disconnected_id else if i \<in> live then Some i else None)"

subsection \<open>The channel\<close>

text \<open>
  A half before \<^verbatim>\<open>connect\<close>, while it awaits its peer, connected with the id of its registration, and gone.
\<close>

datatype half = Unbound | Connecting nat | Connected nat | Gone

datatype check = CheckSender | CheckReceiver

definition check_room :: "'a spsc \<Rightarrow> check \<Rightarrow> usize" where
  "check_room b c =
     (case c of
        CheckSender \<Rightarrow> if consumer_disconnected b then sp_capacity b else free_space b
      | CheckReceiver \<Rightarrow> if producer_disconnected b then sp_capacity b else buf_size b)"

text \<open>
  The state records the executors that exist, the two that the halves are used on, the results
  of the calls so far and the items that were accepted.
  Where a half is in its call. A sender in \<^verbatim>\<open>try_send\<close>: at the first test, at the push, at the test
  after a failed push; the flag says that the call is made by \<^verbatim>\<open>send\<close>. A receiver in \<^verbatim>\<open>do_recv_one\<close>:
  at the pop, with what it knows of the peer, and at the test after a failed pop.
\<close>

datatype 'a send_pc = SIdle | SCheck bool 'a | SPush bool 'a | SRecheck bool 'a
datatype recv_pc = RIdle | RPop waker bool | RTest waker

datatype 'a send_result = SendOk | SendErr "'a glommio_error"

record 'a shared =
  sh_buf :: "'a spsc"
  sh_live :: "usize set"
  sh_sexec :: usize
  sh_rexec :: usize
  sh_snd :: half
  sh_sreg :: "check shared_channels"
  sh_spc :: "'a send_pc"
  sh_sres :: "'a send_result list"
  sh_sent :: "'a list"
  sh_rcv :: half
  sh_rreg :: "check shared_channels"
  sh_rpc :: recv_pc
  sh_rres :: "'a option list"

definition new_bounded :: "usize \<Rightarrow> usize set \<Rightarrow> usize \<Rightarrow> usize \<Rightarrow> 'a shared" where
  "new_bounded cap live sex rex =
     \<lparr>sh_buf = spsc_make cap, sh_live = live, sh_sexec = sex, sh_rexec = rex,
      sh_snd = Unbound, sh_sreg = shared_channels_new, sh_spc = SIdle, sh_sres = [], sh_sent = [],
      sh_rcv = Unbound, sh_rreg = shared_channels_new, sh_rpc = RIdle, sh_rres = []\<rparr>"

subsection \<open>Connecting\<close>

text \<open>\<^verbatim>\<open>Connector::poll\<close> of either half; the result is the notifier of the peer.\<close>

definition sender_connector_poll :: "waker \<Rightarrow> 'a shared \<Rightarrow> usize poll \<times> 'a shared" where
  "sender_connector_poll w s =
     (let i = producer_peer_id (sh_buf s)
      in if i = 0 then (Pending, s\<lparr>sh_sreg := add_shared_channel_connection_waker w (sh_sreg s)\<rparr>)
         else case get_sleep_notifier_for (sh_live s) i of
                Some n \<Rightarrow> (Ready n, s)
              | None \<Rightarrow> (Ready disconnected_id, s\<lparr>sh_buf := producer_disconnect_peer (sh_buf s)\<rparr>))"

definition receiver_connector_poll :: "waker \<Rightarrow> 'a shared \<Rightarrow> usize poll \<times> 'a shared" where
  "receiver_connector_poll w s =
     (let i = consumer_peer_id (sh_buf s)
      in if i = 0 then (Pending, s\<lparr>sh_rreg := add_shared_channel_connection_waker w (sh_rreg s)\<rparr>)
         else case get_sleep_notifier_for (sh_live s) i of
                Some n \<Rightarrow> (Ready n, s)
              | None \<Rightarrow> (Ready disconnected_id, s\<lparr>sh_buf := consumer_disconnect_peer (sh_buf s)\<rparr>))"

text \<open>\<^verbatim>\<open>connect\<close> on executor \<open>ex\<close>, up to the await of the peer, and a poll of that await.\<close>

definition sender_connect :: "usize \<Rightarrow> 'a shared \<Rightarrow> 'a shared option" where
  "sender_connect ex s =
     (if sh_snd s = Unbound then
        Option.bind (producer_connect ex (sh_buf s)) (\<lambda>b.
        Option.bind (register_shared_channel CheckSender (sh_sreg s)) (\<lambda>(i, reg).
          Some (s\<lparr>sh_buf := b, sh_sreg := reg, sh_snd := Connecting i\<rparr>)))
      else None)"

definition receiver_connect :: "usize \<Rightarrow> 'a shared \<Rightarrow> 'a shared option" where
  "receiver_connect ex s =
     (if sh_rcv s = Unbound then
        Option.bind (consumer_connect ex (sh_buf s)) (\<lambda>b.
        Option.bind (register_shared_channel CheckReceiver (sh_rreg s)) (\<lambda>(i, reg).
          Some (s\<lparr>sh_buf := b, sh_rreg := reg, sh_rcv := Connecting i\<rparr>)))
      else None)"

definition sender_connect_poll :: "waker \<Rightarrow> 'a shared \<Rightarrow> 'a shared option" where
  "sender_connect_poll w s =
     (case sh_snd s of
        Connecting i \<Rightarrow> (case sender_connector_poll w s of (Pending, s') \<Rightarrow> Some s' | (Ready _, s') \<Rightarrow> Some (s'\<lparr>sh_snd := Connected i\<rparr>))
      | _ \<Rightarrow> None)"

definition receiver_connect_poll :: "waker \<Rightarrow> 'a shared \<Rightarrow> 'a shared option" where
  "receiver_connect_poll w s =
     (case sh_rcv s of
        Connecting i \<Rightarrow> (case receiver_connector_poll w s of (Pending, s') \<Rightarrow> Some s' | (Ready _, s') \<Rightarrow> Some (s'\<lparr>sh_rcv := Connected i\<rparr>))
      | _ \<Rightarrow> None)"

text \<open>
  Dropping the future of \<^verbatim>\<open>connect\<close> while it awaits drops its references to the ring; the half it
  took out of the \<^verbatim>\<open>SharedSender\<close> or \<^verbatim>\<open>SharedReceiver\<close> has no destructor.
\<close>

definition sender_connect_cancel :: "'a shared \<Rightarrow> 'a shared" where
  "sender_connect_cancel s = s\<lparr>sh_snd := Gone\<rparr>"

definition receiver_connect_cancel :: "'a shared \<Rightarrow> 'a shared" where
  "receiver_connect_cancel s = s\<lparr>sh_rcv := Gone\<rparr>"

subsection \<open>Sending\<close>

definition sh_wait_for_room :: "nat \<Rightarrow> waker \<Rightarrow> 'a shared \<Rightarrow> unit poll \<times> 'a shared" where
  "sh_wait_for_room i w s =
     (if free_space (sh_buf s) > 0 \<or> producer_disconnected (sh_buf s) \<or> consumer_disconnected (sh_buf s)
      then (Ready (), s)
      else (Pending, s\<lparr>sh_sreg := add_shared_channel_waker i w (sh_sreg s)\<rparr>))"

definition sh_send :: "'a \<Rightarrow> waker \<Rightarrow> 'a shared \<Rightarrow> 'a shared option" where
  "sh_send v w s =
     (case sh_snd s of
        Connected i \<Rightarrow> (case sh_wait_for_room i w s of (Pending, s') \<Rightarrow> Some s' | (Ready _, s') \<Rightarrow> Some (s'\<lparr>sh_spc := SCheck True v\<rparr>))
      | _ \<Rightarrow> None)"

text \<open>The end of \<^verbatim>\<open>try_send\<close>, and of \<^verbatim>\<open>send\<close>, which panics when the error is \<^verbatim>\<open>WouldBlock\<close>.\<close>

definition sh_send_done :: "bool \<Rightarrow> 'a send_result \<Rightarrow> 'a shared \<Rightarrow> 'a shared option" where
  "sh_send_done in_send r s =
     (case r of
        SendErr (WouldBlock _) \<Rightarrow> if in_send then None else Some (s\<lparr>sh_spc := SIdle, sh_sres := sh_sres s @ [r]\<rparr>)
      | _ \<Rightarrow> Some (s\<lparr>sh_spc := SIdle, sh_sres := sh_sres s @ [r]\<rparr>))"

definition sh_try_send_step :: "'a shared \<Rightarrow> 'a shared option" where
  "sh_try_send_step s =
     (case sh_spc s of
        SIdle \<Rightarrow> None
      | SCheck b v \<Rightarrow>
          (if consumer_disconnected (sh_buf s) \<or> producer_disconnected (sh_buf s)
           then sh_send_done b (SendErr (Closed (ResChannel v))) s
           else Some (s\<lparr>sh_spc := SPush b v\<rparr>))
      | SPush b v \<Rightarrow>
          (case try_push v (sh_buf s) of
             None \<Rightarrow> None
           | Some (None, buf) \<Rightarrow> sh_send_done b SendOk (s\<lparr>sh_buf := buf, sh_sent := sh_sent s @ [v]\<rparr>)
           | Some (Some v', buf) \<Rightarrow> Some (s\<lparr>sh_buf := buf, sh_spc := SRecheck b v'\<rparr>))
      | SRecheck b v \<Rightarrow>
          sh_send_done b (SendErr (if consumer_disconnected (sh_buf s) \<or> producer_disconnected (sh_buf s)
                                   then Closed (ResChannel v) else WouldBlock (ResChannel v))) s)"

definition sh_close :: "'a shared \<Rightarrow> 'a shared option" where
  "sh_close s =
     (case sh_snd s of
        Connected i \<Rightarrow>
          (let (was, b) = buf_disconnect_producer (sh_buf s)
           in Some (if was then s\<lparr>sh_buf := b\<rparr>
                    else s\<lparr>sh_buf := b, sh_sreg := snd (process_shared_channels_by_id i (sh_sreg s))\<rparr>))
      | _ \<Rightarrow> None)"

subsection \<open>Receiving\<close>

definition sh_recv :: "waker \<Rightarrow> 'a shared \<Rightarrow> 'a shared option" where
  "sh_recv w s = (case sh_rcv s of Connected i \<Rightarrow> Some (s\<lparr>sh_rpc := RPop w False\<rparr>) | _ \<Rightarrow> None)"

definition sh_recv_step :: "'a shared \<Rightarrow> 'a shared option" where
  "sh_recv_step s =
     (case (sh_rpc s, sh_rcv s) of
        (RPop w disconnected, Connected i) \<Rightarrow>
          (case try_pop (sh_buf s) of
             None \<Rightarrow> None
           | Some (None, buf) \<Rightarrow>
               Some (if disconnected then s\<lparr>sh_buf := buf, sh_rpc := RIdle, sh_rres := sh_rres s @ [None]\<rparr>
                     else s\<lparr>sh_buf := buf, sh_rpc := RTest w\<rparr>)
           | Some (Some v, buf) \<Rightarrow> Some (s\<lparr>sh_buf := buf, sh_rpc := RIdle, sh_rres := sh_rres s @ [Some v]\<rparr>))
      | (RTest w, Connected i) \<Rightarrow>
          Some (if producer_disconnected (sh_buf s) then s\<lparr>sh_rpc := RPop w True\<rparr>
                else s\<lparr>sh_rpc := RIdle, sh_rreg := add_shared_channel_waker i w (sh_rreg s)\<rparr>)
      | _ \<Rightarrow> None)"

subsection \<open>Dropping a half\<close>

text \<open>
  A half that never connected only marks the ring. A connected half leaves its registry, unless
  the ring was marked before. \<open>alive\<close> says that the reactor of the half can be upgraded.
\<close>

definition sender_drop_shared :: "bool \<Rightarrow> 'a shared \<Rightarrow> 'a shared" where
  "sender_drop_shared alive s =
     (let (was, b) = buf_disconnect_producer (sh_buf s)
      in case sh_snd s of
           Unbound \<Rightarrow> s\<lparr>sh_buf := b, sh_snd := Gone\<rparr>
         | Connected i \<Rightarrow>
             (if \<not> was \<and> alive then s\<lparr>sh_buf := b, sh_snd := Gone, sh_sreg := unregister_shared_channel i (sh_sreg s)\<rparr>
              else s\<lparr>sh_buf := b, sh_snd := Gone\<rparr>)
         | _ \<Rightarrow> s)"

definition receiver_drop_shared :: "bool \<Rightarrow> 'a shared \<Rightarrow> 'a shared" where
  "receiver_drop_shared alive s =
     (let (was, b) = buf_disconnect_consumer (sh_buf s)
      in case sh_rcv s of
           Unbound \<Rightarrow> s\<lparr>sh_buf := b, sh_rcv := Gone\<rparr>
         | Connected i \<Rightarrow>
             (if \<not> was \<and> alive then s\<lparr>sh_buf := b, sh_rcv := Gone, sh_rreg := unregister_shared_channel i (sh_rreg s)\<rparr>
              else s\<lparr>sh_buf := b, sh_rcv := Gone\<rparr>)
         | _ \<Rightarrow> s)"

subsection \<open>The two threads\<close>

datatype 'a shop =
    ShConnectS | ShConnectPollS waker | ShCancelS | ShSend 'a waker | ShTrySend 'a | ShSendStep | ShClose | ShDropS | ShProcessS nat
  | ShConnectR | ShConnectPollR waker | ShCancelR | ShRecv waker | ShRecvStep | ShDropR | ShProcessR nat
  | ShExecGone usize

fun sh_exec :: "'a shop \<Rightarrow> 'a shared \<Rightarrow> 'a shared option" where
  "sh_exec ShConnectS s = sender_connect (sh_sexec s) s"
| "sh_exec (ShConnectPollS w) s = sender_connect_poll w s"
| "sh_exec ShCancelS s = Some (sender_connect_cancel s)"
| "sh_exec (ShSend v w) s = sh_send v w s"
| "sh_exec (ShTrySend v) s = Some (s\<lparr>sh_spc := SCheck False v\<rparr>)"
| "sh_exec ShSendStep s = sh_try_send_step s"
| "sh_exec ShClose s = sh_close s"
| "sh_exec ShDropS s = Some (sender_drop_shared (sh_sexec s \<in> sh_live s) s)"
| "sh_exec (ShProcessS k) s =
     map_option (\<lambda>(_, reg). s\<lparr>sh_sreg := reg\<rparr>) (process_shared_channels (check_room (sh_buf s)) k (sh_sreg s))"
| "sh_exec ShConnectR s = receiver_connect (sh_rexec s) s"
| "sh_exec (ShConnectPollR w) s = receiver_connect_poll w s"
| "sh_exec ShCancelR s = Some (receiver_connect_cancel s)"
| "sh_exec (ShRecv w) s = sh_recv w s"
| "sh_exec ShRecvStep s = sh_recv_step s"
| "sh_exec ShDropR s = Some (receiver_drop_shared (sh_rexec s \<in> sh_live s) s)"
| "sh_exec (ShProcessR k) s =
     map_option (\<lambda>(_, reg). s\<lparr>sh_rreg := reg\<rparr>) (process_shared_channels (check_room (sh_buf s)) k (sh_rreg s))"
| "sh_exec (ShExecGone e) s = Some (s\<lparr>sh_live := sh_live s - {e}\<rparr>)"

text \<open>A half starts a call when it is in none, and its executor exists.\<close>

definition connecting :: "half \<Rightarrow> bool" where
  "connecting h = (case h of Connecting _ \<Rightarrow> True | _ \<Rightarrow> False)"

definition connected :: "half \<Rightarrow> bool" where
  "connected h = (case h of Connected _ \<Rightarrow> True | _ \<Rightarrow> False)"

fun sh_enabled :: "'a shop \<Rightarrow> 'a shared \<Rightarrow> bool" where
  "sh_enabled ShConnectS s = (sh_snd s = Unbound \<and> sh_sexec s \<in> sh_live s)"
| "sh_enabled (ShConnectPollS w) s = (connecting (sh_snd s) \<and> sh_sexec s \<in> sh_live s)"
| "sh_enabled ShCancelS s = connecting (sh_snd s)"
| "sh_enabled (ShSend v w) s = (connected (sh_snd s) \<and> sh_spc s = SIdle \<and> sh_sexec s \<in> sh_live s)"
| "sh_enabled (ShTrySend v) s = (connected (sh_snd s) \<and> sh_spc s = SIdle \<and> sh_sexec s \<in> sh_live s)"
| "sh_enabled ShSendStep s = (sh_spc s \<noteq> SIdle)"
| "sh_enabled ShClose s = (connected (sh_snd s) \<and> sh_spc s = SIdle \<and> sh_sexec s \<in> sh_live s)"
| "sh_enabled ShDropS s = ((sh_snd s = Unbound \<or> connected (sh_snd s)) \<and> sh_spc s = SIdle)"
| "sh_enabled (ShProcessS k) s = (sh_spc s = SIdle \<and> sh_sexec s \<in> sh_live s)"
| "sh_enabled ShConnectR s = (sh_rcv s = Unbound \<and> sh_rexec s \<in> sh_live s)"
| "sh_enabled (ShConnectPollR w) s = (connecting (sh_rcv s) \<and> sh_rexec s \<in> sh_live s)"
| "sh_enabled ShCancelR s = connecting (sh_rcv s)"
| "sh_enabled (ShRecv w) s = (connected (sh_rcv s) \<and> sh_rpc s = RIdle \<and> sh_rexec s \<in> sh_live s)"
| "sh_enabled ShRecvStep s = (sh_rpc s \<noteq> RIdle)"
| "sh_enabled ShDropR s = ((sh_rcv s = Unbound \<or> connected (sh_rcv s)) \<and> sh_rpc s = RIdle)"
| "sh_enabled (ShProcessR k) s = (sh_rpc s = RIdle \<and> sh_rexec s \<in> sh_live s)"
| "sh_enabled (ShExecGone e) s = ((e = sh_sexec s \<longrightarrow> sh_spc s = SIdle) \<and> (e = sh_rexec s \<longrightarrow> sh_rpc s = RIdle))"

inductive sh_step :: "'a shared \<Rightarrow> 'a shared \<Rightarrow> bool" where
  "sh_enabled op s \<Longrightarrow> sh_exec op s = Some s' \<Longrightarrow> sh_step s s'"

inductive_cases sh_stepE: "sh_step s s'"

definition sh_init :: "'a shared \<Rightarrow> bool" where
  "sh_init s \<longleftrightarrow> (\<exists>cap live sex rex. s = new_bounded cap live sex rex \<and> unat cap \<le> 2 ^ 63 \<and>
     sex \<noteq> 0 \<and> sex \<noteq> disconnected_id \<and> rex \<noteq> 0 \<and> rex \<noteq> disconnected_id)"

lemma half_cases [simp]: "connecting h \<longleftrightarrow> (\<exists>i. h = Connecting i)" "connected h \<longleftrightarrow> (\<exists>i. h = Connected i)"
  by (cases h; simp add: connecting_def connected_def)+

subsection \<open>The ring by positions\<close>

definition ring_pos :: "'a spsc \<Rightarrow> nat \<Rightarrow> 'a list \<Rightarrow> bool" where
  "ring_pos b h q \<longleftrightarrow> (\<exists>n l. ring_at n h l q b)"

lemma ring_pos_frame [simp]:
  "ring_pos (b\<lparr>sp_producer_id := i\<rparr>) h q = ring_pos b h q" "ring_pos (b\<lparr>sp_consumer_id := i\<rparr>) h q = ring_pos b h q"
  by (simp_all add: ring_pos_def ring_at_def)

lemma ring_pos_pop:
  assumes "ring_pos b h q"
  shows "\<exists>b'. try_pop b = Some (case q of [] \<Rightarrow> None | x # _ \<Rightarrow> Some x, b') \<and>
     ring_pos b' (if q = [] then h else Suc h) (tl q) \<and> sp_producer_id b' = sp_producer_id b \<and> sp_consumer_id b' = sp_consumer_id b \<and>
     spsc_room b' = spsc_room b"
proof -
  obtain n l where r: "ring_at n h l q b" using assms by (auto simp: ring_pos_def)
  show ?thesis
  proof (cases q)
    case Nil
    then show ?thesis using try_pop_ok [OF r] assms by simp
  next
    case (Cons x xs)
    then show ?thesis using try_pop_ok [OF r] try_pop_at [of n h l x xs b] r by (auto simp: ring_pos_def spsc_room_def)
  qed
qed

lemma ring_pos_push:
  assumes "ring_pos b h q" "\<not> consumer_disconnected b" "length q < spsc_room b"
  shows "\<exists>b'. try_push v b = Some (None, b') \<and> ring_pos b' h (q @ [v]) \<and> sp_producer_id b' = sp_producer_id b \<and>
     sp_consumer_id b' = sp_consumer_id b \<and> spsc_room b' = spsc_room b"
proof -
  obtain n l where r: "ring_at n h l q b" using assms(1) by (auto simp: ring_pos_def)
  have "spsc_room b = 2 ^ n" using r by (auto simp: ring_at_def core_room)
  then obtain l' where p: "try_push v b = Some (None, pushed_at (h + length q) v (b\<lparr>sp_limit := of_nat l'\<rparr>))"
    "h + length q < l'" "l' \<le> h + 2 ^ n"
    using try_push_ok [OF r assms(2), of v] assms(3) by auto
  have "ring_at n h l' (q @ [v]) (pushed_at (h + length q) v (b\<lparr>sp_limit := of_nat l'\<rparr>))"
    using p by (intro pushed_at_ok ring_at_limit [OF r]) simp_all
  then show ?thesis using p(1) by (auto simp: ring_pos_def spsc_room_def pushed_at_def)
qed

lemma ring_pos_items: "ring_pos b h q \<Longrightarrow> spsc_items b q"
  by (auto simp: ring_pos_def spsc_items_def)

lemma ring_pos_full:
  "ring_pos b h q \<Longrightarrow> consumer_disconnected b \<or> \<not> length q < spsc_room b \<Longrightarrow> try_push v b = Some (Some v, b)"
  using spscq.push_closed [of b v] spscq.push_full [OF ring_pos_items, of b h q v] spscq.items_room [OF ring_pos_items, of b h q]
  by (auto simp: not_less)

lemma ring_pos_free:
  assumes "ring_pos b h q" "h + length q < 2 ^ 64" "free_space b > 0"
  shows "length q < spsc_room b"
proof -
  obtain n l where r: "ring_at n h l q b" using assms(1) by (auto simp: ring_pos_def)
  from buf_size_ok(2) [OF r assms(2)] assms(3) show ?thesis by (simp add: word_gt_0_iff_unat)
qed

subsection \<open>Well-formed registries\<close>

definition entries_ok :: "nat \<Rightarrow> (nat \<times> (waker list \<times> 'c option)) list \<Rightarrow> bool" where
  "entries_ok n m \<longleftrightarrow> (\<forall>e\<in>set m. fst e < n \<and> snd (snd e) \<noteq> None)"

definition sreg_ok :: "'c shared_channels \<Rightarrow> bool" where
  "sreg_ok sc \<longleftrightarrow> entries_ok (sc_id sc) (sc_wakers_map sc)"

definition is_registered :: "nat \<Rightarrow> 'c shared_channels \<Rightarrow> bool" where
  "is_registered i sc \<longleftrightarrow> map_of (sc_wakers_map sc) i \<noteq> None"

lemma entries_ok_insert: "entries_ok n m \<Longrightarrow> i < n \<Longrightarrow> c \<noteq> None \<Longrightarrow> entries_ok n (bt_insert i (p, c) m)"
  by (induction i "(p, c)" m rule: bt_insert.induct) (auto simp: entries_ok_def)

lemma entries_ok_mono: "entries_ok n m \<Longrightarrow> n \<le> k \<Longrightarrow> entries_ok k m"
  by (auto simp: entries_ok_def)

lemma entries_ok_lookup: "entries_ok n m \<Longrightarrow> map_of m i = Some (p, c) \<Longrightarrow> i < n \<and> c \<noteq> None"
  by (force simp: entries_ok_def dest: map_of_SomeD)

lemma channels_register_ok:
  assumes "sreg_ok sc"
  shows "\<exists>sc'. register_shared_channel c sc = Some (sc_id sc, sc') \<and> sreg_ok sc' \<and> is_registered (sc_id sc) sc'"
proof -
  have "map_of (sc_wakers_map sc) (sc_id sc) = None"
    using assms entries_ok_lookup by (cases "map_of (sc_wakers_map sc) (sc_id sc)") (fastforce simp: sreg_ok_def)+
  moreover have "entries_ok (sc_id sc + 1) (sc_wakers_map sc)" using assms entries_ok_mono by (fastforce simp: sreg_ok_def)
  ultimately show ?thesis
    using entries_ok_insert [of "sc_id sc + 1" "sc_wakers_map sc" "sc_id sc" "Some c" "[]"]
    by (simp add: register_shared_channel_def Let_def sreg_ok_def is_registered_def)
qed

lemma add_waker_ok:
  assumes "sreg_ok sc" "is_registered i sc"
  shows "sreg_ok (add_shared_channel_waker i w sc)" "is_registered j (add_shared_channel_waker i w sc) = is_registered j sc"
proof -
  obtain p c where e: "map_of (sc_wakers_map sc) i = Some (p, c)" using assms(2) by (auto simp: is_registered_def)
  then have "i < sc_id sc" "c \<noteq> None" using assms(1) entries_ok_lookup by (fastforce simp: sreg_ok_def)+
  then show "sreg_ok (add_shared_channel_waker i w sc)"
    using assms(1) e entries_ok_insert by (simp add: add_shared_channel_waker_def sreg_ok_def)
  show "is_registered j (add_shared_channel_waker i w sc) = is_registered j sc" using e by (auto simp: add_shared_channel_waker_def is_registered_def)
qed

lemma connection_waker_ok [simp]:
  "sreg_ok (add_shared_channel_connection_waker w sc) = sreg_ok sc"
  "is_registered j (add_shared_channel_connection_waker w sc) = is_registered j sc"
  by (simp_all add: add_shared_channel_connection_waker_def sreg_ok_def is_registered_def)

lemma unregister_ok: "sreg_ok sc \<Longrightarrow> sreg_ok (unregister_shared_channel i sc)"
  by (auto simp: unregister_shared_channel_def sreg_ok_def entries_ok_def bt_remove_def)

lemma process_by_id_ok:
  assumes "sreg_ok sc"
  shows "sreg_ok (snd (process_shared_channels_by_id i sc))" "is_registered j (snd (process_shared_channels_by_id i sc)) = is_registered j sc"
proof -
  show "sreg_ok (snd (process_shared_channels_by_id i sc))"
  proof (cases "map_of (sc_wakers_map sc) i")
    case (Some e)
    obtain p c where e: "e = (p, c)" by fastforce
    then have "i < sc_id sc" "c \<noteq> None" using assms Some entries_ok_lookup by (fastforce simp: sreg_ok_def)+
    then show ?thesis using assms Some e entries_ok_insert by (simp add: process_shared_channels_by_id_def sreg_ok_def)
  qed (simp add: process_shared_channels_by_id_def assms)
  show "is_registered j (snd (process_shared_channels_by_id i sc)) = is_registered j sc"
    by (auto simp: process_shared_channels_by_id_def is_registered_def split: option.splits)
qed

lemma drain_ok:
  "entries_ok n m \<Longrightarrow> \<exists>rs m'. drain_ready ev m = Some (rs, m') \<and> entries_ok n m' \<and> (\<forall>j. map_of m' j = None \<longleftrightarrow> map_of m j = None)"
proof (induction m)
  case (Cons e m)
  obtain i p c where e: "e = (i, p, c)" by (metis surj_pair)
  obtain rs m' where "drain_ready ev m = Some (rs, m')" "entries_ok n m'" "\<forall>j. map_of m' j = None \<longleftrightarrow> map_of m j = None"
    using Cons by (auto simp: entries_ok_def)
  then show ?case using Cons.prems e by (cases "p = []") (auto simp: entries_ok_def Let_def)
qed (simp add: entries_ok_def)

lemma channels_process_ok:
  assumes "sreg_ok sc"
  shows "\<exists>n sc'. process_shared_channels ev k sc = Some (n, sc') \<and> sreg_ok sc' \<and> (\<forall>j. is_registered j sc' = is_registered j sc)"
  using drain_ok [of "sc_id sc" "sc_wakers_map sc" ev] assms
  by (auto simp: process_shared_channels_def take_ready_wakers_def sreg_ok_def is_registered_def simp del: not_None_eq)

subsection \<open>The invariant of the channel\<close>

text \<open>
  \<open>g\<close> are the items received, \<open>q\<close> those in the ring, \<open>k\<close> the number of receives that ended
  with nothing.
\<close>

abbreviation sh_pd :: "'a shared \<Rightarrow> bool" where
  "sh_pd s \<equiv> sp_producer_id (sh_buf s) = disconnected_id"

abbreviation sh_cd :: "'a shared \<Rightarrow> bool" where
  "sh_cd s \<equiv> sp_consumer_id (sh_buf s) = disconnected_id"

definition sh_core :: "'a list \<Rightarrow> 'a list \<Rightarrow> nat \<Rightarrow> 'a shared \<Rightarrow> bool" where
  "sh_core g q k s \<longleftrightarrow> ring_pos (sh_buf s) (length g) q \<and> sh_sent s = g @ q \<and> sh_rres s = map Some g @ replicate k None \<and>
     (0 < k \<longrightarrow> sh_pd s \<and> q = [])"

definition sh_ids :: "'a shared \<Rightarrow> bool" where
  "sh_ids s \<longleftrightarrow> sh_sexec s \<notin> {0, disconnected_id} \<and> sh_rexec s \<notin> {0, disconnected_id} \<and>
     (if sh_snd s = Unbound then sp_producer_id (sh_buf s) = 0 else sp_producer_id (sh_buf s) \<in> {sh_sexec s, disconnected_id}) \<and>
     (if sh_rcv s = Unbound then sp_consumer_id (sh_buf s) = 0 else sp_consumer_id (sh_buf s) \<in> {sh_rexec s, disconnected_id})"

definition half_ok :: "half \<Rightarrow> 'c shared_channels \<Rightarrow> bool" where
  "half_ok h reg \<longleftrightarrow> sreg_ok reg \<and> (\<forall>i. h = Connecting i \<or> h = Connected i \<longrightarrow> is_registered i reg)"

definition send_ok :: "'a list \<Rightarrow> 'a shared \<Rightarrow> bool" where
  "send_ok q s \<longleftrightarrow> (sh_spc s \<noteq> SIdle \<longrightarrow> (\<exists>i. sh_snd s = Connected i) \<and> sh_sexec s \<in> sh_live s) \<and>
     (\<forall>b v. sh_spc s = SPush b v \<or> sh_spc s = SRecheck b v \<longrightarrow> \<not> sh_pd s) \<and>
     (length (sh_sent s) < 2 ^ 64 \<longrightarrow>
        (\<forall>v. sh_spc s = SCheck True v \<or> sh_spc s = SPush True v \<longrightarrow> length q < spsc_room (sh_buf s) \<or> sh_pd s \<or> sh_cd s) \<and>
        (\<forall>v. sh_spc s = SRecheck True v \<longrightarrow> sh_cd s))"

definition recv_ok :: "'a shared \<Rightarrow> bool" where
  "recv_ok s \<longleftrightarrow> (sh_rpc s \<noteq> RIdle \<longrightarrow> (\<exists>i. sh_rcv s = Connected i) \<and> sh_rexec s \<in> sh_live s) \<and>
     (\<forall>w. sh_rpc s = RPop w True \<longrightarrow> sh_pd s)"

definition sh_inv :: "'a shared \<Rightarrow> bool" where
  "sh_inv s \<longleftrightarrow> (\<exists>g q k. sh_core g q k s \<and> send_ok q s) \<and> recv_ok s \<and> sh_ids s \<and>
     half_ok (sh_snd s) (sh_sreg s) \<and> half_ok (sh_rcv s) (sh_rreg s)"

lemmas sh_parts = sh_inv_def sh_core_def send_ok_def recv_ok_def sh_ids_def
lemmas disconnect_defs = producer_disconnected_def consumer_disconnected_def buf_disconnect_producer_def buf_disconnect_consumer_def
  producer_disconnect_peer_def consumer_disconnect_peer_def producer_peer_id_def consumer_peer_id_def

lemma disconnected_nonzero [simp]: "disconnected_id \<noteq> 0" "0 \<noteq> disconnected_id"
  by (simp_all add: disconnected_id_def)

lemma room_frame [simp]:
  "spsc_room (b\<lparr>sp_producer_id := i\<rparr>) = spsc_room b" "spsc_room (b\<lparr>sp_consumer_id := i\<rparr>) = spsc_room b"
  by (simp_all add: spsc_room_def)

text \<open>An operation keeps the invariant and fails only once the counters may have wrapped around.\<close>

definition keeps :: "'a shared \<Rightarrow> 'a shared option \<Rightarrow> bool" where
  "keeps s r \<longleftrightarrow> (case r of None \<Rightarrow> 2 ^ 64 \<le> length (sh_sent s) | Some s' \<Rightarrow> sh_inv s')"

lemma keeps_simps [simp]: "keeps s None = (2 ^ 64 \<le> length (sh_sent s))" "keeps s (Some s') = sh_inv s'"
  by (simp_all add: keeps_def)

lemma half_okI:
  "half_ok h reg \<Longrightarrow> half_ok Gone reg" "half_ok (Connecting i) reg \<Longrightarrow> half_ok (Connected i) reg"
  "half_ok h reg \<Longrightarrow> half_ok h (add_shared_channel_connection_waker w reg)"
  "half_ok (Connected i) reg \<Longrightarrow> half_ok (Connected i) (add_shared_channel_waker i w reg)"
  "half_ok h reg \<Longrightarrow> half_ok Gone (unregister_shared_channel i reg)"
  "half_ok h reg \<Longrightarrow> half_ok h (snd (process_shared_channels_by_id i reg))"
  by (auto simp: half_ok_def add_waker_ok unregister_ok process_by_id_ok)

lemma half_ok_register:
  assumes "half_ok h reg"
  shows "\<exists>i reg'. register_shared_channel c reg = Some (i, reg') \<and> half_ok (Connecting i) reg'"
  using channels_register_ok [of reg c] assms by (auto simp: half_ok_def)

lemma sh_invI:
  "sh_core g q k s \<Longrightarrow> send_ok q s \<Longrightarrow> recv_ok s \<Longrightarrow> sh_ids s \<Longrightarrow> half_ok (sh_snd s) (sh_sreg s) \<Longrightarrow> half_ok (sh_rcv s) (sh_rreg s) \<Longrightarrow> sh_inv s"
  by (auto simp: sh_inv_def)

lemma sh_invE:
  assumes "sh_inv s"
  obtains g q k where "sh_core g q k s" "send_ok q s" "recv_ok s" "sh_ids s" "half_ok (sh_snd s) (sh_sreg s)" "half_ok (sh_rcv s) (sh_rreg s)"
  using assms by (auto simp: sh_inv_def)

lemma keeps_sender_connect:
  assumes "sh_inv s" "sh_snd s = Unbound"
  shows "keeps s (sender_connect (sh_sexec s) s)"
proof -
  obtain g q k where p: "sh_core g q k s" "send_ok q s" "recv_ok s" "sh_ids s" "half_ok (sh_snd s) (sh_sreg s)" "half_ok (sh_rcv s) (sh_rreg s)"
    using assms(1) by (rule sh_invE)
  obtain i reg where r: "register_shared_channel CheckSender (sh_sreg s) = Some (i, reg)" "half_ok (Connecting i) reg"
    using half_ok_register [OF p(5)] by blast
  let ?s = "s\<lparr>sh_buf := (sh_buf s)\<lparr>sp_producer_id := sh_sexec s\<rparr>, sh_sreg := reg, sh_snd := Connecting i\<rparr>"
  have "sh_inv ?s"
  proof (rule sh_invI [of g q k])
    show "sh_core g q k ?s" using p(1,4) assms(2) by (auto simp: sh_core_def sh_ids_def)
    show "send_ok q ?s" using p(2) assms(2) by (auto simp: send_ok_def)
    show "recv_ok ?s" using p(3,4) assms(2) by (auto simp: recv_ok_def sh_ids_def)
    show "sh_ids ?s" using p(4) by (auto simp: sh_ids_def)
  qed (use p r in simp_all)
  then show ?thesis using p(4) r(1) assms(2) by (simp add: sender_connect_def producer_connect_def sh_ids_def)
qed

lemma keeps_receiver_connect:
  assumes "sh_inv s" "sh_rcv s = Unbound"
  shows "keeps s (receiver_connect (sh_rexec s) s)"
proof -
  obtain g q k where p: "sh_core g q k s" "send_ok q s" "recv_ok s" "sh_ids s" "half_ok (sh_snd s) (sh_sreg s)" "half_ok (sh_rcv s) (sh_rreg s)"
    using assms(1) by (rule sh_invE)
  obtain i reg where r: "register_shared_channel CheckReceiver (sh_rreg s) = Some (i, reg)" "half_ok (Connecting i) reg"
    using half_ok_register [OF p(6)] by blast
  let ?s = "s\<lparr>sh_buf := (sh_buf s)\<lparr>sp_consumer_id := sh_rexec s\<rparr>, sh_rreg := reg, sh_rcv := Connecting i\<rparr>"
  have "sh_inv ?s"
  proof (rule sh_invI [of g q k])
    show "sh_core g q k ?s" using p(1) by (auto simp: sh_core_def)
    show "send_ok q ?s" using p(2,4) assms(2) by (auto simp: send_ok_def sh_ids_def)
    show "recv_ok ?s" using p(3) assms(2) by (auto simp: recv_ok_def)
    show "sh_ids ?s" using p(4) by (auto simp: sh_ids_def)
  qed (use p r in simp_all)
  then show ?thesis using p(4) r(1) assms(2) by (simp add: receiver_connect_def consumer_connect_def sh_ids_def)
qed

text \<open>Changes that touch neither the ring nor the place of a half in its call.\<close>

lemma sh_inv_snd:
  assumes "sh_inv s" "half_ok h reg" "sh_snd s \<noteq> Unbound" "h \<noteq> Unbound" "sh_spc s = SIdle"
  shows "sh_inv (s\<lparr>sh_snd := h, sh_sreg := reg\<rparr>)"
  using assms(1)
proof (rule sh_invE)
  fix g q k
  assume p: "sh_core g q k s" "send_ok q s" "recv_ok s" "sh_ids s" "half_ok (sh_rcv s) (sh_rreg s)"
  show ?thesis by (rule sh_invI [of g q k]) (use p assms(2-) in \<open>auto simp: sh_core_def send_ok_def recv_ok_def sh_ids_def\<close>)
qed

lemma sh_inv_rcv:
  assumes "sh_inv s" "half_ok h reg" "sh_rcv s \<noteq> Unbound" "h \<noteq> Unbound" "sh_rpc s = RIdle"
  shows "sh_inv (s\<lparr>sh_rcv := h, sh_rreg := reg\<rparr>)"
  using assms(1)
proof (rule sh_invE)
  fix g q k
  assume p: "sh_core g q k s" "send_ok q s" "recv_ok s" "sh_ids s" "half_ok (sh_snd s) (sh_sreg s)"
  show ?thesis by (rule sh_invI [of g q k]) (use p assms(2-) in \<open>auto simp: sh_core_def send_ok_def recv_ok_def sh_ids_def\<close>)
qed

lemma regs_frame [simp]:
  "sh_core g q k (s\<lparr>sh_sreg := reg\<rparr>) = sh_core g q k s" "sh_core g q k (s\<lparr>sh_rreg := reg\<rparr>) = sh_core g q k s"
  "send_ok q (s\<lparr>sh_sreg := reg\<rparr>) = send_ok q s" "send_ok q (s\<lparr>sh_rreg := reg\<rparr>) = send_ok q s"
  "recv_ok (s\<lparr>sh_sreg := reg\<rparr>) = recv_ok s" "recv_ok (s\<lparr>sh_rreg := reg\<rparr>) = recv_ok s"
  "sh_ids (s\<lparr>sh_sreg := reg\<rparr>) = sh_ids s" "sh_ids (s\<lparr>sh_rreg := reg\<rparr>) = sh_ids s"
  by (simp_all add: sh_core_def send_ok_def recv_ok_def sh_ids_def)

lemma sh_inv_regs:
  assumes "sh_inv s"
  shows "half_ok (sh_snd s) reg \<Longrightarrow> sh_inv (s\<lparr>sh_sreg := reg\<rparr>)" "half_ok (sh_rcv s) reg \<Longrightarrow> sh_inv (s\<lparr>sh_rreg := reg\<rparr>)"
  using assms by (simp_all add: sh_inv_def)

text \<open>Marking the ring as disconnected.\<close>

lemma sh_inv_mark_producer:
  assumes "sh_inv s" "sh_snd s \<noteq> Unbound" "sh_spc s = SIdle"
  shows "sh_inv (s\<lparr>sh_buf := (sh_buf s)\<lparr>sp_producer_id := disconnected_id\<rparr>\<rparr>)"
  using assms(1)
proof (rule sh_invE)
  fix g q k
  assume p: "sh_core g q k s" "send_ok q s" "recv_ok s" "sh_ids s" "half_ok (sh_snd s) (sh_sreg s)" "half_ok (sh_rcv s) (sh_rreg s)"
  show ?thesis by (rule sh_invI [of g q k]) (use p assms(2,3) in \<open>auto simp: sh_core_def send_ok_def recv_ok_def sh_ids_def\<close>)
qed

lemma sh_inv_mark_consumer:
  assumes "sh_inv s" "sh_rcv s \<noteq> Unbound"
  shows "sh_inv (s\<lparr>sh_buf := (sh_buf s)\<lparr>sp_consumer_id := disconnected_id\<rparr>\<rparr>)"
  using assms(1)
proof (rule sh_invE)
  fix g q k
  assume p: "sh_core g q k s" "send_ok q s" "recv_ok s" "sh_ids s" "half_ok (sh_snd s) (sh_sreg s)" "half_ok (sh_rcv s) (sh_rreg s)"
  show ?thesis by (rule sh_invI [of g q k]) (use p assms(2) in \<open>auto simp: sh_core_def send_ok_def recv_ok_def sh_ids_def\<close>)
qed

lemma keeps_sender_poll:
  assumes "sh_inv s" "sh_snd s = Connecting i"
  shows "keeps s (sender_connect_poll w s)"
proof -
  have h: "half_ok (Connecting i) (sh_sreg s)" and idle: "sh_spc s = SIdle"
    using assms by (auto simp: sh_inv_def send_ok_def)
  have r: "sh_rcv s \<noteq> Unbound" if "sp_consumer_id (sh_buf s) \<noteq> 0" using assms(1) that by (auto simp: sh_inv_def sh_ids_def)
  have "sh_inv (s\<lparr>sh_snd := Connected i, sh_sreg := sh_sreg s\<rparr>)"
    by (rule sh_inv_snd [OF assms(1)]) (use h idle assms(2) in \<open>auto intro: half_okI\<close>)
  moreover have "sh_inv (s\<lparr>sh_buf := (sh_buf s)\<lparr>sp_consumer_id := disconnected_id\<rparr>, sh_snd := Connected i, sh_sreg := sh_sreg s\<rparr>)"
    if "sp_consumer_id (sh_buf s) \<noteq> 0"
    using sh_inv_snd [OF sh_inv_mark_consumer [OF assms(1) r [OF that]], of "Connected i" "sh_sreg s"] h idle assms(2)
    by (auto intro: half_okI)
  moreover have "sh_inv (s\<lparr>sh_sreg := add_shared_channel_connection_waker w (sh_sreg s)\<rparr>)"
    by (rule sh_inv_regs(1) [OF assms(1)]) (use h assms(2) in \<open>auto intro: half_okI\<close>)
  ultimately show ?thesis
    using assms(2) by (auto simp: sender_connect_poll_def sender_connector_poll_def disconnect_defs Let_def split: option.splits)
qed

lemma keeps_receiver_poll:
  assumes "sh_inv s" "sh_rcv s = Connecting i"
  shows "keeps s (receiver_connect_poll w s)"
proof -
  have h: "half_ok (Connecting i) (sh_rreg s)" and idle: "sh_rpc s = RIdle"
    using assms by (auto simp: sh_inv_def recv_ok_def)
  have c: "sh_inv (s\<lparr>sh_rcv := Connected i, sh_rreg := sh_rreg s\<rparr>)"
    by (rule sh_inv_rcv [OF assms(1)]) (use h idle assms(2) in \<open>auto intro: half_okI\<close>)
  have d: "sh_inv (s\<lparr>sh_buf := (sh_buf s)\<lparr>sp_producer_id := disconnected_id\<rparr>, sh_rcv := Connected i, sh_rreg := sh_rreg s\<rparr>)"
    if n: "sp_producer_id (sh_buf s) \<noteq> 0" "get_sleep_notifier_for (sh_live s) (sp_producer_id (sh_buf s)) = None"
  proof -
    have "sh_snd s \<noteq> Unbound" "sh_spc s = SIdle"
      using assms(1) n by (auto simp: sh_inv_def sh_ids_def send_ok_def get_sleep_notifier_for_def split: if_splits)
    then show ?thesis
      using sh_inv_rcv [OF sh_inv_mark_producer [OF assms(1)], of "Connected i" "sh_rreg s"] h idle assms(2) by (auto intro: half_okI)
  qed
  have "sh_inv (s\<lparr>sh_rreg := add_shared_channel_connection_waker w (sh_rreg s)\<rparr>)"
    by (rule sh_inv_regs(2) [OF assms(1)]) (use h assms(2) in \<open>auto intro: half_okI\<close>)
  then show ?thesis
    using assms(2) c d by (auto simp: receiver_connect_poll_def receiver_connector_poll_def disconnect_defs Let_def split: option.splits)
qed

lemma keeps_cancel:
  assumes "sh_inv s"
  shows "sh_snd s = Connecting i \<Longrightarrow> sh_inv (sender_connect_cancel s)" "sh_rcv s = Connecting i \<Longrightarrow> sh_inv (receiver_connect_cancel s)"
proof -
  have h: "half_ok Gone (sh_sreg s)" "half_ok Gone (sh_rreg s)" using assms by (auto simp: sh_inv_def intro: half_okI)
  show "sh_inv (sender_connect_cancel s)" if "sh_snd s = Connecting i"
  proof -
    have "sh_spc s = SIdle" using that assms by (auto simp: sh_inv_def send_ok_def)
    then show ?thesis using sh_inv_snd [OF assms h(1)] that by (simp add: sender_connect_cancel_def)
  qed
  show "sh_inv (receiver_connect_cancel s)" if "sh_rcv s = Connecting i"
  proof -
    have "sh_rpc s = RIdle" using that assms by (auto simp: sh_inv_def recv_ok_def)
    then show ?thesis using sh_inv_rcv [OF assms h(2)] that by (simp add: receiver_connect_cancel_def)
  qed
qed

lemma keeps_close:
  assumes "sh_inv s" "sh_snd s = Connected i" "sh_spc s = SIdle"
  shows "keeps s (sh_close s)"
proof -
  have m: "sh_inv (s\<lparr>sh_buf := (sh_buf s)\<lparr>sp_producer_id := disconnected_id\<rparr>\<rparr>)"
    by (rule sh_inv_mark_producer) (use assms in auto)
  then have "sh_inv (s\<lparr>sh_buf := (sh_buf s)\<lparr>sp_producer_id := disconnected_id\<rparr>, sh_sreg := snd (process_shared_channels_by_id i (sh_sreg s))\<rparr>)"
    using sh_inv_regs(1) [OF m, of "snd (process_shared_channels_by_id i (sh_sreg s))"] assms by (auto simp: sh_inv_def intro: half_okI)
  then show ?thesis using m assms(2) by (simp add: sh_close_def disconnect_defs)
qed

lemma keeps_unbound_drop:
  assumes "sh_inv s"
  shows "sh_snd s = Unbound \<Longrightarrow> sh_inv (s\<lparr>sh_buf := (sh_buf s)\<lparr>sp_producer_id := disconnected_id\<rparr>, sh_snd := Gone\<rparr>)"
    "sh_rcv s = Unbound \<Longrightarrow> sh_inv (s\<lparr>sh_buf := (sh_buf s)\<lparr>sp_consumer_id := disconnected_id\<rparr>, sh_rcv := Gone\<rparr>)"
proof -
  obtain g q k where p: "sh_core g q k s" "send_ok q s" "recv_ok s" "sh_ids s" "half_ok (sh_snd s) (sh_sreg s)" "half_ok (sh_rcv s) (sh_rreg s)"
    using assms by (rule sh_invE)
  show "sh_inv (s\<lparr>sh_buf := (sh_buf s)\<lparr>sp_producer_id := disconnected_id\<rparr>, sh_snd := Gone\<rparr>)" if "sh_snd s = Unbound"
    by (rule sh_invI [of g q k]) (use p that in \<open>auto simp: sh_core_def send_ok_def recv_ok_def sh_ids_def intro: half_okI\<close>)
  show "sh_inv (s\<lparr>sh_buf := (sh_buf s)\<lparr>sp_consumer_id := disconnected_id\<rparr>, sh_rcv := Gone\<rparr>)" if "sh_rcv s = Unbound"
    by (rule sh_invI [of g q k]) (use p that in \<open>auto simp: sh_core_def send_ok_def recv_ok_def sh_ids_def intro: half_okI\<close>)
qed

lemma keeps_drops:
  assumes "sh_inv s"
  shows "sh_snd s = Unbound \<or> (\<exists>i. sh_snd s = Connected i) \<Longrightarrow> sh_spc s = SIdle \<Longrightarrow> sh_inv (sender_drop_shared a s)"
    "sh_rcv s = Unbound \<or> (\<exists>i. sh_rcv s = Connected i) \<Longrightarrow> sh_rpc s = RIdle \<Longrightarrow> sh_inv (receiver_drop_shared a s)"
proof -
  have h: "half_ok (sh_snd s) (sh_sreg s)" "half_ok (sh_rcv s) (sh_rreg s)" using assms by (auto simp: sh_inv_def)
  show "sh_inv (sender_drop_shared a s)" if c: "sh_snd s = Unbound \<or> (\<exists>i. sh_snd s = Connected i)" "sh_spc s = SIdle"
  proof (cases "sh_snd s = Unbound")
    case False
    then obtain i where i: "sh_snd s = Connected i" using c by blast
    let ?m = "s\<lparr>sh_buf := (sh_buf s)\<lparr>sp_producer_id := disconnected_id\<rparr>\<rparr>"
    have "sh_inv (?m\<lparr>sh_snd := Gone, sh_sreg := reg\<rparr>)" if "half_ok Gone reg" for reg
      using sh_inv_snd [OF sh_inv_mark_producer [OF assms], of Gone reg] i \<open>sh_spc s = SIdle\<close> that by simp
    from this [of "sh_sreg s"] this [of "unregister_shared_channel i (sh_sreg s)"] show ?thesis
      using i h(1) by (simp add: sender_drop_shared_def disconnect_defs half_okI)
  qed (use keeps_unbound_drop(1) [OF assms] in \<open>simp add: sender_drop_shared_def disconnect_defs\<close>)
  show "sh_inv (receiver_drop_shared a s)" if c: "sh_rcv s = Unbound \<or> (\<exists>i. sh_rcv s = Connected i)" "sh_rpc s = RIdle"
  proof (cases "sh_rcv s = Unbound")
    case False
    then obtain i where i: "sh_rcv s = Connected i" using c by blast
    let ?m = "s\<lparr>sh_buf := (sh_buf s)\<lparr>sp_consumer_id := disconnected_id\<rparr>\<rparr>"
    have "sh_inv (?m\<lparr>sh_rcv := Gone, sh_rreg := reg\<rparr>)" if "half_ok Gone reg" for reg
      using sh_inv_rcv [OF sh_inv_mark_consumer [OF assms], of Gone reg] i \<open>sh_rpc s = RIdle\<close> that by simp
    from this [of "sh_rreg s"] this [of "unregister_shared_channel i (sh_rreg s)"] show ?thesis
      using i h(2) by (simp add: receiver_drop_shared_def disconnect_defs half_okI)
  qed (use keeps_unbound_drop(2) [OF assms] in \<open>simp add: receiver_drop_shared_def disconnect_defs\<close>)
qed

lemma keeps_send:
  assumes "sh_inv s" "sh_snd s = Connected i" "sh_spc s = SIdle" "sh_sexec s \<in> sh_live s"
  shows "keeps s (sh_send v w s)" "sh_inv (s\<lparr>sh_spc := SCheck False v\<rparr>)"
proof -
  obtain g q k where p: "sh_core g q k s" "send_ok q s" "recv_ok s" "sh_ids s" "half_ok (sh_snd s) (sh_sreg s)" "half_ok (sh_rcv s) (sh_rreg s)"
    using assms(1) by (rule sh_invE)
  show "sh_inv (s\<lparr>sh_spc := SCheck False v\<rparr>)"
    by (rule sh_invI [of g q k]) (use p assms in \<open>auto simp: sh_core_def send_ok_def recv_ok_def sh_ids_def\<close>)
  have w: "sh_inv (s\<lparr>sh_sreg := add_shared_channel_waker i w (sh_sreg s)\<rparr>)"
    by (rule sh_inv_regs(1) [OF assms(1)]) (use p(5) assms(2) in \<open>simp add: half_okI\<close>)
  have "sh_inv (s\<lparr>sh_spc := SCheck True v\<rparr>)" if r: "free_space (sh_buf s) > 0 \<or> sh_pd s \<or> sh_cd s"
  proof (rule sh_invI [of g q k])
    have "length q < spsc_room (sh_buf s) \<or> sh_pd s \<or> sh_cd s" if "length (sh_sent s) < 2 ^ 64"
      using r ring_pos_free [of "sh_buf s" "length g" q] p(1) that by (auto simp: sh_core_def)
    then show "send_ok q (s\<lparr>sh_spc := SCheck True v\<rparr>)" using p(2) assms(2,4) by (simp add: send_ok_def)
  qed (use p in \<open>auto simp: sh_core_def recv_ok_def sh_ids_def\<close>)
  then show "keeps s (sh_send v w s)" using w assms(2) by (simp add: sh_send_def sh_wait_for_room_def disconnect_defs)
qed

lemma sh_inv_idle:
  assumes "sh_inv s"
  shows "sh_inv (s\<lparr>sh_spc := SIdle, sh_sres := r\<rparr>)"
  using assms
proof (rule sh_invE)
  fix g q k
  assume p: "sh_core g q k s" "send_ok q s" "recv_ok s" "sh_ids s" "half_ok (sh_snd s) (sh_sreg s)" "half_ok (sh_rcv s) (sh_rreg s)"
  show ?thesis by (rule sh_invI [of g q k]) (use p in \<open>auto simp: sh_core_def send_ok_def recv_ok_def sh_ids_def\<close>)
qed

lemma keeps_push:
  assumes "sh_inv s" "sh_spc s = SPush b v"
  shows "keeps s (sh_try_send_step s)"
proof -
  obtain g q k where p: "sh_core g q k s" "send_ok q s" "recv_ok s" "sh_ids s" "half_ok (sh_snd s) (sh_sreg s)" "half_ok (sh_rcv s) (sh_rreg s)"
    using assms(1) by (rule sh_invE)
  have ring: "ring_pos (sh_buf s) (length g) q" and pd: "\<not> sh_pd s" "k = 0" and snd: "\<exists>i. sh_snd s = Connected i" "sh_sexec s \<in> sh_live s"
    using p(1,2) assms(2) by (auto simp: sh_core_def send_ok_def)
  show ?thesis
  proof (cases "\<not> sh_cd s \<and> length q < spsc_room (sh_buf s)")
    case True
    then obtain b' where b': "try_push v (sh_buf s) = Some (None, b')" "ring_pos b' (length g) (q @ [v])"
        "sp_producer_id b' = sp_producer_id (sh_buf s)" "sp_consumer_id b' = sp_consumer_id (sh_buf s)" "spsc_room b' = spsc_room (sh_buf s)"
      using ring_pos_push [OF ring, of v] by (auto simp: consumer_disconnected_def)
    have "sh_inv (s\<lparr>sh_buf := b', sh_sent := sh_sent s @ [v], sh_spc := SIdle, sh_sres := sh_sres s @ [SendOk]\<rparr>)"
      by (rule sh_invI [of g "q @ [v]" k]) (use p b' pd in \<open>auto simp: sh_core_def send_ok_def recv_ok_def sh_ids_def\<close>)
    then show ?thesis using assms(2) b'(1) by (simp add: sh_try_send_step_def sh_send_done_def)
  next
    case False
    have "sh_inv (s\<lparr>sh_spc := SRecheck b v\<rparr>)"
      by (rule sh_invI [of g q k]) (use p snd pd False assms(2) in \<open>auto simp: sh_core_def send_ok_def recv_ok_def sh_ids_def\<close>)
    moreover have "try_push v (sh_buf s) = Some (Some v, sh_buf s)"
      by (rule ring_pos_full [OF ring]) (use False in \<open>auto simp: consumer_disconnected_def\<close>)
    ultimately show ?thesis using assms(2) by (simp add: sh_try_send_step_def)
  qed
qed

lemma keeps_send_step:
  assumes "sh_inv s" "sh_spc s \<noteq> SIdle"
  shows "keeps s (sh_try_send_step s)"
proof (cases "sh_spc s")
  case (SCheck b v)
  obtain g q k where p: "sh_core g q k s" "send_ok q s" "recv_ok s" "sh_ids s" "half_ok (sh_snd s) (sh_sreg s)" "half_ok (sh_rcv s) (sh_rreg s)"
    using assms(1) by (rule sh_invE)
  have "sh_inv (s\<lparr>sh_spc := SPush b v\<rparr>)" if "\<not> sh_pd s" "\<not> sh_cd s"
    by (rule sh_invI [of g q k]) (use p that SCheck in \<open>auto simp: sh_core_def send_ok_def recv_ok_def sh_ids_def\<close>)
  then show ?thesis using SCheck sh_inv_idle [OF assms(1)] by (simp add: sh_try_send_step_def sh_send_done_def disconnect_defs)
next
  case (SPush b v)
  then show ?thesis by (rule keeps_push [OF assms(1)])
next
  case (SRecheck b v)
  have "sh_cd s \<or> \<not> b \<or> 2 ^ 64 \<le> length (sh_sent s)" using assms(1) SRecheck by (auto simp: sh_inv_def send_ok_def not_less)
  then show ?thesis
    using SRecheck sh_inv_idle [OF assms(1)] by (auto simp: sh_try_send_step_def sh_send_done_def disconnect_defs)
qed (use assms(2) in simp)

lemma keeps_recv:
  assumes "sh_inv s" "sh_rcv s = Connected i" "sh_rexec s \<in> sh_live s"
  shows "keeps s (sh_recv w s)"
proof -
  obtain g q k where p: "sh_core g q k s" "send_ok q s" "recv_ok s" "sh_ids s" "half_ok (sh_snd s) (sh_sreg s)" "half_ok (sh_rcv s) (sh_rreg s)"
    using assms(1) by (rule sh_invE)
  have "sh_inv (s\<lparr>sh_rpc := RPop w False\<rparr>)"
    by (rule sh_invI [of g q k]) (use p assms in \<open>auto simp: sh_core_def send_ok_def recv_ok_def sh_ids_def\<close>)
  then show ?thesis using assms(2) by (simp add: sh_recv_def)
qed

lemma keeps_recv_step:
  assumes "sh_inv s" "sh_rpc s \<noteq> RIdle"
  shows "keeps s (sh_recv_step s)"
proof -
  obtain g q k where p: "sh_core g q k s" "send_ok q s" "recv_ok s" "sh_ids s" "half_ok (sh_snd s) (sh_sreg s)" "half_ok (sh_rcv s) (sh_rreg s)"
    using assms(1) by (rule sh_invE)
  obtain i where i: "sh_rcv s = Connected i" using p(3) assms(2) by (auto simp: recv_ok_def)
  show ?thesis
  proof (cases "sh_rpc s")
    case (RPop w d)
    have "ring_pos (sh_buf s) (length g) q" using p(1) by (simp add: sh_core_def)
    then obtain b' where b': "try_pop (sh_buf s) = Some (case q of [] \<Rightarrow> None | x # _ \<Rightarrow> Some x, b')"
        "ring_pos b' (if q = [] then length g else Suc (length g)) (tl q)" "sp_producer_id b' = sp_producer_id (sh_buf s)"
        "sp_consumer_id b' = sp_consumer_id (sh_buf s)" "spsc_room b' = spsc_room (sh_buf s)"
      using ring_pos_pop by blast
    show ?thesis
    proof (cases q)
      case Nil
      have "sh_inv (s\<lparr>sh_buf := b', sh_rpc := RTest w\<rparr>)"
        by (rule sh_invI [of g "[]" k]) (use p b' Nil i RPop in \<open>auto simp: sh_core_def send_ok_def recv_ok_def sh_ids_def\<close>)
      moreover have "sh_inv (s\<lparr>sh_buf := b', sh_rpc := RIdle, sh_rres := sh_rres s @ [None]\<rparr>)" if d
        by (rule sh_invI [of g "[]" "Suc k"])
          (use p b' Nil i RPop that in \<open>auto simp: sh_core_def send_ok_def recv_ok_def sh_ids_def replicate_append_same [symmetric]\<close>)
      ultimately show ?thesis using RPop i b'(1) Nil by (simp add: sh_recv_step_def)
    next
      case (Cons x xs)
      have "sh_inv (s\<lparr>sh_buf := b', sh_rpc := RIdle, sh_rres := sh_rres s @ [Some x]\<rparr>)"
        by (rule sh_invI [of "g @ [x]" xs k]) (use p b' Cons i RPop in \<open>auto simp: sh_core_def send_ok_def recv_ok_def sh_ids_def\<close>)
      then show ?thesis using RPop i b'(1) Cons by (simp add: sh_recv_step_def)
    qed
  next
    case (RTest w)
    have "sh_inv (s\<lparr>sh_rpc := RPop w True\<rparr>)" if "sh_pd s"
      by (rule sh_invI [of g q k]) (use p that i RTest in \<open>auto simp: sh_core_def send_ok_def recv_ok_def sh_ids_def\<close>)
    moreover have "sh_inv (s\<lparr>sh_rpc := RIdle, sh_rreg := add_shared_channel_waker i w (sh_rreg s)\<rparr>)"
      by (rule sh_invI [of g q k]) (use p i in \<open>auto simp: sh_core_def send_ok_def recv_ok_def sh_ids_def half_okI\<close>)
    ultimately show ?thesis using RTest i by (simp add: sh_recv_step_def disconnect_defs)
  qed (use assms(2) in simp)
qed

lemma keeps_process:
  assumes "sh_inv s"
  shows "keeps s (sh_exec (ShProcessS n) s)" "keeps s (sh_exec (ShProcessR n) s)"
proof -
  have h: "half_ok (sh_snd s) (sh_sreg s)" "half_ok (sh_rcv s) (sh_rreg s)" using assms by (auto simp: sh_inv_def)
  show "keeps s (sh_exec (ShProcessS n) s)"
    using channels_process_ok [of "sh_sreg s" "check_room (sh_buf s)" n] h(1) sh_inv_regs(1) [OF assms] by (auto simp: half_ok_def)
  show "keeps s (sh_exec (ShProcessR n) s)"
    using channels_process_ok [of "sh_rreg s" "check_room (sh_buf s)" n] h(2) sh_inv_regs(2) [OF assms] by (auto simp: half_ok_def)
qed

lemma live_frame:
  "send_ok q s \<Longrightarrow> (sh_spc s \<noteq> SIdle \<Longrightarrow> sh_sexec s \<in> L) \<Longrightarrow> send_ok q (s\<lparr>sh_live := L\<rparr>)"
  "recv_ok s \<Longrightarrow> (sh_rpc s \<noteq> RIdle \<Longrightarrow> sh_rexec s \<in> L) \<Longrightarrow> recv_ok (s\<lparr>sh_live := L\<rparr>)"
  by (auto simp: send_ok_def recv_ok_def)

lemma keeps_gone:
  assumes "sh_inv s" "e = sh_sexec s \<longrightarrow> sh_spc s = SIdle" "e = sh_rexec s \<longrightarrow> sh_rpc s = RIdle"
  shows "sh_inv (s\<lparr>sh_live := sh_live s - {e}\<rparr>)"
  using assms(1)
proof (rule sh_invE)
  fix g q k
  assume p: "sh_core g q k s" "send_ok q s" "recv_ok s" "sh_ids s" "half_ok (sh_snd s) (sh_sreg s)" "half_ok (sh_rcv s) (sh_rreg s)"
  have a: "sh_sexec s \<in> sh_live s - {e}" if "sh_spc s \<noteq> SIdle" using p(2) assms(2) that by (auto simp: send_ok_def)
  have b: "sh_rexec s \<in> sh_live s - {e}" if "sh_rpc s \<noteq> RIdle" using p(3) assms(3) that by (auto simp: recv_ok_def)
  have "sh_core g q k (s\<lparr>sh_live := sh_live s - {e}\<rparr>) = sh_core g q k s" "sh_ids (s\<lparr>sh_live := sh_live s - {e}\<rparr>) = sh_ids s"
    by (simp_all add: sh_core_def sh_ids_def)
  then show ?thesis using p live_frame(1) [OF p(2) a] live_frame(2) [OF p(3) b] by (intro sh_invI [of g q k]) simp_all
qed

lemma sh_exec_keeps:
  assumes "sh_inv s" "sh_enabled op s"
  shows "keeps s (sh_exec op s)"
proof (cases op)
  case (ShProcessS n)
  then show ?thesis using keeps_process(1) [OF assms(1)] by simp
next
  case (ShProcessR n)
  then show ?thesis using keeps_process(2) [OF assms(1)] by simp
next
  case ShDropS
  then show ?thesis using keeps_drops(1) [OF assms(1)] assms(2) by simp
next
  case ShDropR
  then show ?thesis using keeps_drops(2) [OF assms(1)] assms(2) by simp
next
  case (ShExecGone e)
  then show ?thesis using keeps_gone [OF assms(1), of e] assms(2) by simp
next
  case ShConnectS
  then show ?thesis using keeps_sender_connect [OF assms(1)] assms(2) by simp
next
  case ShConnectR
  then show ?thesis using keeps_receiver_connect [OF assms(1)] assms(2) by simp
next
  case (ShConnectPollS w)
  then show ?thesis using keeps_sender_poll [OF assms(1)] assms(2) by auto
next
  case (ShConnectPollR w)
  then show ?thesis using keeps_receiver_poll [OF assms(1)] assms(2) by auto
next
  case ShCancelS
  then show ?thesis using keeps_cancel(1) [OF assms(1)] assms(2) by auto
next
  case ShCancelR
  then show ?thesis using keeps_cancel(2) [OF assms(1)] assms(2) by auto
next
  case (ShSend v w)
  then show ?thesis using keeps_send(1) [OF assms(1)] assms(2) by auto
next
  case (ShTrySend v)
  then show ?thesis using keeps_send(2) [OF assms(1)] assms(2) by auto
next
  case ShSendStep
  then show ?thesis using keeps_send_step [OF assms(1)] assms(2) by simp
next
  case ShClose
  then show ?thesis using keeps_close [OF assms(1)] assms(2) by auto
next
  case (ShRecv w)
  then show ?thesis using keeps_recv [OF assms(1)] assms(2) by auto
next
  case ShRecvStep
  then show ?thesis using keeps_recv_step [OF assms(1)] assms(2) by simp
qed

lemma sh_init_inv: "sh_init s \<Longrightarrow> sh_inv s"
proof -
  assume "sh_init s"
  then obtain cap live sex rex where s: "s = new_bounded cap live sex rex" "unat cap \<le> 2 ^ 63"
      "sex \<noteq> 0" "sex \<noteq> disconnected_id" "rex \<noteq> 0" "rex \<noteq> disconnected_id"
    by (auto simp: sh_init_def)
  obtain n where "ring_core n 0 [] (inner_make cap 0 :: 'a spsc)" using make_core [OF s(2), of 0] by (metis unat_0)
  then have "ring_at n 0 0 [] (spsc_make cap :: 'a spsc)" by (simp add: ring_at_def spsc_make_def)
  then have "ring_pos (spsc_make cap :: 'a spsc) 0 []" by (auto simp: ring_pos_def)
  then show ?thesis
    using s by (auto simp: sh_inv_def sh_core_def send_ok_def recv_ok_def sh_ids_def half_ok_def new_bounded_def spsc_make_def
        sreg_ok_def entries_ok_def shared_channels_new_def)
qed

interpretation shc: transition_inv sh_init sh_step sh_inv
proof unfold_locales
  show "sh_inv t" if inv: "sh_inv s" and st: "sh_step s t" for s t :: "'a shared"
  proof -
    obtain op where op: "sh_enabled op s" "sh_exec op s = Some t" using st by (rule sh_stepE)
    then show ?thesis using sh_exec_keeps [OF inv op(1)] by simp
  qed
qed (rule sh_init_inv)


subsection \<open>Correctness of the channel\<close>

text \<open>
  Claim C2. Under every interleaving of the two threads, the receives so far returned the items in
  the order in which they were accepted and then, possibly, the end of the stream; what is not
  received yet is in the ring and fits in it; and once a receive returned the end of the stream, the
  sender has disconnected and every accepted item had been received before, so that none is lost
  when a sender sends and disconnects while a receive is under way.
\<close>

theorem shared_stream:
  assumes "reachable sh_init sh_step s"
  shows "\<exists>g q k. sh_sent s = g @ q \<and> sh_rres s = map Some g @ replicate k None \<and> length q \<le> spsc_room (sh_buf s) \<and>
     (0 < k \<longrightarrow> q = [] \<and> producer_disconnected (sh_buf s))"
proof -
  obtain g q k where c: "sh_core g q k s" using shc.reachable_inv [OF assms] by (rule sh_invE)
  then have "length q \<le> spsc_room (sh_buf s)" using spscq.items_room [OF ring_pos_items] by (auto simp: sh_core_def)
  then show ?thesis using c by (auto simp: sh_core_def disconnect_defs)
qed

text \<open>
  As long as fewer than 2 to the 64 items have been accepted, no call on either half
  panics under any interleaving; in particular the send that has been told that there is room never fails with
  \<^verbatim>\<open>operation would block\<close>, and no reactor finds a waiting task without a test.
\<close>

lemma shared_no_panic:
  assumes "reachable sh_init sh_step s" and "sh_enabled op s" and "length (sh_sent s) < 2 ^ 64"
  shows "sh_exec op s \<noteq> None"
  using sh_exec_keeps [OF shc.reachable_inv [OF assms(1)] assms(2)] assms(3) by (auto simp: keeps_def not_le split: option.splits)

text \<open>A receiver whose peer vanished without marking the ring.\<close>

definition abandoned :: "'a option list \<Rightarrow> 'a shared \<Rightarrow> bool" where
  "abandoned r s \<longleftrightarrow> sh_inv s \<and> sh_snd s = Gone \<and> \<not> sh_pd s \<and> (\<exists>g. sh_sent s = g \<and> r = map Some g) \<and> sh_rres s = r \<and>
     ((\<exists>i. sh_rcv s = Connected i) \<or> sh_rcv s = Gone)"

lemma abandoned_exec:
  assumes "abandoned r s" "sh_enabled op s" "sh_exec op s = Some s'"
  shows "abandoned r s'"
proof -
  have inv: "sh_inv s" and gone: "sh_snd s = Gone" "sh_rcv s \<noteq> Unbound" "\<And>i. sh_rcv s \<noteq> Connecting i" and pd: "\<not> sh_pd s"
    using assms(1) by (auto simp: abandoned_def)
  then have idle: "sh_spc s = SIdle" "\<And>w. sh_rpc s \<noteq> RPop w True" by (auto simp: sh_inv_def send_ok_def recv_ok_def)
  have inv': "sh_inv s'" using sh_exec_keeps [OF inv assms(2)] assms(3) by simp
  show ?thesis
  proof (cases op)
    case ShRecvStep
    obtain g q k where c: "sh_core g q k s" using inv by (rule sh_invE)
    have "sh_sent s = g" "q = []" using assms(1) c by (auto simp: abandoned_def sh_core_def dest!: arg_cong [of _ _ length])
    then obtain b' where "try_pop (sh_buf s) = Some (None, b')" "sp_producer_id b' = sp_producer_id (sh_buf s)"
      using ring_pos_pop [of "sh_buf s" "length g" q] c by (auto simp: sh_core_def)
    then show ?thesis
      using ShRecvStep assms(1,3) idle inv' by (auto simp: abandoned_def sh_recv_step_def disconnect_defs split: recv_pc.splits half.splits)
  qed (use assms gone idle pd inv' in \<open>auto simp: abandoned_def sh_recv_def receiver_drop_shared_def disconnect_defs split: half.splits if_splits\<close>)
qed

text \<open>
  Claim C39. When the future of the sender's connect is dropped while it awaits its peer, the ring
  is not marked: the receiver connects, but in every later state, whatever happens, none of its receives has
  completed, with an item or with the end of the stream.
\<close>

theorem cancelled_connect_hangs:
  assumes "reachable sh_init sh_step s" and "sh_snd s = Gone" and "\<not> producer_disconnected (sh_buf s)" and "sh_rcv s = Connected i"
    and "sh_rres s = map Some (sh_sent s)" and "sh_step\<^sup>*\<^sup>* s t"
  shows "sh_rres t = sh_rres s \<and> \<not> producer_disconnected (sh_buf t)"
proof -
  have "abandoned (sh_rres s) s" using assms shc.reachable_inv [OF assms(1)] by (auto simp: abandoned_def disconnect_defs)
  with assms(6) have "abandoned (sh_rres s) t"
    by (induction rule: rtranclp_induct) (auto elim!: sh_stepE intro: abandoned_exec)
  then show ?thesis by (auto simp: abandoned_def disconnect_defs)
qed


subsection \<open>Runs\<close>

fun sh_run :: "'a shop list \<Rightarrow> 'a shared \<Rightarrow> 'a shared option" where
  "sh_run [] s = Some s"
| "sh_run (op # ops) s = (if sh_enabled op s then Option.bind (sh_exec op s) (sh_run ops) else None)"

lemma sh_run_steps: "sh_run ops s = Some t \<Longrightarrow> sh_step\<^sup>*\<^sup>* s t"
proof (induction ops arbitrary: s)
  case (Cons op ops)
  then obtain u where "sh_enabled op s" "sh_exec op s = Some u" "sh_run ops u = Some t"
    by (auto split: if_splits bind_splits)
  with Cons.IH [of u] show ?case by (meson converse_rtranclp_into_rtranclp sh_step.intros)
qed simp

definition sh_start :: "nat shared" where
  "sh_start = new_bounded 1 {1, 2} 1 2"

lemma sh_start_reachable: "sh_run ops sh_start = Some s \<Longrightarrow> reachable sh_init sh_step s"
proof -
  assume "sh_run ops sh_start = Some s"
  moreover have "sh_init sh_start"
    unfolding sh_init_def sh_start_def by (intro exI [of _ 1] exI [of _ "{1, 2}"] exI [of _ 2]) (simp add: disconnected_id_def)
  ultimately show ?thesis using sh_run_steps by (auto simp: reachable_def)
qed

text \<open>
  Both halves connect; a receive finds nothing, then the sender sends an item and closes before the receive
  tests whether its peer is there. The last two steps are the second pop.
\<close>

definition race :: "nat shop list" where
  "race = [ShConnectS, ShConnectR, ShConnectPollS 5, ShConnectPollR 6, ShRecv 7, ShRecvStep,
     ShSend 42 8, ShSendStep, ShSendStep, ShClose, ShRecvStep, ShRecvStep]"

definition hangs :: "nat shop list" where
  "hangs = [ShConnectS, ShConnectPollS 5, ShCancelS, ShConnectR, ShConnectPollR 6]"

lemma race_run:
  "map_option (\<lambda>s. (sh_sent s, sh_rres s, producer_disconnected (sh_buf s))) (sh_run race sh_start) = Some ([42], [Some 42], True)"
  by code_simp

lemma hangs_run:
  "map_option (\<lambda>s. (sh_snd s, sh_rcv s, sh_sent s, sh_rres s, producer_disconnected (sh_buf s))) (sh_run hangs sh_start) =
     Some (Gone, Connected 0, [], [], False)"
  by code_simp

theorem shared_stream_witness:
  "\<exists>s g q k. sh_run race sh_start = Some s \<and> sh_sent s = [42] \<and> sh_sent s = g @ q \<and> sh_rres s = map Some g @ replicate k None \<and>
     length q \<le> spsc_room (sh_buf s)"
proof -
  obtain s where s: "sh_run race sh_start = Some s" "sh_sent s = [42]" using race_run by auto
  then show ?thesis using shared_stream [OF sh_start_reachable [OF s(1)]] by blast
qed

theorem cancelled_connect_hangs_witness:
  "\<exists>s t. sh_run hangs sh_start = Some s \<and> sh_run [ShRecv 9, ShRecvStep, ShRecvStep, ShExecGone 1, ShProcessR 0, ShRecv 9, ShRecvStep] s = Some t \<and>
     sh_rres t = []"
proof -
  let ?more = "[ShRecv 9, ShRecvStep, ShRecvStep, ShExecGone 1, ShProcessR 0, ShRecv 9, ShRecvStep] :: nat shop list"
  obtain s where s: "sh_run hangs sh_start = Some s" "sh_snd s = Gone" "sh_rcv s = Connected 0" "sh_sent s = []" "sh_rres s = []"
      "\<not> producer_disconnected (sh_buf s)"
    using hangs_run by auto
  have "map_option (\<lambda>_. ()) (Option.bind (sh_run hangs sh_start) (sh_run ?more)) = Some ()" by code_simp
  then obtain t where t: "sh_run ?more s = Some t" using s(1) by auto
  then show ?thesis using cancelled_connect_hangs [OF sh_start_reachable [OF s(1)] s(2,6,3), of t] s sh_run_steps [OF t] by auto
qed

text \<open>A sender that is closed before it is dropped stays in the registry of its reactor.\<close>

lemma closed_sender_stays_registered:
  "map_option (\<lambda>s. (sh_snd s, map fst (sc_wakers_map (sh_sreg s)))) (sh_run (take 4 race @ [ShClose, ShDropS]) sh_start) = Some (Gone, [0])"
  "map_option (\<lambda>s. (sh_snd s, map fst (sc_wakers_map (sh_sreg s)))) (sh_run (take 4 race @ [ShDropS]) sh_start) = Some (Gone, [])"
  by code_simp+

end
