(* ===== verification/Task.thy ===== *)
theory Task
  imports Prelude
begin

section \<open>Tasks (glommio/src/task)\<close>

text \<open>
  The header of a task and the operations of its vtable, of its wakers and of its join handle,
  on the task's own executor and, for wakers, also from other threads; every operation is one
  step. The eight flags are the bits of a byte. What the source calls through pointers is
  tracked explicitly: whether the allocation has been freed, whether the future is still there,
  the output in its slot, the runnables that exist. \<open>None\<close> is a process abort, a failed debug
  assertion, an access to a freed task, a second drop of the future or a read of an output
  that is not there. User code that runs inside \<^verbatim>\<open>drop\<close> of the future and calls back into the
  task is not modelled; user code inside \<^verbatim>\<open>poll\<close> is, since running a task is two steps.
\<close>

unbundle bit_operations_syntax

declare One_nat_def [simp del]

subsection \<open>Flags (task/state.rs)\<close>

definition flag :: "nat \<Rightarrow> u8" where
  "flag k = push_bit k 1"

abbreviation SCHEDULED :: u8 where "SCHEDULED \<equiv> flag 0"
abbreviation RUNNING :: u8 where "RUNNING \<equiv> flag 1"
abbreviation COMPLETED :: u8 where "COMPLETED \<equiv> flag 2"
abbreviation CLOSED :: u8 where "CLOSED \<equiv> flag 3"
abbreviation HANDLE :: u8 where "HANDLE \<equiv> flag 4"
abbreviation FUTURE_DROPPED :: u8 where "FUTURE_DROPPED \<equiv> flag 5"
abbreviation SCHEDULE_DROPPED :: u8 where "SCHEDULE_DROPPED \<equiv> flag 6"
abbreviation OUTPUT_PRESENT :: u8 where "OUTPUT_PRESENT \<equiv> flag 7"

definition has :: "u8 \<Rightarrow> u8 \<Rightarrow> bool" where
  "has m s \<longleftrightarrow> s AND m \<noteq> 0"

lemma has_flag: "k < 8 \<Longrightarrow> has (flag k) s = bit s k"
  by (simp add: has_def flag_def and_exp_eq_0_iff_not_bit push_bit_eq_mult)

lemma bit_flag: "k < 8 \<Longrightarrow> bit (flag k) n \<longleftrightarrow> n = k"
  by (auto simp: flag_def bit_simps)

lemma has_or [simp]: "has (m OR n) s \<longleftrightarrow> has m s \<or> has n s"
  by (auto simp: has_def bit_eq_iff bit_simps)

lemma has_set [simp]: "k < 8 \<Longrightarrow> has (flag k) (s OR m) \<longleftrightarrow> has (flag k) s \<or> has (flag k) m"
  by (simp add: has_flag bit_simps)

lemma has_and [simp]: "k < 8 \<Longrightarrow> has (flag k) (s AND m) \<longleftrightarrow> has (flag k) s \<and> has (flag k) m"
  by (simp add: has_flag bit_simps)

lemma has_not [simp]: "k < 8 \<Longrightarrow> has (flag k) (NOT m) \<longleftrightarrow> \<not> has (flag k) m"
  by (simp add: has_flag bit_simps)

lemma has_flag_flag [simp]: "k < 8 \<Longrightarrow> j < 8 \<Longrightarrow> has (flag k) (flag j) \<longleftrightarrow> j = k"
  by (auto simp: has_flag bit_flag)

subsection \<open>Header (task/header.rs)\<close>

record 'r task =
  tk_state :: u8
  tk_references :: int
  tk_active :: bool
  tk_linked :: bool
  tk_scheduling :: bool
  tk_awaiter :: "waker option"
  tk_latency_matters :: bool
  tk_future :: bool
  tk_output :: "'r option"
  tk_freed :: bool
  tk_runnables :: int
  tk_wakes :: "waker list"
  tk_sched_open :: bool

abbreviation th :: "u8 \<Rightarrow> 'r task \<Rightarrow> bool" where
  "th f t \<equiv> has f (tk_state t)"

text \<open>Every access to the header is an access to memory that must not have been freed.\<close>

definition access :: "'r task \<Rightarrow> 'r task option" where
  "access t = (if tk_freed t then None else Some t)"

definition or_state :: "u8 \<Rightarrow> 'r task \<Rightarrow> 'r task" where
  "or_state m t = t\<lparr>tk_state := tk_state t OR m\<rparr>"

definition clear_state :: "u8 \<Rightarrow> 'r task \<Rightarrow> 'r task" where
  "clear_state m t = t\<lparr>tk_state := tk_state t AND NOT m\<rparr>"

definition notify :: "waker option \<Rightarrow> 'r task \<Rightarrow> 'r task" where
  "notify current t =
     (case tk_awaiter t of
        None \<Rightarrow> t
      | Some w \<Rightarrow>
          (let t' = t\<lparr>tk_awaiter := None\<rparr>
           in if current = Some w then t' else t'\<lparr>tk_wakes := tk_wakes t' @ [w]\<rparr>))"

definition register :: "waker \<Rightarrow> 'r task \<Rightarrow> 'r task" where
  "register w t = t\<lparr>tk_awaiter := Some w\<rparr>"

subsection \<open>Allocation and references (task/raw.rs)\<close>

text \<open>A new task is owned by its runnable, its join handle and the registry.\<close>

definition allocate :: "bool \<Rightarrow> 'r task" where
  "allocate latency = \<lparr>tk_state = SCHEDULED OR HANDLE, tk_references = 3, tk_active = True, tk_linked = True,
     tk_scheduling = False, tk_awaiter = None, tk_latency_matters = latency, tk_future = True, tk_output = None,
     tk_freed = False, tk_runnables = 1, tk_wakes = [], tk_sched_open = True\<rparr>"

definition destroy :: "'r task \<Rightarrow> 'r task option" where
  "destroy t =
     (if \<not> tk_freed t \<and> th FUTURE_DROPPED t \<and> th SCHEDULE_DROPPED t \<and> \<not> th OUTPUT_PRESENT t \<and> \<not> th HANDLE t \<and>
         \<not> tk_linked t \<and> tk_awaiter t = None
      then Some (t\<lparr>tk_freed := True\<rparr>) else None)"

definition increment_references :: "'r task \<Rightarrow> 'r task option" where
  "increment_references t =
     Option.bind (access t) (\<lambda>t.
       if tk_references t \<le> 0 \<or> tk_references t = 2 ^ 31 - 1 then None
       else Some (t\<lparr>tk_references := tk_references t + 1\<rparr>))"

definition release_references :: "int \<Rightarrow> 'r task \<Rightarrow> 'r task option" where
  "release_references n t =
     Option.bind (access t) (\<lambda>t.
       let refs = tk_references t; t' = t\<lparr>tk_references := refs - n\<rparr>
       in if refs < n then None else if refs = n then destroy t' else Some t')"

definition release :: "'r task \<Rightarrow> 'r task option" where
  "release t = release_references 1 t"

subsection \<open>Dropping the parts of a task\<close>

definition drop_future :: "'r task \<Rightarrow> 'r task option" where
  "drop_future t =
     Option.bind (access t) (\<lambda>t.
       if \<not> th FUTURE_DROPPED t then
         (if tk_future t then Some ((or_state FUTURE_DROPPED t)\<lparr>tk_future := False\<rparr>) else None)
       else Some t)"

definition take_output :: "'r task \<Rightarrow> ('r option \<times> 'r task) option" where
  "take_output t =
     Option.bind (access t) (\<lambda>t.
       if th OUTPUT_PRESENT t then
         (case tk_output t of
            None \<Rightarrow> None
          | Some r \<Rightarrow> Some (Some r, (or_state CLOSED (clear_state OUTPUT_PRESENT t))\<lparr>tk_output := None\<rparr>))
       else Some (None, t))"

text \<open>\<^verbatim>\<open>TaskRegistry::remove\<close> on a linked header.\<close>

definition registry_remove :: "'r task \<Rightarrow> 'r task option" where
  "registry_remove t = Option.bind (access t) (\<lambda>t. if tk_linked t then Some (t\<lparr>tk_linked := False\<rparr>) else None)"

definition cleanup_owner :: "'r task \<Rightarrow> (bool \<times> 'r task) option" where
  "cleanup_owner t =
     Option.bind (access t) (\<lambda>t.
       if th SCHEDULE_DROPPED t \<or> \<not> th FUTURE_DROPPED t \<or> th RUNNING t \<or> tk_scheduling t then Some (False, t)
       else
         let t1 = notify None (or_state SCHEDULE_DROPPED (t\<lparr>tk_active := False\<rparr>))
         in if tk_linked t1 then map_option (\<lambda>t2. (True, t2)) (registry_remove t1) else Some (True, t1))"

definition finish :: "'r task \<Rightarrow> 'r task option" where
  "finish t = Option.bind (cleanup_owner t) (\<lambda>(done, t1). if done then release t1 else Some t1)"

definition close :: "'r task \<Rightarrow> 'r task option" where
  "close t =
     Option.bind (access t) (\<lambda>t.
       let t1 = (or_state CLOSED t)\<lparr>tk_active := False\<rparr>
       in if \<not> th RUNNING t1 then
            map_option (\<lambda>t3. notify None (clear_state RUNNING t3))
              (drop_future (or_state RUNNING (clear_state SCHEDULED t1)))
          else Some t1)"

text \<open>Dropping a runnable.\<close>

definition drop_task :: "'r task \<Rightarrow> 'r task option" where
  "drop_task t =
     Option.bind (close t) (\<lambda>t1. Option.bind (finish t1) (\<lambda>t2.
       release (t2\<lparr>tk_runnables := tk_runnables t2 - 1\<rparr>)))"

subsection \<open>Scheduling\<close>

text \<open>
  The schedule function of a task takes the runnable: it queues it, or drops it when the
  executor is no longer there to run it.
\<close>

definition call_schedule :: "'r task \<Rightarrow> 'r task option" where
  "call_schedule t =
     (let t1 = t\<lparr>tk_runnables := tk_runnables t + 1\<rparr> in if tk_sched_open t then Some t1 else drop_task t1)"

text \<open>The reference passed in becomes the runnable's.\<close>

definition schedule_owned :: "'r task \<Rightarrow> 'r task option" where
  "schedule_owned t =
     Option.bind (access t) (\<lambda>t.
       if th SCHEDULE_DROPPED t then release t
       else
         let was = tk_scheduling t
         in Option.bind (call_schedule (t\<lparr>tk_scheduling := True\<rparr>)) (\<lambda>t1.
              finish (t1\<lparr>tk_scheduling := was\<rparr>)))"

definition schedule :: "'r task \<Rightarrow> 'r task option" where
  "schedule t = Option.bind (increment_references t) schedule_owned"

definition cancel :: "'r task \<Rightarrow> 'r task option" where
  "cancel t =
     Option.bind (access t) (\<lambda>t.
       if th (COMPLETED OR CLOSED) t then Some t
       else
         let t1 = (or_state CLOSED t)\<lparr>tk_active := False\<rparr>
         in map_option (notify None)
              (if \<not> th (SCHEDULED OR RUNNING) t then schedule (or_state SCHEDULED t1) else Some t1))"

definition cancel_in_place :: "'r task \<Rightarrow> 'r task option" where
  "cancel_in_place t =
     Option.bind (cancel t) (\<lambda>t1. Option.bind (access t1) (\<lambda>t1.
       if \<not> th RUNNING t1 then map_option (clear_state RUNNING) (drop_future (or_state RUNNING t1))
       else Some t1))"

subsection \<open>Wakers\<close>

text \<open>
  \<open>own\<close> says whether the caller runs on the task's executor, \<open>peer\<close> whether the executor's
  notifier still exists, \<open>accepts\<close> whether it still takes wakers from other threads. A waker
  handed to the notifier keeps its reference; the result says whether one was handed over, with
  the task's latency mark.
\<close>

datatype handed = Nothing | HandedWake bool | HandedCleanup bool

definition clone_waker :: "'r task \<Rightarrow> 'r task option" where
  "clone_waker t = increment_references t"

definition do_wake :: "bool \<Rightarrow> bool \<Rightarrow> 'r task \<Rightarrow> (handed \<times> 'r task) option" where
  "do_wake own peer t =
     Option.bind (access t) (\<lambda>t.
       if \<not> tk_active t then Some (Nothing, t)
       else if \<not> own then
         (if peer then map_option (\<lambda>t1. (HandedWake (tk_latency_matters t), t1)) (clone_waker t) else Some (Nothing, t))
       else if \<not> th (COMPLETED OR CLOSED OR SCHEDULED) t then
         (let t1 = or_state SCHEDULED t
          in map_option (\<lambda>t2. (Nothing, t2)) (if \<not> th RUNNING t then schedule t1 else Some t1))
       else Some (Nothing, t))"

definition do_cleanup :: "bool \<Rightarrow> bool \<Rightarrow> 'r task \<Rightarrow> (handed \<times> 'r task) option" where
  "do_cleanup own peer t =
     Option.bind (access t) (\<lambda>t.
       if \<not> tk_active t then Some (Nothing, t)
       else if \<not> own then
         (if peer then map_option (\<lambda>t1. (HandedCleanup (tk_latency_matters t), t1)) (increment_references t) else Some (Nothing, t))
       else if \<not> th (HANDLE OR SCHEDULED OR RUNNING) t \<and> tk_references t = 2
       then map_option (\<lambda>t1. (Nothing, t1)) (cancel t)
       else Some (Nothing, t))"

definition drop_waker :: "bool \<Rightarrow> bool \<Rightarrow> 'r task \<Rightarrow> (handed \<times> 'r task) option" where
  "drop_waker own accepts t =
     Option.bind (access t) (\<lambda>t.
       let refs = tk_references t
       in if refs \<le> 0 then None
          else if refs = 1 then map_option (\<lambda>t1. (Nothing, t1)) (destroy t)
          else if refs = 2 \<and> tk_active t \<and> own then
            Option.bind (do_cleanup own accepts t) (\<lambda>(h, t1). map_option (\<lambda>t2. (h, t2)) (release t1))
          else if refs = 2 \<and> tk_active t \<and> accepts then Some (HandedCleanup (tk_latency_matters t), t)
          else Some (Nothing, t\<lparr>tk_references := refs - 1\<rparr>))"

subsection \<open>The join handle (task/join\_handle.rs)\<close>

definition drop_handle :: "'r task \<Rightarrow> 'r task option" where
  "drop_handle t =
     Option.bind (access t) (\<lambda>t.
     Option.bind (take_output (clear_state HANDLE t)) (\<lambda>(output, t1).
       if th SCHEDULE_DROPPED t1 \<and> tk_references t1 = 1 then destroy t1
       else
         Option.bind (finish t1) (\<lambda>t2. Option.bind (access t2) (\<lambda>t2.
           Option.bind (if \<not> th (SCHEDULED OR RUNNING OR CLOSED OR COMPLETED) t2 \<and> tk_references t2 = 2
                        then cancel t2 else Some t2) (\<lambda>t3.
             map_option snd (drop_waker True True t3))))))"

definition join_poll :: "waker \<Rightarrow> 'r task \<Rightarrow> ('r option poll \<times> 'r task) option" where
  "join_poll w t =
     Option.bind (access t) (\<lambda>t.
       if th CLOSED t then
         (if \<not> th FUTURE_DROPPED t \<or> th RUNNING t then Some (Pending, register w t)
          else Some (Ready None, notify (Some w) t))
       else if \<not> th COMPLETED t then Some (Pending, register w t)
       else
         (case tk_output t of
            None \<Rightarrow> None
          | Some r \<Rightarrow>
              Some (Ready (Some r),
                (notify (Some w) (clear_state OUTPUT_PRESENT (or_state CLOSED t)))\<lparr>tk_output := None\<rparr>)))"

subsection \<open>Running\<close>

text \<open>
  \<^verbatim>\<open>run\<close> up to the poll of the future: \<open>True\<close> means that the future is now being polled. A closed
  or completed task is dropped instead.
\<close>

definition run_start :: "'r task \<Rightarrow> (bool \<times> 'r task) option" where
  "run_start t =
     Option.bind (access t) (\<lambda>t.
       if th (CLOSED OR COMPLETED) t then map_option (\<lambda>t1. (False, t1)) (drop_task t)
       else if tk_future t then
         Some (True, (or_state RUNNING (clear_state SCHEDULED t))\<lparr>tk_runnables := tk_runnables t - 1\<rparr>)
       else None)"

text \<open>What the poll of the future may do: return, or panic, which the guard of the run handles.\<close>

datatype 'r poll_outcome = Finished 'r | Waits | Panicked

definition finish_ready :: "'r \<Rightarrow> 'r task \<Rightarrow> 'r task option" where
  "finish_ready r t =
     Option.bind (drop_future (t\<lparr>tk_active := False\<rparr>)) (\<lambda>t1.
       let t2 = (or_state (COMPLETED OR OUTPUT_PRESENT) (clear_state SCHEDULED t1))\<lparr>tk_output := Some r\<rparr>
       in map_option (\<lambda>t3. notify None (clear_state RUNNING t3))
            (if \<not> th HANDLE t2 \<or> th CLOSED t2 then map_option snd (take_output t2) else Some t2))"

definition finish_pending :: "'r task \<Rightarrow> 'r task option" where
  "finish_pending t =
     (if th CLOSED t then map_option (\<lambda>t1. notify None (clear_state (RUNNING OR SCHEDULED) t1)) (drop_future t)
      else
        let t1 = clear_state RUNNING t
        in if \<not> th HANDLE t1 \<and> tk_references t1 = 2 then close t1 else Some t1)"

definition run_tail :: "'r task \<Rightarrow> 'r task option" where
  "run_tail t =
     Option.bind (cleanup_owner t) (\<lambda>(release_registry, t1).
       if release_registry then release_references 2 t1 else map_option snd (drop_waker True True t1))"

definition poll_guard_drop :: "'r task \<Rightarrow> 'r task option" where
  "poll_guard_drop t =
     Option.bind (drop_future ((or_state (CLOSED OR RUNNING) t)\<lparr>tk_active := False\<rparr>)) (\<lambda>t1.
       Option.bind (finish (notify None (clear_state (RUNNING OR SCHEDULED) t1))) release)"

definition run_end :: "'r poll_outcome \<Rightarrow> 'r task \<Rightarrow> 'r task option" where
  "run_end out t =
     Option.bind (access t) (\<lambda>t.
       case out of
         Finished r \<Rightarrow> Option.bind (finish_ready r t) run_tail
       | Waits \<Rightarrow>
           (if \<not> th CLOSED t \<and> th SCHEDULED t then schedule_owned (clear_state RUNNING t)
            else Option.bind (finish_pending t) run_tail)
       | Panicked \<Rightarrow> poll_guard_drop t)"

definition task_schedule :: "'r task \<Rightarrow> 'r task option" where
  "task_schedule t = Option.bind (access t) (\<lambda>t. schedule_owned (t\<lparr>tk_runnables := tk_runnables t - 1\<rparr>))"

subsection \<open>Shutdown (task/registry.rs)\<close>

definition shutdown :: "'r task \<Rightarrow> 'r task option" where
  "shutdown t =
     Option.bind (increment_references t) (\<lambda>t1. Option.bind (registry_remove t1) (\<lambda>t2.
     Option.bind (close t2) (\<lambda>t3. Option.bind (finish t3) release)))"


subsection \<open>A task and its owners\<close>

text \<open>
  A task with the wakers that exist for it, those handed to the executor's notifier included,
  whether its future is being polled, and what its future returned. A task is \<^emph>\<open>abandoned\<close> once its
  last waker has been dropped on a thread that could not hand it to the executor any more; then
  only the executor's shutdown will find it.
\<close>

record 'r tsys =
  ts_task :: "'r task"
  ts_wakers :: int
  ts_cleanups :: int
  ts_polling :: bool
  ts_abandoned :: bool
  ts_returned :: "'r option"

datatype 'r top =
    TClone | TWake bool bool bool | TWakeRef bool bool | TDropWaker bool bool
  | TCleanup bool bool bool | TCleanupRef bool bool | TDropCleanup bool bool
  | TRunStart | TRunEnd "'r poll_outcome" | TSchedule | TDropTask | TCancel
  | TCancelInPlace | TDropHandle | TJoin waker | TShutdown | TCloseExecutor

definition ts_init :: "'r tsys \<Rightarrow> bool" where
  "ts_init s \<longleftrightarrow>
     (\<exists>l. s = \<lparr>ts_task = allocate l, ts_wakers = 0, ts_cleanups = 0, ts_polling = False, ts_abandoned = False,
              ts_returned = None\<rparr>)"

definition take_handed :: "handed \<Rightarrow> 'r tsys \<Rightarrow> 'r tsys" where
  "take_handed h s =
     (case h of
        Nothing \<Rightarrow> s
      | HandedWake _ \<Rightarrow> s\<lparr>ts_wakers := ts_wakers s + 1\<rparr>
      | HandedCleanup _ \<Rightarrow> s\<lparr>ts_cleanups := ts_cleanups s + 1\<rparr>)"

definition abandons :: "bool \<Rightarrow> bool \<Rightarrow> 'r task \<Rightarrow> bool" where
  "abandons own accepts t \<longleftrightarrow> \<not> own \<and> \<not> accepts \<and> tk_active t \<and> tk_references t = 2"

text \<open>The drop of a waker whose owner has already been taken off the count.\<close>

definition drop_step :: "bool \<Rightarrow> bool \<Rightarrow> 'r tsys \<Rightarrow> 'r tsys option" where
  "drop_step own accepts s =
     map_option (\<lambda>(h, t). take_handed h (s\<lparr>ts_task := t, ts_abandoned := ts_abandoned s \<or> abandons own accepts (ts_task s)\<rparr>))
       (drop_waker own accepts (ts_task s))"

definition handed_step :: "'r tsys \<Rightarrow> (handed \<times> 'r task) option \<Rightarrow> 'r tsys option" where
  "handed_step s r = map_option (\<lambda>(h, t). take_handed h (s\<lparr>ts_task := t\<rparr>)) r"

definition task_step :: "'r tsys \<Rightarrow> 'r task option \<Rightarrow> 'r tsys option" where
  "task_step s r = map_option (\<lambda>t. s\<lparr>ts_task := t\<rparr>) r"

fun ts_exec :: "'r top \<Rightarrow> 'r tsys \<Rightarrow> 'r tsys option" where
  "ts_exec TClone s = task_step (s\<lparr>ts_wakers := ts_wakers s + 1\<rparr>) (clone_waker (ts_task s))"
| "ts_exec (TWake own peer acc) s =
     Option.bind (handed_step s (do_wake own peer (ts_task s))) (\<lambda>s1.
       drop_step own acc (s1\<lparr>ts_wakers := ts_wakers s1 - 1\<rparr>))"
| "ts_exec (TWakeRef own peer) s = handed_step s (do_wake own peer (ts_task s))"
| "ts_exec (TDropWaker own acc) s = drop_step own acc (s\<lparr>ts_wakers := ts_wakers s - 1\<rparr>)"
| "ts_exec (TCleanup own peer acc) s =
     Option.bind (handed_step s (do_cleanup own peer (ts_task s))) (\<lambda>s1.
       drop_step own acc (s1\<lparr>ts_cleanups := ts_cleanups s1 - 1\<rparr>))"
| "ts_exec (TCleanupRef own peer) s = handed_step s (do_cleanup own peer (ts_task s))"
| "ts_exec (TDropCleanup own acc) s = drop_step own acc (s\<lparr>ts_cleanups := ts_cleanups s - 1\<rparr>)"
| "ts_exec TRunStart s = map_option (\<lambda>(polls, t). s\<lparr>ts_task := t, ts_polling := polls\<rparr>) (run_start (ts_task s))"
| "ts_exec (TRunEnd out) s =
     task_step (s\<lparr>ts_polling := False, ts_returned := (case out of Finished r \<Rightarrow> Some r | _ \<Rightarrow> ts_returned s)\<rparr>)
       (run_end out (ts_task s))"
| "ts_exec TSchedule s = task_step s (task_schedule (ts_task s))"
| "ts_exec TDropTask s = task_step s (drop_task (ts_task s))"
| "ts_exec TCancel s = task_step s (cancel (ts_task s))"
| "ts_exec TCancelInPlace s = task_step s (cancel_in_place (ts_task s))"
| "ts_exec TDropHandle s = task_step s (drop_handle (ts_task s))"
| "ts_exec (TJoin w) s = task_step s (map_option snd (join_poll w (ts_task s)))"
| "ts_exec TShutdown s = task_step s (shutdown (ts_task s))"
| "ts_exec TCloseExecutor s = Some (s\<lparr>ts_task := (ts_task s)\<lparr>tk_sched_open := False\<rparr>\<rparr>)"

text \<open>Which call each owner may make; the counter is far from the limit of its type.\<close>

fun ts_enabled :: "'r top \<Rightarrow> 'r tsys \<Rightarrow> bool" where
  "ts_enabled op s \<longleftrightarrow>
     ts_wakers s + ts_cleanups s < 2 ^ 31 - 16 \<and>
     (case op of
        TClone \<Rightarrow> 0 < ts_wakers s \<or> ts_polling s
      | TWake _ _ _ \<Rightarrow> 0 < ts_wakers s
      | TWakeRef _ _ \<Rightarrow> 0 < ts_wakers s \<or> ts_polling s
      | TDropWaker _ _ \<Rightarrow> 0 < ts_wakers s
      | TCleanup _ _ _ \<Rightarrow> 0 < ts_cleanups s
      | TCleanupRef _ _ \<Rightarrow> 0 < ts_cleanups s
      | TDropCleanup _ _ \<Rightarrow> 0 < ts_cleanups s
      | TRunStart \<Rightarrow> 0 < tk_runnables (ts_task s)
      | TRunEnd _ \<Rightarrow> ts_polling s
      | TSchedule \<Rightarrow> 0 < tk_runnables (ts_task s)
      | TDropTask \<Rightarrow> 0 < tk_runnables (ts_task s)
      | TCancel \<Rightarrow> th HANDLE (ts_task s) \<or> 0 < tk_runnables (ts_task s)
      | TCancelInPlace \<Rightarrow> th HANDLE (ts_task s)
      | TDropHandle \<Rightarrow> th HANDLE (ts_task s)
      | TJoin _ \<Rightarrow> th HANDLE (ts_task s)
      | TShutdown \<Rightarrow> tk_linked (ts_task s)
      | TCloseExecutor \<Rightarrow> True)"

inductive ts_step :: "'r tsys \<Rightarrow> 'r tsys \<Rightarrow> bool" where
  "ts_enabled op s \<Longrightarrow> ts_exec op s = Some s' \<Longrightarrow> ts_step s s'"

inductive_cases ts_stepE: "ts_step s s'"

subsection \<open>Total correctness of partial steps\<close>

definition good :: "('a \<Rightarrow> bool) \<Rightarrow> 'a option \<Rightarrow> bool" where
  "good P r \<longleftrightarrow> (\<exists>x. r = Some x \<and> P x)"

lemma good_simps [simp]:
  "good P None \<longleftrightarrow> False"
  "good P (Some x) \<longleftrightarrow> P x"
  "good P (Option.bind r f) \<longleftrightarrow> good (\<lambda>x. good P (f x)) r"
  "good P (map_option g r) \<longleftrightarrow> good (\<lambda>x. P (g x)) r"
  by (auto simp: good_def split: bind_splits)

lemma good_if [simp]: "good P (if b then r else r') \<longleftrightarrow> (if b then good P r else good P r')"
  by simp

lemma good_bind: "good Q r \<Longrightarrow> (\<And>x. Q x \<Longrightarrow> good P (f x)) \<Longrightarrow> good P (Option.bind r f)"
  by (auto simp: good_def)

lemma good_mono: "good P r \<Longrightarrow> (\<And>x. P x \<Longrightarrow> Q x) \<Longrightarrow> good Q r"
  by (auto simp: good_def)

definition core :: "int \<Rightarrow> 'r task \<Rightarrow> bool" where
  "core n t \<longleftrightarrow>
     \<not> tk_freed t \<and> 0 \<le> n \<and> 0 < tk_references t \<and>
     tk_references t = n + of_bool (th HANDLE t) + of_bool (\<not> th SCHEDULE_DROPPED t) \<and>
     (th SCHEDULE_DROPPED t \<longrightarrow> th FUTURE_DROPPED t \<and> \<not> th RUNNING t \<and> \<not> tk_active t \<and> \<not> tk_linked t \<and> tk_awaiter t = None) \<and>
     (tk_output t \<noteq> None \<longleftrightarrow> th OUTPUT_PRESENT t) \<and>
     (th OUTPUT_PRESENT t \<longleftrightarrow> th COMPLETED t \<and> \<not> th CLOSED t) \<and>
     (th OUTPUT_PRESENT t \<longrightarrow> th HANDLE t) \<and>
     (th COMPLETED t \<longrightarrow> th FUTURE_DROPPED t) \<and>
     (th FUTURE_DROPPED t \<longrightarrow> th CLOSED t \<or> th COMPLETED t) \<and>
     (tk_future t \<longleftrightarrow> \<not> th FUTURE_DROPPED t) \<and>
     (tk_active t \<longleftrightarrow> \<not> th CLOSED t \<and> \<not> th COMPLETED t)"

definition bnd :: "bool \<Rightarrow> 'r task \<Rightarrow> bool" where
  "bnd run t \<longleftrightarrow>
     (th RUNNING t \<longleftrightarrow> run) \<and> 0 \<le> tk_runnables t \<and> tk_runnables t + of_bool run \<le> 1 \<and>
     (0 < tk_runnables t \<longrightarrow> th SCHEDULED t \<or> th CLOSED t) \<and>
     (th COMPLETED t \<longrightarrow> th SCHEDULE_DROPPED t \<and> tk_runnables t = 0)"

definition live :: "bool \<Rightarrow> 'r task \<Rightarrow> bool" where
  "live run t \<longleftrightarrow> \<not> tk_scheduling t \<and>
     (\<not> th SCHEDULE_DROPPED t \<and> (th SCHEDULED t \<or> \<not> tk_active t) \<longrightarrow> 0 < tk_runnables t \<or> run)"

definition owned :: "bool \<Rightarrow> int \<Rightarrow> 'r task \<Rightarrow> bool" where
  "owned run n t \<longleftrightarrow> th SCHEDULE_DROPPED t \<or> 0 < n + of_bool run + tk_runnables t + of_bool (th HANDLE t)"

definition gone :: "int \<Rightarrow> 'r task \<Rightarrow> bool" where
  "gone n t \<longleftrightarrow> tk_freed t \<and> n = 0 \<and> \<not> th HANDLE t \<and> \<not> tk_linked t \<and> th SCHEDULE_DROPPED t \<and> \<not> tk_future t \<and> tk_output t = None \<and>
     tk_awaiter t = None \<and> tk_runnables t = 0"

definition up :: "bool \<Rightarrow> bool \<Rightarrow> int \<Rightarrow> 'r task \<Rightarrow> bool" where
  "up b run n t \<longleftrightarrow> core (n + of_bool run + tk_runnables t) t \<and> bnd run t \<and> live run t \<and> (b \<longrightarrow> owned run n t) \<and> 0 \<le> n"

definition okt :: "bool \<Rightarrow> bool \<Rightarrow> int \<Rightarrow> 'r task \<Rightarrow> bool" where
  "okt b run n t \<longleftrightarrow> gone n t \<and> \<not> run \<or> up b run n t"

lemma notify_sel [simp]:
  "tk_state (notify c t) = tk_state t" "tk_references (notify c t) = tk_references t" "tk_active (notify c t) = tk_active t"
  "tk_linked (notify c t) = tk_linked t" "tk_scheduling (notify c t) = tk_scheduling t" "tk_awaiter (notify c t) = None"
  "tk_future (notify c t) = tk_future t" "tk_output (notify c t) = tk_output t" "tk_freed (notify c t) = tk_freed t"
  "tk_runnables (notify c t) = tk_runnables t" "tk_sched_open (notify c t) = tk_sched_open t"
  "tk_latency_matters (notify c t) = tk_latency_matters t"
  by (auto simp: notify_def Let_def split: option.splits)

lemmas prims = access_def or_state_def clear_state_def Let_def

lemmas okdefs = core_def bnd_def live_def owned_def up_def okt_def gone_def

lemma coreD:
  assumes "core n t"
  shows "\<not> tk_freed t" "0 \<le> n"
    "tk_references t = n + of_bool (th HANDLE t) + of_bool (\<not> th SCHEDULE_DROPPED t)"
    "tk_future t \<longleftrightarrow> \<not> th FUTURE_DROPPED t"
  using assms by (auto simp: core_def)

lemma drop_future_eq:
  assumes "\<not> tk_freed t" "tk_future t \<longleftrightarrow> \<not> th FUTURE_DROPPED t"
  shows "drop_future t = Some (t\<lparr>tk_state := tk_state t OR FUTURE_DROPPED, tk_future := False\<rparr>)"
proof -
  have "s OR FUTURE_DROPPED = s" if "has FUTURE_DROPPED s" for s
    by (rule bit_eqI) (use that in \<open>auto simp: has_flag bit_or_iff bit_flag\<close>)
  then show ?thesis
    using assms by (cases t) (simp add: drop_future_def prims)
qed

lemma release_eq:
  assumes "core (n + 1) t" "0 \<le> n"
  shows "release t = Some (t\<lparr>tk_references := tk_references t - 1, tk_freed := tk_references t = 1\<rparr>)"
  using assms
  apply (cases "th HANDLE t"; cases "th SCHEDULE_DROPPED t"; cases t)
  apply (auto simp: core_def release_def release_references_def destroy_def prims)
  done

definition closed :: "'r task \<Rightarrow> 'r task" where
  "closed t = notify None (t\<lparr>tk_active := False, tk_future := False,
     tk_state := (((tk_state t OR CLOSED) AND NOT SCHEDULED) OR RUNNING OR FUTURE_DROPPED) AND NOT RUNNING\<rparr>)"

lemma close_eq:
  assumes "core n t" "\<not> th RUNNING t"
  shows "close t = Some (closed t)"
  using assms by (simp add: close_def prims drop_future_eq coreD closed_def or.assoc)

definition finished :: "'r task \<Rightarrow> 'r task" where
  "finished t = (notify None (t\<lparr>tk_active := False, tk_state := tk_state t OR SCHEDULE_DROPPED\<rparr>))\<lparr>tk_linked := False\<rparr>"

lemma cleanup_owner_eq:
  assumes "core n t" "th FUTURE_DROPPED t" "\<not> th RUNNING t" "\<not> tk_scheduling t" "\<not> th SCHEDULE_DROPPED t"
  shows "cleanup_owner t = Some (True, finished t)"
proof -
  have "(notify None t)\<lparr>tk_linked := False\<rparr> = notify None t" if "\<not> tk_linked t" for t :: "'a task"
    using that by (cases t) (auto simp: notify_def Let_def split: option.splits)
  from this [of "t\<lparr>tk_active := False, tk_state := tk_state t OR SCHEDULE_DROPPED\<rparr>"] show ?thesis
    using assms by (auto simp: cleanup_owner_def registry_remove_def finished_def prims coreD)
qed

lemma core_finished:
  assumes "core n t" "th FUTURE_DROPPED t" "\<not> th RUNNING t" "\<not> th SCHEDULE_DROPPED t"
  shows "core (n + 1) (finished t)"
  using assms by (auto simp: core_def finished_def)

lemma core_release:
  assumes "core (n + 1) t" "0 < n + of_bool (th HANDLE t) + of_bool (\<not> th SCHEDULE_DROPPED t)" "0 \<le> n"
  shows "core n (t\<lparr>tk_references := tk_references t - 1, tk_freed := tk_references t = 1\<rparr>)"
  using assms by (auto simp: core_def)

lemma finish_eq:
  assumes "core n t" "th FUTURE_DROPPED t" "\<not> th RUNNING t" "\<not> tk_scheduling t" "\<not> th SCHEDULE_DROPPED t"
  shows "finish t = Some ((finished t)\<lparr>tk_references := tk_references t - 1, tk_freed := tk_references t = 1\<rparr>)"
proof -
  have "th FUTURE_DROPPED (finished t)" "0 \<le> n" "tk_references (finished t) = tk_references t"
    using assms by (auto simp: finished_def core_def)
  with release_eq [OF core_finished [OF assms(1,2,3,5)]] assms show ?thesis
    by (simp add: finish_def cleanup_owner_eq)
qed

lemma core_closed:
  assumes "core n t" "\<not> th RUNNING t" "\<not> th OUTPUT_PRESENT t"
  shows "core n (closed t)"
  using assms by (auto simp: core_def closed_def)

lemma closed_sel [simp]:
  "th RUNNING (closed t) = False" "th SCHEDULED (closed t) = False" "th FUTURE_DROPPED (closed t)" "th CLOSED (closed t)"
  "th SCHEDULE_DROPPED (closed t) = th SCHEDULE_DROPPED t" "th COMPLETED (closed t) = th COMPLETED t"
  "th HANDLE (closed t) = th HANDLE t" "th OUTPUT_PRESENT (closed t) = th OUTPUT_PRESENT t"
  "tk_runnables (closed t) = tk_runnables t" "tk_references (closed t) = tk_references t" "\<not> tk_active (closed t)"
  "tk_scheduling (closed t) = tk_scheduling t" "tk_awaiter (closed t) = None" "tk_sched_open (closed t) = tk_sched_open t"
  by (simp_all add: closed_def)

lemma finished_sel [simp]:
  "th RUNNING (finished t) = th RUNNING t" "th SCHEDULED (finished t) = th SCHEDULED t" "th FUTURE_DROPPED (finished t) = th FUTURE_DROPPED t"
  "th CLOSED (finished t) = th CLOSED t" "th SCHEDULE_DROPPED (finished t)" "th COMPLETED (finished t) = th COMPLETED t"
  "th HANDLE (finished t) = th HANDLE t" "th OUTPUT_PRESENT (finished t) = th OUTPUT_PRESENT t"
  "tk_runnables (finished t) = tk_runnables t" "tk_references (finished t) = tk_references t" "\<not> tk_active (finished t)"
  "tk_scheduling (finished t) = tk_scheduling t" "tk_awaiter (finished t) = None" "tk_sched_open (finished t) = tk_sched_open t"
  "\<not> tk_linked (finished t)"
  by (simp_all add: finished_def)

definition kept :: "'r task \<Rightarrow> 'r task \<Rightarrow> bool" where
  "kept t t' \<longleftrightarrow> th HANDLE t' = th HANDLE t \<and> (th CLOSED t \<longrightarrow> th CLOSED t') \<and> (th COMPLETED t \<longrightarrow> th COMPLETED t')"

lemma core_upd [simp]:
  "core n (t\<lparr>tk_runnables := q\<rparr>) = core n t"
  "core n (t\<lparr>tk_scheduling := c\<rparr>) = core n t"
  by (simp_all add: core_def)

lemma released_gone:
  assumes "core (n + 1) t" "tk_references t = 1" "0 \<le> n" "tk_runnables t = 0"
  shows "n = 0" "gone 0 (t\<lparr>tk_references := 0, tk_freed := True\<rparr>)"
proof -
  have "n = 0 \<and> \<not> th HANDLE t \<and> th SCHEDULE_DROPPED t"
    using assms coreD(3) [OF assms(1)] by (cases "th HANDLE t"; cases "th SCHEDULE_DROPPED t") auto
  then show "n = 0" "gone 0 (t\<lparr>tk_references := 0, tk_freed := True\<rparr>)"
    using assms by (auto simp: core_def gone_def)
qed

lemma up_release:
  assumes "core (n + 1 + of_bool run + tk_runnables t) t" "bnd run t" "live run t" "b \<longrightarrow> owned run n t" "0 \<le> n"
  shows "good (\<lambda>t'. okt b run n t' \<and> kept t t') (release t)"
proof -
  let ?m = "n + of_bool run + tk_runnables t"
  have m: "0 \<le> ?m" "core (?m + 1) t" using assms by (auto simp: bnd_def algebra_simps)
  note r = release_eq [OF m(2,1)]
  show ?thesis
  proof (cases "tk_references t = 1")
    case True
    then have "?m = 0" using coreD(3) [OF m(2)] m(1) by (cases "th HANDLE t"; cases "th SCHEDULE_DROPPED t") auto
    then have "n = 0" "\<not> run" "tk_runnables t = 0" using assms by (auto simp: bnd_def of_bool_def split: if_splits)
    with released_gone(2) [OF m(2) True m(1)] show ?thesis using True r by (simp add: okt_def kept_def)
  next
    case False
    have "0 < ?m + of_bool (th HANDLE t) + of_bool (\<not> th SCHEDULE_DROPPED t)"
      using False coreD(3) [OF m(2)] m(1) by (cases "th HANDLE t"; cases "th SCHEDULE_DROPPED t") auto
    from core_release [OF m(2) this m(1)]
    have "core ?m (t\<lparr>tk_references := tk_references t - 1, tk_freed := False\<rparr>)" by (simp only: False)
    then show ?thesis
      using r False assms by (simp add: okt_def up_def bnd_def live_def owned_def kept_def)
  qed
qed

lemma finish_good:
  assumes "core n t" "bnd run t" "\<not> tk_scheduling t" "0 < n + of_bool (th HANDLE t)"
    "\<not> th SCHEDULE_DROPPED t \<longrightarrow> (th FUTURE_DROPPED t \<and> \<not> run) \<or> live run t"
  shows "good (\<lambda>t'. core n t' \<and> bnd run t' \<and> live run t' \<and> tk_runnables t' = tk_runnables t \<and> th HANDLE t' = th HANDLE t \<and>
     th CLOSED t' = th CLOSED t \<and> th COMPLETED t' = th COMPLETED t \<and> th SCHEDULED t' = th SCHEDULED t \<and>
     (th FUTURE_DROPPED t \<and> \<not> run \<longrightarrow> th SCHEDULE_DROPPED t')) (finish t)"
proof (cases "th FUTURE_DROPPED t \<and> \<not> run \<and> \<not> th SCHEDULE_DROPPED t")
  case True
  then show ?thesis
    using assms finish_eq [OF assms(1)] core_release [OF core_finished [OF assms(1)]] coreD [OF assms(1)]
    by (auto simp: bnd_def live_def)
next
  case False
  then have "finish t = Some t"
    using assms by (auto simp: finish_def cleanup_owner_def prims coreD bnd_def)
  then show ?thesis using assms False by (auto simp: live_def)
qed

lemma close_good:
  assumes "core n t" "bnd run t" "\<not> th OUTPUT_PRESENT t"
  shows "good (\<lambda>t'. core n t' \<and> bnd run t' \<and> tk_runnables t' = tk_runnables t \<and> th HANDLE t' = th HANDLE t \<and>
     tk_scheduling t' = tk_scheduling t \<and> th CLOSED t' \<and> th COMPLETED t' = th COMPLETED t \<and>
     th SCHEDULE_DROPPED t' = th SCHEDULE_DROPPED t \<and> (\<not> run \<longrightarrow> th FUTURE_DROPPED t') \<and> tk_linked t' = tk_linked t) (close t)"
proof (cases "th RUNNING t")
  case True
  then show ?thesis using assms by (auto simp: close_def prims okdefs)
next
  case False
  then show ?thesis
    using assms close_eq [OF assms(1)] core_closed [OF assms(1)] by (auto simp: bnd_def) (simp_all add: closed_def)
qed

lemma drop_task_ok:
  assumes "up b0 False n t" "0 < tk_runnables t"
  shows "good (\<lambda>t'. okt b False n t' \<and> kept t t' \<and> th CLOSED t') (drop_task t)"
  unfolding drop_task_def good_simps
  apply (rule good_mono [OF close_good [of "n + tk_runnables t" t False]])
  using assms apply (auto simp: up_def core_def bnd_def)[3]
  apply (elim conjE)
  apply (rule good_mono [OF finish_good [of "n + tk_runnables t" _ False]])
  using assms apply (auto simp: up_def live_def)[5]
  apply (elim conjE)
  apply (rule good_mono [OF up_release [where n = n and run = False and b = b]])
  using assms apply (auto simp: bnd_def live_def owned_def up_def kept_def)
  done


text \<open>Inside the schedule function a dropped runnable only closes the task: the cleanup is left to the caller.\<close>

lemma call_schedule_good:
  assumes "core (n + 1) t" "bnd False t" "tk_runnables t = 0" "\<not> th SCHEDULE_DROPPED t" "tk_scheduling t" "0 \<le> n"
    "th SCHEDULED t \<or> th CLOSED t"
  shows "good (\<lambda>t'. core (n + tk_runnables t') t' \<and> bnd False t' \<and> th HANDLE t' = th HANDLE t \<and>
     (tk_runnables t' = 1 \<or> th FUTURE_DROPPED t') \<and> kept t t') (call_schedule t)"
proof (cases "tk_sched_open t")
  case True
  then show ?thesis using assms by (simp add: call_schedule_def bnd_def kept_def)
next
  case False
  let ?u = "t\<lparr>tk_runnables := 1\<rparr>"
  have no: "\<not> th OUTPUT_PRESENT t" "\<not> th RUNNING t" using assms by (auto simp: core_def bnd_def)
  have c: "core (n + 1) (closed ?u)" using core_closed [of "n + 1" ?u] assms no by simp
  have "core (n + 1) ((closed ?u)\<lparr>tk_runnables := 0\<rparr>)" using c by simp
  note r = release_eq [OF this assms(6)]
  have "core n ((closed ?u)\<lparr>tk_runnables := 0, tk_references := tk_references t - 1, tk_freed := tk_references t = 1\<rparr>)"
    using core_release [of n "(closed ?u)\<lparr>tk_runnables := 0\<rparr>"] c assms by simp
  moreover have "finish (closed ?u) = Some (closed ?u)"
    using c assms by (simp add: finish_def cleanup_owner_def prims coreD)
  ultimately show ?thesis
    using False assms no r by (simp add: call_schedule_def drop_task_def close_eq [of "n + 1"] bnd_def kept_def)
qed

lemma finish_ok:
  assumes "core (n + of_bool run + tk_runnables t) t" "bnd run t" "\<not> tk_scheduling t" "0 \<le> n"
    "th FUTURE_DROPPED t \<and> \<not> run \<or> live run t \<and> (b \<longrightarrow> owned run n t)"
  shows "good (\<lambda>t'. okt b run n t' \<and> kept t t') (finish t)"
proof (cases "th FUTURE_DROPPED t \<and> \<not> run \<and> \<not> th SCHEDULE_DROPPED t")
  case True
  then have "core (n + 1 + of_bool run + tk_runnables (finished t)) (finished t)" "\<not> th RUNNING t"
    using core_finished [OF assms(1)] assms(2) by (auto simp: bnd_def algebra_simps)
  moreover have "bnd run (finished t)" "live run (finished t)" "owned run n (finished t)"
    using assms True by (auto simp: bnd_def live_def owned_def)
  moreover have "kept (finished t) = kept t" by (simp add: kept_def fun_eq_iff)
  ultimately show ?thesis
    using up_release [of n run "finished t" b] True assms by (simp add: finish_def cleanup_owner_eq [OF assms(1)])
next
  case False
  then have "finish t = Some t"
    using assms by (auto simp: finish_def cleanup_owner_def prims coreD bnd_def)
  then show ?thesis using assms False by (auto simp: okt_def up_def kept_def live_def owned_def)
qed

lemma schedule_owned_ok:
  assumes "core (n + 1) t" "bnd False t" "tk_runnables t = 0" "\<not> tk_scheduling t" "0 \<le> n" "th SCHEDULED t \<or> th CLOSED t"
  shows "good (\<lambda>t'. okt b False n t' \<and> kept t t') (schedule_owned t)"
proof (cases "th SCHEDULE_DROPPED t")
  case True
  then show ?thesis
    using assms up_release [of n False t b] by (simp add: schedule_owned_def prims coreD live_def owned_def)
next
  case False
  have "good (\<lambda>t'. core (n + tk_runnables t') t' \<and> bnd False t' \<and> kept t t' \<and>
     (tk_runnables t' = 1 \<or> th FUTURE_DROPPED t')) (call_schedule (t\<lparr>tk_scheduling := True\<rparr>))"
    using False assms
    by (intro good_mono [OF call_schedule_good [of n]]) (auto simp: bnd_def kept_def)
  then have "good (\<lambda>t'. good (\<lambda>t'. okt b False n t' \<and> kept t t') (finish (t'\<lparr>tk_scheduling := False\<rparr>)))
     (call_schedule (t\<lparr>tk_scheduling := True\<rparr>))"
    by (rule good_mono, intro good_mono [OF finish_ok [where n = n and run = False and b = b]])
      (use assms in \<open>auto simp: bnd_def live_def owned_def kept_def\<close>)
  then show ?thesis
    using False assms by (simp add: schedule_owned_def prims coreD)
qed


lemma okt_up: "okt b run n t \<Longrightarrow> 0 < n + of_bool (th HANDLE t) \<or> run \<Longrightarrow> up b run n t"
  by (auto simp: okt_def gone_def)

lemma schedule_ok:
  assumes "core n t" "bnd False t" "tk_runnables t = 0" "\<not> tk_scheduling t" "0 \<le> n" "th SCHEDULED t \<or> th CLOSED t"
    "0 < n + of_bool (th HANDLE t)" "tk_references t < 2 ^ 31 - 1"
  shows "good (\<lambda>t'. up True False n t' \<and> kept t t') (schedule t)"
proof -
  let ?t = "t\<lparr>tk_references := tk_references t + 1\<rparr>"
  have "increment_references t = Some ?t"
    using assms by (cases "th HANDLE t") (auto simp: increment_references_def prims coreD(1,3))
  moreover have "core (n + 1) ?t" "bnd False ?t" using assms by (auto simp: core_def bnd_def)
  moreover have "up True False n t'" if "okt True False n t'" "kept ?t t'" for t'
    using that assms by (intro okt_up) (auto simp: kept_def)
  ultimately show ?thesis
    using schedule_owned_ok [of n ?t True] assms by (auto simp: schedule_def kept_def elim!: good_mono)
qed

lemma up_notify: "up b run n t \<Longrightarrow> up b run n (notify c t)"
  by (auto simp: up_def core_def bnd_def live_def owned_def)

lemma kept_notify [simp]: "kept t (notify c t') = kept t t'"
  by (simp add: kept_def)

lemma cancel_ok:
  assumes "up b run n t" "0 < n + of_bool (th HANDLE t) \<or> 0 < tk_runnables t \<or> run" "tk_references t < 2 ^ 31 - 1"
  shows "good (\<lambda>t'. up True run n t' \<and> kept t t' \<and> (th CLOSED t' \<or> th COMPLETED t')) (cancel t)"
proof -
  have c: "core (n + of_bool run + tk_runnables t) t" "bnd run t" "live run t" "0 \<le> n" using assms by (auto simp: up_def)
  have o: "owned run n t" using assms c by (auto simp: owned_def bnd_def)
  let ?t = "(or_state CLOSED t)\<lparr>tk_active := False\<rparr>"
  show ?thesis
  proof (cases "th COMPLETED t \<or> th CLOSED t")
    case True
    then show ?thesis using c o by (auto simp: cancel_def prims up_def kept_def coreD)
  next
    case False
    have cu: "core (n + of_bool run + tk_runnables t) ?t" "kept t ?t"
      using c False by (auto simp: core_def prims kept_def)
    show ?thesis
    proof (cases "th SCHEDULED t \<or> th RUNNING t")
      case True
      have "up True run n ?t" using cu c o False True by (auto simp: up_def bnd_def live_def owned_def prims)
      then show ?thesis using True False cu by (simp add: cancel_def coreD [OF c(1)] access_def up_notify) (simp add: prims)
    next
      case idle: False
      then have i: "\<not> run" "tk_runnables t = 0" using c False by (auto simp: bnd_def)
      have "good (\<lambda>t'. up True False n t' \<and> kept (or_state SCHEDULED ?t) t') (schedule (or_state SCHEDULED ?t))"
        using i cu c assms idle False
        by (intro schedule_ok) (auto simp: core_def bnd_def live_def or_state_def)
      then show ?thesis
        using idle False i
        by (auto simp: cancel_def coreD [OF c(1)] access_def up_notify kept_def or_state_def elim!: good_mono)
    qed
  qed
qed


lemma cancel_in_place_ok:
  assumes "up b run n t" "th HANDLE t" "tk_references t < 2 ^ 31 - 1"
  shows "good (\<lambda>t'. up True run n t' \<and> kept t t') (cancel_in_place t)"
proof -
  have "good (\<lambda>t'. up True run n t' \<and> kept t t')
          (Option.bind (access t1) (\<lambda>t1. if \<not> th RUNNING t1 then map_option (clear_state RUNNING) (drop_future (or_state RUNNING t1))
             else Some t1))"
    if h: "up True run n t1 \<and> kept t t1 \<and> (th CLOSED t1 \<or> th COMPLETED t1)" for t1
  proof -
    have c: "core (n + of_bool run + tk_runnables t1) t1" "bnd run t1" "live run t1" "owned run n t1" "0 \<le> n"
      using h by (auto simp: up_def)
    have "drop_future (or_state RUNNING t1) =
        Some ((or_state RUNNING t1)\<lparr>tk_state := tk_state (or_state RUNNING t1) OR FUTURE_DROPPED, tk_future := False\<rparr>)"
      using coreD [OF c(1)] by (intro drop_future_eq) (auto simp: or_state_def)
    moreover have "up True run n (t1\<lparr>tk_future := False, tk_state := (tk_state t1 OR RUNNING OR FUTURE_DROPPED) AND NOT RUNNING\<rparr>)"
      if "\<not> th RUNNING t1"
      using c h that by (auto simp: up_def core_def bnd_def live_def owned_def)
    ultimately show ?thesis
      using h coreD(1) [OF c(1)] by (auto simp: access_def clear_state_def or_state_def kept_def or.assoc)
  qed
  then show ?thesis
    unfolding cancel_in_place_def good_simps using assms
    by (intro good_mono [OF cancel_ok [OF assms(1)]]) (auto simp: up_def)
qed

definition extra :: "handed \<Rightarrow> int" where
  "extra h = (if h = Nothing then 0 else 1)"

lemma increment_ok:
  assumes "up b run n t" "0 < tk_references t" "tk_references t < 2 ^ 31 - 1"
  shows "increment_references t = Some (t\<lparr>tk_references := tk_references t + 1\<rparr>)"
    "up b run (n + 1) (t\<lparr>tk_references := tk_references t + 1\<rparr>)"
  using assms by (auto simp: increment_references_def prims up_def core_def bnd_def live_def owned_def)

lemma up_refs: "up b run n t \<Longrightarrow> 0 < n + of_bool (th HANDLE t) \<or> run \<Longrightarrow> 0 < tk_references t"
  by (cases "th HANDLE t"; cases "th SCHEDULE_DROPPED t") (auto simp: up_def core_def bnd_def)

lemma up_closed: "up b False n t \<Longrightarrow> th CLOSED t \<or> th COMPLETED t \<Longrightarrow> 0 < tk_runnables t \<or> th SCHEDULE_DROPPED t"
  by (auto simp: up_def live_def core_def)

lemma up_True: "up True run n t \<Longrightarrow> up b run n t"
  by (simp add: up_def)

lemma up_bound: "up b run n t \<Longrightarrow> n < 2 ^ 31 - 4 \<Longrightarrow> tk_references t < 2 ^ 31 - 1"
  by (cases "th HANDLE t"; cases "th SCHEDULE_DROPPED t") (auto simp: up_def core_def bnd_def)

lemma up_access: "up b run n t \<Longrightarrow> access t = Some t"
  by (simp add: up_def core_def access_def)

lemma do_wake_ok:
  assumes "up b run n t" "0 < n \<or> run" "tk_references t < 2 ^ 31 - 1"
  shows "good (\<lambda>(h, t'). up b run (n + extra h) t' \<and> kept t t') (do_wake own peer t)"
proof -
  have c: "core (n + of_bool run + tk_runnables t) t" "bnd run t" "live run t" "0 \<le> n" using assms by (auto simp: up_def)
  consider "\<not> tk_active t" | "tk_active t" "\<not> own" | "tk_active t" own "th SCHEDULED t"
    | "tk_active t" own "\<not> th SCHEDULED t" by blast
  then show ?thesis
  proof cases
    case 1
    then show ?thesis using assms coreD(1) [OF c(1)] by (simp add: do_wake_def access_def extra_def kept_def)
  next
    case 2
    then show ?thesis
      using assms coreD(1) [OF c(1)] increment_ok [OF assms(1)] up_refs [OF assms(1)]
      by (auto simp: do_wake_def access_def extra_def kept_def clone_waker_def)
  next
    case 3
    then show ?thesis using assms coreD(1) [OF c(1)] by (simp add: do_wake_def access_def extra_def kept_def)
  next
    case 4
    then have nc: "\<not> th COMPLETED t" "\<not> th CLOSED t" using c by (auto simp: core_def)
    then have q: "tk_runnables t = 0" using 4 c by (auto simp: bnd_def)
    show ?thesis
    proof (cases run)
      case True
      then show ?thesis
        using 4 nc c coreD(1) [OF c(1)] assms
        by (auto simp: do_wake_def access_def extra_def kept_def or_state_def up_def core_def bnd_def live_def owned_def)
    next
      case False
      then have "\<not> th RUNNING t" using c by (simp add: bnd_def)
      have "good (\<lambda>t'. up True False n t' \<and> kept (or_state SCHEDULED t) t') (schedule (or_state SCHEDULED t))"
        using c 4 assms False q
        by (intro schedule_ok) (auto simp: core_def bnd_def live_def or_state_def)
      then show ?thesis
        using 4 nc coreD(1) [OF c(1)] False \<open>\<not> th RUNNING t\<close>
        by (auto simp: do_wake_def access_def extra_def kept_def or_state_def up_def elim!: good_mono)
    qed
  qed
qed

lemma do_cleanup_ok:
  assumes "up b run n t" "0 < n \<or> run" "tk_references t < 2 ^ 31 - 1"
  shows "good (\<lambda>(h, t'). up b run (n + extra h) t' \<and> kept t t' \<and> (own \<longrightarrow> h = Nothing) \<and>
     (own \<and> \<not> run \<and> \<not> th HANDLE t \<and> tk_references t = 2 \<longrightarrow> 0 < tk_runnables t' \<or> th SCHEDULE_DROPPED t'))
     (do_cleanup own peer t)"
proof -
  have c: "core (n + of_bool run + tk_runnables t) t" "bnd run t" "live run t" "0 \<le> n" using assms by (auto simp: up_def)
  have l: "\<not> run \<Longrightarrow> th SCHEDULED t \<or> \<not> tk_active t \<Longrightarrow> 0 < tk_runnables t \<or> th SCHEDULE_DROPPED t"
    using c by (auto simp: live_def)
  consider "\<not> tk_active t" | "tk_active t" "\<not> own"
    | "tk_active t" own "th (HANDLE OR SCHEDULED OR RUNNING) t \<or> tk_references t \<noteq> 2"
    | "tk_active t" own "\<not> th (HANDLE OR SCHEDULED OR RUNNING) t" "tk_references t = 2" by blast
  then show ?thesis
  proof cases
    case 1
    then show ?thesis using assms l coreD(1) [OF c(1)] by (auto simp: do_cleanup_def access_def extra_def kept_def)
  next
    case 2
    then show ?thesis
      using assms coreD(1) [OF c(1)] increment_ok [OF assms(1)] up_refs [OF assms(1)]
      by (auto simp: do_cleanup_def access_def extra_def kept_def)
  next
    case 3
    then show ?thesis using assms l c coreD(1) [OF c(1)]
      by (auto simp: do_cleanup_def access_def extra_def kept_def bnd_def)
  next
    case 4
    have "good (\<lambda>t'. up b run (n + extra Nothing) t' \<and> kept t t' \<and> (own \<longrightarrow> Nothing = Nothing) \<and>
      (own \<and> \<not> run \<and> \<not> th HANDLE t \<and> tk_references t = 2 \<longrightarrow> 0 < tk_runnables t' \<or> th SCHEDULE_DROPPED t')) (cancel t)"
      by (rule good_mono [OF cancel_ok [OF assms(1)]]) (use assms in \<open>auto simp: extra_def dest: up_closed up_True\<close>)
    then show ?thesis
      using 4 coreD(1) [OF c(1)] by (simp add: do_cleanup_def access_def)
  qed
qed


lemma release_up:
  assumes "up b run (n + 1) t" "b' \<longrightarrow> owned run n t" "0 \<le> n"
  shows "good (\<lambda>t'. okt b' run n t' \<and> kept t t') (release t)"
  using assms up_release [of n run t b'] by (simp add: up_def algebra_simps)

text \<open>
  Dropping a waker. Only a drop on another thread whose executor takes no more wakers can leave
  the registry as the last owner of a task.
\<close>

lemma drop_waker_ok:
  assumes "up b run (n + 1) t" "0 \<le> n" "tk_references t < 2 ^ 31 - 1"
    and b': "b' \<longrightarrow> own \<or> accepts \<or> \<not> tk_active t \<or> tk_references t \<noteq> 2"
  shows "good (\<lambda>(h, t'). okt b' run (n + extra h) t' \<and> kept t t' \<and> (own \<longrightarrow> h = Nothing)) (drop_waker own accepts t)"
proof -
  have c: "core (n + 1 + of_bool run + tk_runnables t) t" "bnd run t" "live run t" "0 \<le> tk_runnables t"
    using assms by (auto simp: up_def bnd_def)
  note refs = coreD(3) [OF c(1)] and fr = coreD(1) [OF c(1)]
  have other: "owned run n t" if "tk_references t \<noteq> 2 \<or> \<not> tk_active t"
    using that refs c(2,3,4) assms(2)
    by (cases "th HANDLE t"; cases "th SCHEDULE_DROPPED t"; cases run) (auto simp: owned_def live_def)
  have "0 < tk_references t" using up_refs [OF assms(1)] assms(2) by auto
  then consider "tk_references t = 1" | "tk_references t = 2" "tk_active t" own
    | "tk_references t = 2" "tk_active t" "\<not> own" accepts
    | "tk_references t > 1" "\<not> (tk_references t = 2 \<and> tk_active t \<and> (own \<or> accepts))"
    by fastforce
  then show ?thesis
  proof cases
    case 1
    then have "n = 0 \<and> \<not> run \<and> tk_runnables t = 0 \<and> \<not> th HANDLE t \<and> th SCHEDULE_DROPPED t"
      using refs c assms(2) by (cases "th HANDLE t"; cases "th SCHEDULE_DROPPED t"; cases run) auto
    then show ?thesis
      using 1 c fr by (auto simp: drop_waker_def access_def Let_def destroy_def extra_def okt_def gone_def kept_def core_def)
  next
    case 2
    have o: "owned run n t'" if "run \<or> th HANDLE t \<or> 0 < tk_runnables t' \<or> th SCHEDULE_DROPPED t'" "kept t t'" "up b run (n + 1) t'" for t'
      using that assms(2) by (auto simp: owned_def kept_def up_def bnd_def)
    have "good (\<lambda>(h, t1). good (\<lambda>t'. okt b' run (n + extra h) t' \<and> kept t t' \<and> (own \<longrightarrow> h = Nothing)) (release t1))
       (do_cleanup own accepts t)"
    proof (rule good_mono [OF do_cleanup_ok [OF assms(1)]], goal_cases)
      case (3 x)
      obtain h t1 where x: "x = (h, t1)" by (cases x)
      with 3 \<open>own\<close> have h: "h = Nothing" "up b run (n + 1) t1" "kept t t1" "owned run n t1"
        using o [of t1] \<open>tk_references t = 2\<close> by (auto simp: extra_def)
      have "good (\<lambda>t'. okt b' run n t' \<and> kept t1 t') (release t1)"
        using release_up h assms(2) by blast
      then show ?case using h x by (auto simp: extra_def kept_def elim!: good_mono)
    qed (use assms in auto)
    then show ?thesis
      using 2 fr by (auto simp: drop_waker_def access_def Let_def case_prod_unfold)
  next
    case 3
    then show ?thesis
      using assms fr by (auto simp: drop_waker_def access_def Let_def extra_def okt_def up_def kept_def owned_def bnd_def)
  next
    case 4
    have "core (n + of_bool run + tk_runnables t) (t\<lparr>tk_references := tk_references t - 1\<rparr>)"
      using c(1) assms(2) c(4) 4(1) by (auto simp: core_def)
    moreover have "b' \<longrightarrow> owned run n t" using 4 b' other by blast
    ultimately show ?thesis
      using 4 fr c assms(2)
      by (auto simp: drop_waker_def access_def Let_def extra_def okt_def up_def kept_def bnd_def live_def owned_def)
  qed
qed


subsection \<open>Running and the join handle keep the invariant\<close>

lemma run_start_ok:
  assumes "up b False n t" "0 < tk_runnables t"
  shows "good (\<lambda>(polls, t'). okt b polls n t' \<and> kept t t') (run_start t)"
proof -
  have c: "core (n + tk_runnables t) t" "bnd False t" using assms by (auto simp: up_def)
  show ?thesis
  proof (cases "th CLOSED t \<or> th COMPLETED t")
    case True
    then show ?thesis
      using coreD(1) [OF c(1)] good_mono [OF drop_task_ok [OF assms, of b]] by (auto simp: run_start_def access_def)
  next
    case False
    then have "tk_future t" "tk_runnables t = 1" using c assms by (auto simp: core_def bnd_def)
    then show ?thesis
      using c False assms coreD(1) [OF c(1)]
      by (auto simp: run_start_def prims okt_def kept_def up_def core_def bnd_def live_def owned_def)
  qed
qed

text \<open>While its future is polled a task has no other runnable, and it is neither completed nor cleaned up.\<close>

lemma running_state:
  assumes "up b True n t"
  shows "core (n + 1) t" "tk_runnables t = 0" "th RUNNING t" "\<not> th COMPLETED t" "\<not> th SCHEDULE_DROPPED t"
    "\<not> th OUTPUT_PRESENT t" "0 \<le> n" "\<not> tk_scheduling t" "tk_output t = None"
  using assms by (auto simp: up_def core_def bnd_def live_def)

definition settled :: "int \<Rightarrow> 'r task \<Rightarrow> bool" where
  "settled n t \<longleftrightarrow> core (n + 1) t \<and> \<not> th RUNNING t \<and> tk_runnables t = 0 \<and> \<not> tk_scheduling t \<and> \<not> th SCHEDULE_DROPPED t \<and>
     (\<not> th FUTURE_DROPPED t \<longrightarrow> \<not> th SCHEDULED t \<and> tk_active t \<and> \<not> th COMPLETED t)"

lemma release_references_eq:
  assumes "core (n + 2) t" "0 \<le> n"
  shows "release_references 2 t = Some (t\<lparr>tk_references := tk_references t - 2, tk_freed := tk_references t = 2\<rparr>)"
  using assms
  by (cases "th HANDLE t"; cases "th SCHEDULE_DROPPED t"; cases t)
    (auto simp: core_def release_references_def destroy_def prims)

lemma run_tail_ok:
  assumes "settled n t" "0 \<le> n" "tk_references t < 2 ^ 31 - 1"
  shows "good (\<lambda>t'. okt b False n t' \<and> kept t t') (run_tail t)"
proof (cases "th FUTURE_DROPPED t")
  case True
  have s: "core (n + 1) t" "\<not> th RUNNING t" "\<not> tk_scheduling t" "\<not> th SCHEDULE_DROPPED t" "tk_runnables t = 0"
    using assms by (auto simp: settled_def)
  have c: "core (n + 2) (finished t)" using core_finished [OF s(1) True s(2,4)] by (simp add: add.commute)
  have "core n ((finished t)\<lparr>tk_references := tk_references t - 2, tk_freed := False\<rparr>)" if "tk_references t \<noteq> 2"
    using c that assms(2) by (auto simp: core_def)
  moreover have "gone n ((finished t)\<lparr>tk_references := tk_references t - 2, tk_freed := True\<rparr>)" if "tk_references t = 2"
    using c that assms(2) coreD(3) [OF s(1)] s by (cases "th HANDLE t") (auto simp: core_def gone_def)
  ultimately show ?thesis
    using release_references_eq [OF c assms(2)] s assms(2)
    by (cases "tk_references t = 2")
      (auto simp: run_tail_def cleanup_owner_eq [OF s(1) True s(2,3,4)] okt_def up_def bnd_def live_def owned_def kept_def)
next
  case False
  have s: "core (n + 1) t" "\<not> th RUNNING t" "\<not> tk_scheduling t" "\<not> th SCHEDULE_DROPPED t" "tk_runnables t = 0"
      "\<not> th SCHEDULED t" "tk_active t" "\<not> th COMPLETED t"
    using assms False by (auto simp: settled_def)
  have "cleanup_owner t = Some (False, t)" using False coreD(1) [OF s(1)] by (simp add: cleanup_owner_def prims)
  moreover have "up True False (n + 1) t" using s assms(2) by (simp add: up_def bnd_def live_def owned_def)
  ultimately show ?thesis
    using drop_waker_ok [of True False n t b True True] assms
    by (auto simp: run_tail_def case_prod_unfold extra_def elim!: good_mono)
qed

lemma finish_ready_ok:
  assumes "up b True n t"
  shows "good (\<lambda>t'. settled n t' \<and> th HANDLE t' = th HANDLE t \<and> tk_references t' = tk_references t) (finish_ready r t)"
proof -
  note s = running_state [OF assms]
  have "drop_future (t\<lparr>tk_active := False\<rparr>) =
     Some (t\<lparr>tk_active := False, tk_state := tk_state t OR FUTURE_DROPPED, tk_future := False\<rparr>)"
    using coreD [OF s(1)] by (subst drop_future_eq) auto
  then show ?thesis
    using s by (auto simp: finish_ready_def prims take_output_def settled_def core_def)
qed

lemma finish_pending_ok:
  assumes "up b True n t" "th CLOSED t \<or> \<not> th SCHEDULED t"
  shows "good (\<lambda>t'. settled n t' \<and> th HANDLE t' = th HANDLE t \<and> tk_references t' = tk_references t) (finish_pending t)"
proof -
  note s = running_state [OF assms(1)]
  show ?thesis
  proof (cases "th CLOSED t")
    case True
    then show ?thesis
      using s coreD [OF s(1)] by (auto simp: finish_pending_def drop_future_eq prims settled_def core_def)
  next
    case False
    then have c: "core (n + 1) (clear_state RUNNING t)" "tk_active t" "\<not> th FUTURE_DROPPED t"
      using s assms by (auto simp: core_def clear_state_def up_def live_def)
    then show ?thesis
      using s False assms close_eq [OF c(1)] core_closed [OF c(1)]
      by (auto simp: finish_pending_def prims settled_def)
  qed
qed


lemma poll_guard_drop_ok:
  assumes "up b True n t"
  shows "good (\<lambda>t'. okt b' False n t' \<and> th HANDLE t' = th HANDLE t) (poll_guard_drop t)"
proof -
  note s = running_state [OF assms]
  let ?u = "notify None (t\<lparr>tk_active := False, tk_future := False,
     tk_state := (tk_state t OR (CLOSED OR RUNNING) OR FUTURE_DROPPED) AND NOT (RUNNING OR SCHEDULED)\<rparr>)"
  have u: "core (n + 1) ?u" "bnd False ?u" "th FUTURE_DROPPED ?u" "\<not> tk_scheduling ?u" "tk_runnables ?u = 0"
      "th HANDLE ?u = th HANDLE t"
    using s by (auto simp: core_def bnd_def)
  have "drop_future ((or_state (CLOSED OR RUNNING) t)\<lparr>tk_active := False\<rparr>) =
     Some (((or_state (CLOSED OR RUNNING) t)\<lparr>tk_active := False\<rparr>)\<lparr>tk_state := tk_state t OR (CLOSED OR RUNNING) OR FUTURE_DROPPED,
       tk_future := False\<rparr>)"
    using coreD [OF s(1)] by (subst drop_future_eq) (auto simp: or_state_def or.assoc)
  then have "poll_guard_drop t = Option.bind (finish ?u) release"
    by (simp add: poll_guard_drop_def or_state_def clear_state_def)
  moreover have "good (\<lambda>t'. good (\<lambda>t'. okt b' False n t' \<and> th HANDLE t' = th HANDLE t) (release t')) (finish ?u)"
  proof (rule good_mono [OF finish_good [OF u(1,2,4)]], goal_cases)
    case (3 t')
    then have "up True False (n + 1) t'" "owned False n t'" "th HANDLE t' = th HANDLE t"
      using u s by (auto simp: up_def owned_def)
    then show ?case
      by (intro good_mono [OF release_up [of True False n t' b']]) (use s in \<open>auto simp: kept_def\<close>)
  qed (use u s in auto)
  ultimately show ?thesis by simp
qed

lemma run_end_ok:
  assumes "up b0 True n t" "tk_references t < 2 ^ 31 - 1"
  shows "good (\<lambda>t'. okt b False n t' \<and> th HANDLE t' = th HANDLE t) (run_end out t)"
proof -
  note s = running_state [OF assms(1)]
  have tail: "good (\<lambda>t'. okt b False n t' \<and> th HANDLE t' = th HANDLE t) (run_tail t')"
    if "settled n t' \<and> th HANDLE t' = th HANDLE t \<and> tk_references t' = tk_references t" for t'
    by (rule good_mono [OF run_tail_ok [of n t' b]]) (use that assms s in \<open>auto simp: kept_def\<close>)
  show ?thesis
  proof (cases out)
    case (Finished r)
    then show ?thesis
      using good_mono [OF finish_ready_ok [OF assms(1)] tail] coreD(1) [OF s(1)] by (simp add: run_end_def access_def)
  next
    case Waits
    show ?thesis
    proof (cases "\<not> th CLOSED t \<and> th SCHEDULED t")
      case True
      have "good (\<lambda>t'. okt b False n t' \<and> kept (clear_state RUNNING t) t') (schedule_owned (clear_state RUNNING t))"
        using s True by (intro schedule_owned_ok) (auto simp: core_def bnd_def clear_state_def)
      then show ?thesis
        using Waits True coreD(1) [OF s(1)]
        by (auto simp: run_end_def access_def kept_def clear_state_def elim!: good_mono)
    next
      case False
      then show ?thesis
        using Waits good_mono [OF finish_pending_ok [OF assms(1)] tail, of "\<lambda>x. x"] coreD(1) [OF s(1)]
        by (auto simp: run_end_def access_def)
    qed
  next
    case Panicked
    then show ?thesis using poll_guard_drop_ok [OF assms(1)] coreD(1) [OF s(1)] by (simp add: run_end_def access_def)
  qed
qed

lemma task_schedule_ok:
  assumes "up b0 False n t" "0 < tk_runnables t"
  shows "good (\<lambda>t'. okt b False n t' \<and> kept t t') (task_schedule t)"
proof -
  let ?t = "t\<lparr>tk_runnables := tk_runnables t - 1\<rparr>"
  have "tk_runnables t = 1" using assms by (auto simp: up_def bnd_def)
  then have c: "core (n + 1) t" "bnd False ?t" "tk_runnables ?t = 0" "\<not> tk_scheduling t" "0 \<le> n" "th SCHEDULED t \<or> th CLOSED t"
    using assms by (auto simp: up_def bnd_def live_def)
  then show ?thesis
    using schedule_owned_ok [of n ?t b] coreD(1) [OF c(1)] by (auto simp: task_schedule_def access_def kept_def elim!: good_mono)
qed

lemma take_output_handle:
  assumes "up b run n t" "th HANDLE t"
  shows "good (\<lambda>(r, t'). up True run (n + 1) t' \<and> \<not> th HANDLE t' \<and> tk_references t' = tk_references t)
     (take_output (clear_state HANDLE t))"
proof -
  have c: "core (n + of_bool run + tk_runnables t) t" using assms by (simp add: up_def)
  show ?thesis
    using assms coreD(1) [OF c]
    by (cases "th OUTPUT_PRESENT t")
      (auto simp: take_output_def prims up_def core_def bnd_def live_def owned_def split: option.splits)
qed

lemma drop_handle_ok:
  assumes "up b0 run n t" "th HANDLE t" "n < 2 ^ 31 - 8"
  shows "good (\<lambda>t'. okt b run n t' \<and> \<not> th HANDLE t') (drop_handle t)"
proof -
  have n: "0 \<le> n" "\<not> tk_freed t" using assms by (auto simp: up_def core_def)
  have tail: "good (\<lambda>t'. okt b run n t' \<and> \<not> th HANDLE t') (map_option snd (drop_waker True True t3))"
    if "up True run (n + 1) t3 \<and> \<not> th HANDLE t3" for t3
  proof -
    have "tk_references t3 < 2 ^ 31 - 1" using up_bound that assms(3) by force
    from drop_waker_ok [OF conjunct1 [OF that] n(1) this, of b True True] show ?thesis
      using that by (auto simp: case_prod_unfold kept_def extra_def elim!: good_mono)
  qed
  have mid: "good (\<lambda>t3. up True run (n + 1) t3 \<and> \<not> th HANDLE t3) (if c then cancel t2 else Some t2)"
    if "up True run (n + 1) t2" "\<not> th HANDLE t2" for t2 c
  proof -
    have "tk_references t2 < 2 ^ 31 - 1" using up_bound [OF that(1)] assms(3) by force
    from cancel_ok [OF that(1) _ this] show ?thesis
      using that n(1) by (auto simp: kept_def elim!: good_mono)
  qed
  have rest: "good (\<lambda>t'. okt b run n t' \<and> \<not> th HANDLE t')
      (if th SCHEDULE_DROPPED t1 \<and> tk_references t1 = 1 then destroy t1
       else Option.bind (finish t1) (\<lambda>t2. Option.bind (access t2) (\<lambda>t2.
           Option.bind (if \<not> th (SCHEDULED OR RUNNING OR CLOSED OR COMPLETED) t2 \<and> tk_references t2 = 2
                        then cancel t2 else Some t2) (\<lambda>t3.
             map_option snd (drop_waker True True t3)))))"
    if h: "up True run (n + 1) t1" "\<not> th HANDLE t1" for t1
  proof (cases "th SCHEDULE_DROPPED t1 \<and> tk_references t1 = 1")
    case True
    have c: "core (n + 1 + of_bool run + tk_runnables t1) t1" "0 \<le> tk_runnables t1" using h by (auto simp: up_def bnd_def)
    then have "n = 0" "\<not> run" "tk_runnables t1 = 0"
      using True n coreD(3) [OF c(1)] h(2) by (cases run; simp)+
    then show ?thesis
      using True h c by (auto simp: destroy_def okt_def gone_def core_def)
  next
    case False
    have c: "core (n + 1 + of_bool run + tk_runnables t1) t1" "bnd run t1" "live run t1" "0 \<le> tk_runnables t1"
      using h by (auto simp: up_def bnd_def)
    have "good (\<lambda>t2. up True run (n + 1) t2 \<and> \<not> th HANDLE t2) (finish t1)"
      by (rule good_mono [OF finish_good [OF c(1,2)]]) (use h c n in \<open>auto simp: up_def live_def owned_def\<close>)
    then have "good (\<lambda>t2. good (\<lambda>t2. good (\<lambda>t3. good (\<lambda>t'. okt b run n t' \<and> \<not> th HANDLE t')
        (map_option snd (drop_waker True True t3)))
        (if \<not> th (SCHEDULED OR RUNNING OR CLOSED OR COMPLETED) t2 \<and> tk_references t2 = 2 then cancel t2 else Some t2))
        (access t2)) (finish t1)"
    proof (rule good_mono)
      fix t2 assume t2: "up True run (n + 1) t2 \<and> \<not> th HANDLE t2"
      from t2 have "access t2 = Some t2" using up_access by blast
      moreover have "good (\<lambda>t3. good (\<lambda>t'. okt b run n t' \<and> \<not> th HANDLE t') (map_option snd (drop_waker True True t3)))
          (if c then cancel t2 else Some t2)" for c
        using good_mono [OF mid tail, of t2 "\<lambda>x. x"] t2 by blast
      ultimately show "good (\<lambda>t2. good (\<lambda>t3. good (\<lambda>t'. okt b run n t' \<and> \<not> th HANDLE t')
        (map_option snd (drop_waker True True t3)))
        (if \<not> th (SCHEDULED OR RUNNING OR CLOSED OR COMPLETED) t2 \<and> tk_references t2 = 2 then cancel t2 else Some t2))
        (access t2)" by (simp only: good_simps(2))
    qed
    then show ?thesis
      unfolding if_not_P [OF False] good_simps(3) .
  qed
  have acc: "access t = Some t" using n(2) by (simp add: access_def)
  show ?thesis
    unfolding drop_handle_def acc Option.bind.bind_lunit
  proof (rule good_bind [OF take_output_handle [OF assms(1,2)]], goal_cases)
    case (1 x)
    obtain r t1 where x: "x = (r, t1)" by (cases x)
    from 1 rest [of t1] show ?case unfolding x prod.case by simp
  qed
qed

lemma join_poll_ok:
  assumes "up b run n t" "th HANDLE t"
  shows "good (\<lambda>(p, t'). up b run n t' \<and> kept t t') (join_poll w t)"
proof -
  have c: "core (n + of_bool run + tk_runnables t) t" "bnd run t" "live run t" using assms by (auto simp: up_def)
  show ?thesis
    using c assms coreD(1) [OF c(1)]
    by (auto simp: join_poll_def prims register_def up_def kept_def bnd_def live_def owned_def core_def split: option.splits)
qed

lemma shutdown_ok:
  assumes "up b0 run n t" "tk_linked t" "n < 2 ^ 31 - 8"
  shows "good (\<lambda>t'. okt b run n t' \<and> th HANDLE t' = th HANDLE t) (shutdown t)"
proof -
  let ?m = "n + 1 + of_bool run + tk_runnables t"
  let ?t = "t\<lparr>tk_references := tk_references t + 1, tk_linked := False\<rparr>"
  have c: "core (n + of_bool run + tk_runnables t) t" "bnd run t" "live run t" "0 \<le> n" "0 \<le> tk_runnables t"
    using assms by (auto simp: up_def bnd_def)
  have "0 < tk_references t" "tk_references t < 2 ^ 31 - 1"
    using assms coreD(3) [OF c(1)] c up_bound [OF assms(1)] by (auto simp: core_def)
  then have inc: "increment_references t = Some (t\<lparr>tk_references := tk_references t + 1\<rparr>)"
    "registry_remove (t\<lparr>tk_references := tk_references t + 1\<rparr>) = Some ?t"
    using coreD(1) [OF c(1)] assms(2) by (simp_all add: increment_references_def registry_remove_def prims)
  have no: "\<not> th OUTPUT_PRESENT ?t" "core ?m ?t" "bnd run ?t" using assms c by (auto simp: core_def bnd_def)
  show ?thesis
    unfolding shutdown_def inc Option.bind.bind_lunit
  proof (rule good_bind [OF close_good [OF no(2,3,1)]], rule good_bind [OF finish_good [of ?m _ run]], goal_cases)
    case (5 t1)
    then show ?case using c by (auto simp: live_def bnd_def)
  next
    case (6 t1 t2)
    then show ?case
      by (intro good_mono [OF up_release [of n run t2 b]]) (use c in \<open>auto simp: owned_def kept_def\<close>)
  qed (use c in \<open>auto simp: live_def\<close>)
qed


subsection \<open>Every step keeps the invariant\<close>

definition ts_n :: "'r tsys \<Rightarrow> int" where
  "ts_n s = ts_wakers s + ts_cleanups s"

definition ts_inv :: "'r tsys \<Rightarrow> bool" where
  "ts_inv s \<longleftrightarrow> 0 \<le> ts_wakers s \<and> 0 \<le> ts_cleanups s \<and>
     okt (\<not> ts_abandoned s) (ts_polling s) (ts_n s) (ts_task s)"

lemma take_handed_sel [simp]:
  "ts_task (take_handed h s) = ts_task s" "ts_polling (take_handed h s) = ts_polling s"
  "ts_abandoned (take_handed h s) = ts_abandoned s" "ts_returned (take_handed h s) = ts_returned s"
  "ts_n (take_handed h s) = ts_n s + extra h"
  "0 \<le> ts_wakers s \<Longrightarrow> 0 \<le> ts_wakers (take_handed h s)" "0 \<le> ts_cleanups s \<Longrightarrow> 0 \<le> ts_cleanups (take_handed h s)"
  "ts_wakers s \<le> ts_wakers (take_handed h s)" "ts_cleanups s \<le> ts_cleanups (take_handed h s)"
  by (auto simp: take_handed_def ts_n_def extra_def split: handed.splits)

lemma ts_n_upd [simp]:
  "ts_n (s\<lparr>ts_task := t\<rparr>) = ts_n s" "ts_n (s\<lparr>ts_polling := p\<rparr>) = ts_n s" "ts_n (s\<lparr>ts_abandoned := a\<rparr>) = ts_n s"
  "ts_n (s\<lparr>ts_returned := r\<rparr>) = ts_n s" "ts_n (s\<lparr>ts_wakers := ts_wakers s - 1\<rparr>) = ts_n s - 1"
  "ts_n (s\<lparr>ts_cleanups := ts_cleanups s - 1\<rparr>) = ts_n s - 1" "ts_n (s\<lparr>ts_wakers := ts_wakers s + 1\<rparr>) = ts_n s + 1"
  by (simp_all add: ts_n_def)

lemma ts_n_nonneg: "0 \<le> ts_wakers s \<Longrightarrow> 0 \<le> ts_cleanups s \<Longrightarrow> 0 \<le> ts_n s"
  by (simp add: ts_n_def)

lemma drop_step_inv:
  assumes "up (\<not> ts_abandoned s) (ts_polling s) (ts_n s + 1) (ts_task s)" "0 \<le> ts_wakers s" "0 \<le> ts_cleanups s"
    "ts_n s < 2 ^ 31 - 8"
  shows "good ts_inv (drop_step own acc s)"
proof -
  have "tk_references (ts_task s) < 2 ^ 31 - 1" using up_bound [OF assms(1)] assms(4) by simp
  from drop_waker_ok [OF assms(1) _ this, of "\<not> (ts_abandoned s \<or> abandons own acc (ts_task s))" own acc] show ?thesis
    using assms(2,3) unfolding drop_step_def good_simps
    by (auto simp: abandons_def ts_inv_def ts_n_nonneg elim!: good_mono)
qed

lemma handed_step_up:
  assumes "good (\<lambda>(h, t'). up b (ts_polling s) (ts_n s + extra h) t' \<and> kept (ts_task s) t' \<and> P h t') r"
  shows "good (\<lambda>s'. up b (ts_polling s') (ts_n s') (ts_task s') \<and> ts_polling s' = ts_polling s \<and> ts_abandoned s' = ts_abandoned s \<and>
     ts_wakers s \<le> ts_wakers s' \<and> ts_cleanups s \<le> ts_cleanups s' \<and> ts_n s' \<le> ts_n s + 1) (handed_step s r)"
proof -
  have "extra h \<le> 1" for h by (simp add: extra_def)
  then show ?thesis
    using assms take_handed_sel(8,9) [of "s\<lparr>ts_task := _\<rparr>"]
    unfolding handed_step_def good_simps by (auto elim!: good_mono)
qed

lemma handed_step_inv:
  assumes "good (\<lambda>(h, t'). up (\<not> ts_abandoned s) (ts_polling s) (ts_n s + extra h) t' \<and> kept (ts_task s) t' \<and> P h t') r"
    "0 \<le> ts_wakers s" "0 \<le> ts_cleanups s"
  shows "good ts_inv (handed_step s r)"
  by (rule good_mono [OF handed_step_up [OF assms(1)]]) (use assms(2,3) in \<open>auto simp: ts_inv_def okt_def\<close>)

lemma task_step_inv:
  assumes "good (\<lambda>t. okt (\<not> ts_abandoned s) (ts_polling s) (ts_n s) t \<and> P t) r" "0 \<le> ts_wakers s" "0 \<le> ts_cleanups s"
  shows "good ts_inv (task_step s r)"
  using assms unfolding task_step_def good_simps by (auto simp: ts_inv_def elim!: good_mono)

lemma ts_inv_up:
  assumes "ts_inv s" "0 < ts_n s \<or> ts_polling s \<or> 0 < tk_runnables (ts_task s) \<or> th HANDLE (ts_task s) \<or> tk_linked (ts_task s)"
  shows "up (\<not> ts_abandoned s) (ts_polling s) (ts_n s) (ts_task s)"
  using assms by (auto simp: ts_inv_def okt_def gone_def)

lemma up_polling: "up b run n t \<Longrightarrow> 0 < tk_runnables t \<Longrightarrow> \<not> run"
  by (auto simp: up_def bnd_def)

lemma waker_step_inv:
  assumes "ts_inv s" "0 < ts_n s" "ts_n s < 2 ^ 31 - 16"
    "good (\<lambda>(h, t'). up (\<not> ts_abandoned s) (ts_polling s) (ts_n s + extra h) t' \<and> kept (ts_task s) t' \<and> P h t') r"
    and f: "\<And>s'. ts_task (f s') = ts_task s'" "\<And>s'. ts_abandoned (f s') = ts_abandoned s'" "\<And>s'. ts_polling (f s') = ts_polling s'"
      "\<And>s'. ts_n (f s') = ts_n s' - 1"
      "\<And>s'. ts_wakers s \<le> ts_wakers s' \<Longrightarrow> ts_cleanups s \<le> ts_cleanups s' \<Longrightarrow> 0 \<le> ts_wakers (f s') \<and> 0 \<le> ts_cleanups (f s')"
  shows "good ts_inv (Option.bind (handed_step s r) (\<lambda>s1. drop_step own acc (f s1)))"
  by (rule good_bind [OF handed_step_up [OF assms(4)]], rule drop_step_inv) (use assms(3) f in auto)


fun waker_op :: "'r top \<Rightarrow> bool" where
  "waker_op TClone = True"
| "waker_op (TWake _ _ _) = True"
| "waker_op (TWakeRef _ _) = True"
| "waker_op (TDropWaker _ _) = True"
| "waker_op (TCleanup _ _ _) = True"
| "waker_op (TCleanupRef _ _) = True"
| "waker_op (TDropCleanup _ _) = True"
| "waker_op _ = False"

fun run_op :: "'r top \<Rightarrow> bool" where
  "run_op TRunStart = True"
| "run_op (TRunEnd _) = True"
| "run_op TSchedule = True"
| "run_op TDropTask = True"
| "run_op _ = False"

fun handle_op :: "'r top \<Rightarrow> bool" where
  "handle_op TCancel = True"
| "handle_op TCancelInPlace = True"
| "handle_op TDropHandle = True"
| "handle_op (TJoin _) = True"
| "handle_op TShutdown = True"
| "handle_op _ = False"

text \<open>The steps of the wakers, of the runnable and of the handle on a task that still exists.\<close>

definition ts_up :: "'r tsys \<Rightarrow> bool" where
  "ts_up s \<longleftrightarrow> ts_inv s \<and> up (\<not> ts_abandoned s) (ts_polling s) (ts_n s) (ts_task s)"

lemma ts_upD:
  assumes "ts_up s" "ts_enabled op s"
  shows "ts_inv s" "up (\<not> ts_abandoned s) (ts_polling s) (ts_n s) (ts_task s)" "0 \<le> ts_wakers s" "0 \<le> ts_cleanups s" "0 \<le> ts_n s"
    "ts_n s < 2 ^ 31 - 16"
  using assms by (auto simp: ts_up_def ts_inv_def ts_n_def)

lemma ts_exec_waker:
  assumes u: "ts_up s" and en: "ts_enabled op s" and op: "waker_op op"
  shows "good ts_inv (ts_exec op s)"
proof -
  let ?b = "\<not> ts_abandoned s" and ?r = "ts_polling s" and ?n = "ts_n s" and ?t = "ts_task s"
  note inv = ts_upD(1) [OF u en] and up = ts_upD(2) [OF u en] and nn = ts_upD(3,4,5) [OF u en] and small = ts_upD(6) [OF u en]
  have refs: "tk_references ?t < 2 ^ 31 - 1" using up_bound [OF up] small by simp
  have wake: "good (\<lambda>(h, t'). up ?b ?r (?n + extra h) t' \<and> kept ?t t' \<and> True) (do_wake own peer ?t)"
    if "0 < ?n \<or> ?r" for own peer
    using do_wake_ok [OF up that refs, of own peer] by simp
  note clean = do_cleanup_ok [OF up _ refs]
  have drop: "up ?b ?r (ts_n (s\<lparr>ts_wakers := ts_wakers s - 1\<rparr>) + 1) ?t"
    "up ?b ?r (ts_n (s\<lparr>ts_cleanups := ts_cleanups s - 1\<rparr>) + 1) ?t" using up by simp_all
  show ?thesis
  proof (cases op)
    case TClone
    then have "0 < tk_references ?t" using up_refs [OF up] en nn by (auto simp: ts_n_def)
    then show ?thesis
      using increment_ok [OF up _ refs] TClone nn by (simp add: clone_waker_def task_step_def ts_inv_def okt_def)
  next
    case (TWake own peer acc)
    then show ?thesis
      using en nn small unfolding TWake ts_exec.simps
      by (intro waker_step_inv [OF inv _ _ wake]) (auto simp: ts_n_def)
  next
    case (TWakeRef own peer)
    then show ?thesis using en nn unfolding TWakeRef ts_exec.simps by (intro handed_step_inv [OF wake]) (auto simp: ts_n_def)
  next
    case (TDropWaker own acc)
    then show ?thesis
      using en nn small drop unfolding TDropWaker ts_exec.simps by (intro drop_step_inv) (auto simp: ts_n_def)
  next
    case (TCleanup own peer acc)
    then show ?thesis
      using en nn small unfolding TCleanup ts_exec.simps
      by (intro waker_step_inv [OF inv _ _ clean]) (auto simp: ts_n_def)
  next
    case (TCleanupRef own peer)
    then show ?thesis
      using en nn unfolding TCleanupRef ts_exec.simps by (intro handed_step_inv [OF clean]) (auto simp: ts_n_def)
  next
    case (TDropCleanup own acc)
    then show ?thesis
      using en nn small drop unfolding TDropCleanup ts_exec.simps by (intro drop_step_inv) (auto simp: ts_n_def)
  qed (use op in simp_all)
qed

lemma ts_exec_run:
  assumes u: "ts_up s" and en: "ts_enabled op s" and op: "run_op op"
  shows "good ts_inv (ts_exec op s)"
proof -
  let ?b = "\<not> ts_abandoned s" and ?r = "ts_polling s" and ?n = "ts_n s" and ?t = "ts_task s"
  note inv = ts_upD(1) [OF u en] and up = ts_upD(2) [OF u en] and nn = ts_upD(3,4,5) [OF u en] and small = ts_upD(6) [OF u en]
  have refs: "tk_references ?t < 2 ^ 31 - 1" using up_bound [OF up] small by simp
  show ?thesis
  proof (cases op)
    case TRunStart
    then have "0 < tk_runnables ?t" "\<not> ?r" using en up_polling [OF up] by auto
    then show ?thesis
      using run_start_ok [of ?b ?n ?t] up nn TRunStart by (auto simp: ts_inv_def elim!: good_mono)
  next
    case (TRunEnd out)
    then have "up ?b True ?n ?t" using up en by simp
    from run_end_ok [OF this refs, of ?b out] show ?thesis
      unfolding TRunEnd ts_exec.simps using nn by (intro task_step_inv) auto
  next
    case TSchedule
    then have "0 < tk_runnables ?t" "\<not> ?r" using en up_polling [OF up] by auto
    with task_schedule_ok [of ?b ?n ?t ?b] show ?thesis
      unfolding TSchedule ts_exec.simps using nn up by (intro task_step_inv) auto
  next
    case TDropTask
    then have "0 < tk_runnables ?t" "\<not> ?r" using en up_polling [OF up] by auto
    with drop_task_ok [of ?b ?n ?t ?b] show ?thesis
      unfolding TDropTask ts_exec.simps using nn up by (intro task_step_inv) auto
  qed (use op in simp_all)
qed

lemma ts_exec_handle:
  assumes u: "ts_up s" and en: "ts_enabled op s" and op: "handle_op op"
  shows "good ts_inv (ts_exec op s)"
proof -
  let ?b = "\<not> ts_abandoned s" and ?r = "ts_polling s" and ?n = "ts_n s" and ?t = "ts_task s"
  note inv = ts_upD(1) [OF u en] and up = ts_upD(2) [OF u en] and nn = ts_upD(3,4,5) [OF u en] and small = ts_upD(6) [OF u en]
  have refs: "tk_references ?t < 2 ^ 31 - 1" using up_bound [OF up] small by simp
  show ?thesis
  proof (cases op)
    case TCancel
    have "0 < ?n + of_bool (th HANDLE ?t) \<or> 0 < tk_runnables ?t \<or> ?r" using TCancel en nn by auto
    from cancel_ok [OF up this refs] show ?thesis
      unfolding TCancel ts_exec.simps using nn by (intro task_step_inv) (auto simp: okt_def up_def elim!: good_mono)
  next
    case TCancelInPlace
    then have "th HANDLE ?t" using en by simp
    from cancel_in_place_ok [OF up this refs] show ?thesis
      unfolding TCancelInPlace ts_exec.simps using nn by (intro task_step_inv) (auto simp: okt_def up_def elim!: good_mono)
  next
    case TDropHandle
    then have "th HANDLE ?t" "?n < 2 ^ 31 - 8" using en small by simp_all
    from drop_handle_ok [OF up this, of ?b] show ?thesis
      unfolding TDropHandle ts_exec.simps using nn by (intro task_step_inv) auto
  next
    case (TJoin w)
    then have "th HANDLE ?t" using en by simp
    from join_poll_ok [OF up this, of w] show ?thesis
      unfolding TJoin ts_exec.simps using nn
      by (intro task_step_inv) (auto simp: okt_def case_prod_unfold elim!: good_mono)
  next
    case TShutdown
    then have "tk_linked ?t" "?n < 2 ^ 31 - 8" using en small by simp_all
    from shutdown_ok [OF up this, of ?b] show ?thesis
      unfolding TShutdown ts_exec.simps using nn by (intro task_step_inv) auto
  qed (use op in simp_all)
qed

lemma ts_exec_inv:
  assumes inv: "ts_inv s" and en: "ts_enabled op s"
  shows "good ts_inv (ts_exec op s)"
proof (cases "op = TCloseExecutor")
  case True
  then show ?thesis using inv by (auto simp: ts_inv_def okt_def up_def gone_def core_def bnd_def live_def owned_def)
next
  case False
  have "0 \<le> ts_wakers s" "0 \<le> ts_cleanups s" using inv by (auto simp: ts_inv_def)
  then have "0 < ts_n s \<or> ts_polling s \<or> 0 < tk_runnables (ts_task s) \<or> th HANDLE (ts_task s) \<or> tk_linked (ts_task s)"
    using en False by (cases op) (auto simp: ts_n_def)
  then have "ts_up s" using ts_inv_up [OF inv] inv by (auto simp: ts_up_def)
  moreover have "waker_op op \<or> run_op op \<or> handle_op op" using False by (cases op) simp_all
  ultimately show ?thesis using ts_exec_waker ts_exec_run ts_exec_handle en by blast
qed

lemma ts_init_inv: "ts_init s \<Longrightarrow> ts_inv s"
  by (auto simp: ts_init_def allocate_def ts_inv_def ts_n_def okt_def up_def core_def bnd_def live_def owned_def)

interpretation tsk: transition_inv ts_init ts_step ts_inv
proof unfold_locales
  show "ts_inv s" if "ts_init s" for s :: "'a tsys" using that by (rule ts_init_inv)
  show "ts_inv s'" if "ts_inv s" "ts_step s s'" for s s' :: "'a tsys"
    using that(2) ts_exec_inv [OF that(1)] by (fastforce elim: ts_stepE simp: good_def)
qed


subsection \<open>The output is what the future returned\<close>

text \<open>The output slot is empty or holds a given value, and no operation but the end of a run writes it.\<close>

definition slot_ok :: "'r option \<Rightarrow> 'r task \<Rightarrow> bool" where
  "slot_ok v t \<longleftrightarrow> tk_output t = None \<or> tk_output t = v"

definition slot_opt :: "'r option \<Rightarrow> 'r task option \<Rightarrow> bool" where
  "slot_opt v r \<longleftrightarrow> (\<forall>t. r = Some t \<longrightarrow> slot_ok v t)"

lemma slot_upd [simp]:
  "slot_ok v (t\<lparr>tk_state := a\<rparr>) = slot_ok v t" "slot_ok v (t\<lparr>tk_references := i\<rparr>) = slot_ok v t"
  "slot_ok v (t\<lparr>tk_active := c\<rparr>) = slot_ok v t" "slot_ok v (t\<lparr>tk_linked := c\<rparr>) = slot_ok v t"
  "slot_ok v (t\<lparr>tk_scheduling := c\<rparr>) = slot_ok v t" "slot_ok v (t\<lparr>tk_future := c\<rparr>) = slot_ok v t"
  "slot_ok v (t\<lparr>tk_freed := c\<rparr>) = slot_ok v t" "slot_ok v (t\<lparr>tk_runnables := i\<rparr>) = slot_ok v t"
  "slot_ok v (t\<lparr>tk_sched_open := c\<rparr>) = slot_ok v t" "slot_ok v (t\<lparr>tk_awaiter := w\<rparr>) = slot_ok v t"
  "slot_ok v (notify x t) = slot_ok v t" "slot_ok v (or_state m t) = slot_ok v t" "slot_ok v (clear_state m t) = slot_ok v t"
  "slot_ok v (t\<lparr>tk_output := None\<rparr>)" "slot_ok (Some r) (t\<lparr>tk_output := Some r\<rparr>)"
  by (simp_all add: slot_ok_def or_state_def clear_state_def)

lemma slot_opt_simps [simp]: "slot_opt v None" "slot_opt v (Some t) = slot_ok v t"
  "slot_opt v (if c then r else r') = (if c then slot_opt v r else slot_opt v r')"
  by (simp_all add: slot_opt_def)

lemma slot_bind:
  assumes "slot_opt v r" "\<And>t. slot_ok v t \<Longrightarrow> slot_opt v (f t)"
  shows "slot_opt v (Option.bind r f)"
  using assms by (cases r) auto

lemma slot_map: "slot_opt v r \<Longrightarrow> (\<And>t. slot_ok v (g t) = slot_ok v t) \<Longrightarrow> slot_opt v (map_option g r)"
  by (cases r) auto

named_theorems slot_intro

lemma slot_access [slot_intro]: "slot_ok v t \<Longrightarrow> slot_opt v (access t)"
  by (simp add: access_def)

lemma slot_destroy [slot_intro]: "slot_ok v t \<Longrightarrow> slot_opt v (destroy t)"
  by (simp add: destroy_def)

lemma slot_increment [slot_intro]: "slot_ok v t \<Longrightarrow> slot_opt v (increment_references t)"
  by (simp add: increment_references_def access_def)

lemma slot_release_references [slot_intro]: "slot_ok v t \<Longrightarrow> slot_opt v (release_references n t)"
  by (simp add: release_references_def access_def Let_def slot_destroy)

lemma slot_release [slot_intro]: "slot_ok v t \<Longrightarrow> slot_opt v (release t)"
  by (simp add: release_def slot_release_references)

lemma slot_drop_future [slot_intro]: "slot_ok v t \<Longrightarrow> slot_opt v (drop_future t)"
  by (simp add: drop_future_def access_def)

lemma slot_registry_remove [slot_intro]: "slot_ok v t \<Longrightarrow> slot_opt v (registry_remove t)"
  by (simp add: registry_remove_def access_def)

lemma slot_take_output [slot_intro]: "slot_ok v t \<Longrightarrow> slot_opt v (map_option snd (take_output t))"
  by (simp add: take_output_def access_def split: option.split)

lemma slot_cleanup_owner [slot_intro]: "slot_ok v t \<Longrightarrow> slot_opt v (map_option snd (cleanup_owner t))"
  by (simp add: cleanup_owner_def access_def Let_def registry_remove_def)

lemma bind_snd: "slot_opt v (map_option snd r) \<Longrightarrow> (\<And>a t. slot_ok v t \<Longrightarrow> slot_opt v (f (a, t))) \<Longrightarrow> slot_opt v (Option.bind r f)"
  by (cases r) auto

lemma snd_bind: "slot_opt v (Option.bind r (\<lambda>x. map_option snd (f x))) \<Longrightarrow> slot_opt v (map_option snd (Option.bind r f))"
  by (cases r) auto

lemma snd_map_pair: "slot_opt v r \<Longrightarrow> slot_opt v (map_option snd (map_option (\<lambda>t. (h, t)) r))"
  by (cases r) auto

lemma slot_finish [slot_intro]: "slot_ok v t \<Longrightarrow> slot_opt v (finish t)"
  unfolding finish_def by (rule bind_snd) (auto intro: slot_intro)

lemma slot_close [slot_intro]: "slot_ok v t \<Longrightarrow> slot_opt v (close t)"
  unfolding close_def Let_def by (rule slot_bind) (auto intro!: slot_map intro: slot_intro)

lemma slot_drop_task [slot_intro]: "slot_ok v t \<Longrightarrow> slot_opt v (drop_task t)"
  unfolding drop_task_def by (intro slot_bind slot_intro) auto

lemma slot_schedule_owned [slot_intro]: "slot_ok v t \<Longrightarrow> slot_opt v (schedule_owned t)"
  unfolding schedule_owned_def call_schedule_def Let_def
  by (rule slot_bind) (auto intro!: slot_bind intro: slot_intro)

lemma slot_schedule [slot_intro]: "slot_ok v t \<Longrightarrow> slot_opt v (schedule t)"
  unfolding schedule_def by (intro slot_bind slot_intro) auto

lemma slot_cancel [slot_intro]: "slot_ok v t \<Longrightarrow> slot_opt v (cancel t)"
  unfolding cancel_def Let_def by (rule slot_bind) (auto intro!: slot_map intro: slot_intro)

lemma slot_cancel_in_place [slot_intro]: "slot_ok v t \<Longrightarrow> slot_opt v (cancel_in_place t)"
  unfolding cancel_in_place_def by (intro slot_bind slot_intro) (auto intro!: slot_map intro: slot_intro)

lemma slot_do_wake [slot_intro]: "slot_ok v t \<Longrightarrow> slot_opt v (map_option snd (do_wake own peer t))"
  unfolding do_wake_def clone_waker_def Let_def
  by (intro snd_bind slot_bind slot_intro) (auto intro!: snd_map_pair intro: slot_intro)

lemma slot_do_cleanup [slot_intro]: "slot_ok v t \<Longrightarrow> slot_opt v (map_option snd (do_cleanup own peer t))"
  unfolding do_cleanup_def by (intro snd_bind slot_bind slot_intro) (auto intro!: snd_map_pair intro: slot_intro)

lemma slot_drop_waker [slot_intro]: "slot_ok v t \<Longrightarrow> slot_opt v (map_option snd (drop_waker own acc t))"
  unfolding drop_waker_def Let_def
  by (intro snd_bind slot_bind slot_intro) (auto intro!: snd_map_pair snd_bind bind_snd intro: slot_intro)

lemma slot_drop_handle [slot_intro]: "slot_ok v t \<Longrightarrow> slot_opt v (drop_handle t)"
  unfolding drop_handle_def
  by (intro slot_bind slot_intro bind_snd) (auto intro!: slot_bind intro: slot_intro)

lemma slot_join_poll [slot_intro]: "slot_ok v t \<Longrightarrow> slot_opt v (map_option snd (join_poll w t))"
  by (simp add: join_poll_def access_def register_def split: option.split)

lemma slot_run_start [slot_intro]: "slot_ok v t \<Longrightarrow> slot_opt v (map_option snd (run_start t))"
  unfolding run_start_def by (intro snd_bind slot_bind slot_intro) (auto intro!: snd_map_pair intro: slot_intro)

lemma slot_run_tail [slot_intro]: "slot_ok v t \<Longrightarrow> slot_opt v (run_tail t)"
  unfolding run_tail_def by (rule bind_snd) (auto intro: slot_intro)

lemma slot_finish_ready: "slot_opt (Some r) (finish_ready r t)"
  unfolding finish_ready_def Let_def drop_future_def access_def
  by (auto intro!: slot_map slot_take_output split: bind_splits)

lemma slot_finish_pending [slot_intro]: "slot_ok v t \<Longrightarrow> slot_opt v (finish_pending t)"
  unfolding finish_pending_def Let_def by (auto intro!: slot_map intro: slot_intro)

lemma slot_poll_guard [slot_intro]: "slot_ok v t \<Longrightarrow> slot_opt v (poll_guard_drop t)"
  unfolding poll_guard_drop_def by (intro slot_bind slot_intro) auto

lemma slot_run_end [slot_intro]:
  "slot_ok v t \<Longrightarrow> slot_opt (case out of Finished r \<Rightarrow> Some r | _ \<Rightarrow> v) (run_end out t)"
  unfolding run_end_def access_def
  by (cases out) (auto intro!: slot_bind slot_finish_ready intro: slot_intro)

lemma slot_task_schedule [slot_intro]: "slot_ok v t \<Longrightarrow> slot_opt v (task_schedule t)"
  unfolding task_schedule_def by (intro slot_bind slot_intro) auto

lemma slot_shutdown [slot_intro]: "slot_ok v t \<Longrightarrow> slot_opt v (shutdown t)"
  unfolding shutdown_def by (intro slot_bind slot_intro) auto


definition ts_slot :: "'r tsys \<Rightarrow> bool" where
  "ts_slot s \<longleftrightarrow> slot_ok (ts_returned s) (ts_task s)"

lemma slot_task_step:
  assumes "task_step s r = Some s'" "slot_opt (ts_returned s) r"
  shows "ts_slot s'"
  using assms by (auto simp: task_step_def ts_slot_def)

lemma slot_handed_step:
  assumes "handed_step s r = Some s'" "slot_opt (ts_returned s) (map_option snd r)"
  shows "ts_slot s'"
  using assms by (auto simp: handed_step_def ts_slot_def)

lemma slot_drop_step:
  assumes "drop_step own acc s = Some s'" "ts_slot s"
  shows "ts_slot s'"
proof -
  have "slot_opt (ts_returned s) (map_option snd (drop_waker own acc (ts_task s)))"
    using assms(2) by (auto simp: ts_slot_def intro: slot_intro)
  then show ?thesis using assms(1) by (auto simp: drop_step_def ts_slot_def)
qed

lemma ts_slot_upd [simp]: "ts_slot (s\<lparr>ts_wakers := i\<rparr>) = ts_slot s" "ts_slot (s\<lparr>ts_cleanups := i\<rparr>) = ts_slot s"
  by (simp_all add: ts_slot_def)

lemma ts_exec_slot:
  assumes "ts_slot s" "ts_exec op s = Some s'"
  shows "ts_slot s'"
proof -
  have sl: "slot_ok (ts_returned s) (ts_task s)" using assms(1) by (simp add: ts_slot_def)
  note si = slot_intro [OF sl]
  show ?thesis
  proof (cases op)
    case TClone
    then show ?thesis using assms(2) si by (auto simp: clone_waker_def intro: slot_task_step)
  next
    case (TWake own peer acc)
    then show ?thesis
      using assms(2) slot_handed_step [OF _ slot_do_wake [OF sl]] by (auto simp: bind_eq_Some_conv elim!: slot_drop_step)
  next
    case (TCleanup own peer acc)
    then show ?thesis
      using assms(2) slot_handed_step [OF _ slot_do_cleanup [OF sl]] by (auto simp: bind_eq_Some_conv elim!: slot_drop_step)
  next
    case TRunStart
    then show ?thesis using assms(2) slot_run_start [OF sl] by (auto simp: ts_slot_def)
  next
    case (TRunEnd out)
    then show ?thesis using assms(2) slot_run_end [OF sl, of out] by (auto elim!: slot_task_step)
  next
    case TCloseExecutor
    then show ?thesis using assms by (auto simp: ts_slot_def)
  qed (use assms(2) si in \<open>auto intro: slot_task_step slot_handed_step elim!: slot_drop_step simp: bind_eq_Some_conv assms(1)\<close>)
qed

interpretation tsv: transition_inv ts_init ts_step ts_slot
proof unfold_locales
  show "ts_slot s" if "ts_init s" for s :: "'a tsys"
    using that by (auto simp: ts_init_def allocate_def ts_slot_def slot_ok_def)
  show "ts_slot s'" if "ts_slot s" "ts_step s s'" for s s' :: "'a tsys"
    using that ts_exec_slot by (auto elim: ts_stepE)
qed

subsection \<open>Concrete runs\<close>

fun ts_run :: "'r top list \<Rightarrow> 'r tsys \<Rightarrow> 'r tsys option" where
  "ts_run [] s = Some s"
| "ts_run (op # ops) s = (if ts_enabled op s then Option.bind (ts_exec op s) (ts_run ops) else None)"

definition ts_start :: "'r tsys" where
  "ts_start = \<lparr>ts_task = allocate False, ts_wakers = 0, ts_cleanups = 0, ts_polling = False, ts_abandoned = False,
     ts_returned = None\<rparr>"

lemma ts_start_reachable: "reachable ts_init ts_step ts_start"
  by (auto simp: reachable_def ts_init_def ts_start_def)

lemma ts_run_reachable: "ts_run ops s = Some t \<Longrightarrow> reachable ts_init ts_step s \<Longrightarrow> reachable ts_init ts_step t"
proof (induction ops arbitrary: s)
  case (Cons op ops)
  then obtain u where "ts_enabled op s" "ts_exec op s = Some u" "ts_run ops u = Some t"
    by (auto split: if_splits bind_splits)
  with Cons show ?case by (meson reachable_step ts_step.intros)
qed simp

lemmas ts_eval = ts_start_def allocate_def access_def or_state_def clear_state_def notify_def register_def destroy_def
  increment_references_def release_references_def release_def drop_future_def take_output_def registry_remove_def
  cleanup_owner_def finish_def close_def drop_task_def call_schedule_def schedule_owned_def schedule_def cancel_def
  cancel_in_place_def clone_waker_def do_wake_def do_cleanup_def drop_waker_def drop_handle_def join_poll_def run_start_def
  finish_ready_def finish_pending_def run_tail_def poll_guard_drop_def run_end_def task_schedule_def shutdown_def
  take_handed_def abandons_def drop_step_def handed_step_def task_step_def Let_def

lemma ts_inv_cases:
  assumes "ts_inv s"
  shows "0 \<le> ts_wakers s" "0 \<le> ts_cleanups s"
    "gone (ts_n s) (ts_task s) \<and> \<not> ts_polling s \<or> up (\<not> ts_abandoned s) (ts_polling s) (ts_n s) (ts_task s)"
  using assms by (auto simp: ts_inv_def okt_def)

subsection \<open>Correctness of tasks\<close>

text \<open>
  Claim C3. Tasks are memory safe: in every reachable state every call that a waker, the
  runnable, the join handle, the registry or the end of a poll may make succeeds. So no freed task
  is accessed, no future is dropped twice, no absent output is read, no reference count
  underflows and the assertions made when a task is destroyed hold.
\<close>

theorem task_memory_safe:
  assumes "reachable ts_init ts_step s" and "ts_enabled op s"
  shows "\<exists>s'. ts_exec op s = Some s' \<and> ts_inv s'"
  using ts_exec_inv [OF tsk.reachable_inv [OF assms(1)] assms(2)] by (auto simp: good_def)

theorem task_memory_safe_witness:
  "\<exists>s s'. ts_run [TRunStart, TClone, TRunEnd Waits, TDropHandle] ts_start = Some (s :: nat tsys) \<and>
     ts_exec (TDropWaker True True) s = Some s' \<and> ts_inv s'"
proof -
  obtain s :: "nat tsys" where s: "ts_run [TRunStart, TClone, TRunEnd Waits, TDropHandle] ts_start = Some s"
    and "ts_enabled (TDropWaker True True) s"
    by (simp add: ts_eval)
  with task_memory_safe [OF ts_run_reachable [OF s ts_start_reachable]] show ?thesis by blast
qed

text \<open>
  Claim C26. A task is freed exactly when its last owner is gone: in every reachable state of a task
  that was not abandoned it is freed if and only if there is no waker, no queued cleanup, no
  runnable, no poll in progress and no join handle; by then its future and its output have been
  dropped, no awaiter is left unnotified and the registry has forgotten it. So an idle task is
  never leaked with only the registry holding it.
\<close>

theorem task_freed_iff_unowned:
  assumes "reachable ts_init ts_step s" and "\<not> ts_abandoned s"
  shows "(tk_freed (ts_task s) \<longleftrightarrow>
       ts_wakers s = 0 \<and> ts_cleanups s = 0 \<and> tk_runnables (ts_task s) = 0 \<and> \<not> ts_polling s \<and> \<not> th HANDLE (ts_task s)) \<and>
     (tk_freed (ts_task s) \<longrightarrow>
       \<not> tk_future (ts_task s) \<and> tk_output (ts_task s) = None \<and> tk_awaiter (ts_task s) = None \<and> \<not> tk_linked (ts_task s))"
proof -
  note i = ts_inv_cases [OF tsk.reachable_inv [OF assms(1)]]
  have "ts_n s = 0 \<longleftrightarrow> ts_wakers s = 0 \<and> ts_cleanups s = 0" using i(1,2) by (auto simp: ts_n_def)
  then show ?thesis
    using i(3) assms(2) by (auto simp: gone_def up_def core_def owned_def)
qed

theorem task_freed_iff_unowned_witness:
  "\<exists>s. ts_run [TRunStart, TClone, TRunEnd Waits, TDropHandle, TDropWaker True True, TRunStart] ts_start = Some (s :: nat tsys) \<and>
     tk_freed (ts_task s) \<and> \<not> tk_future (ts_task s)"
proof -
  obtain s :: "nat tsys" where
    s: "ts_run [TRunStart, TClone, TRunEnd Waits, TDropHandle, TDropWaker True True, TRunStart] ts_start = Some s"
    and "\<not> ts_abandoned s" "ts_wakers s = 0" "ts_cleanups s = 0" "tk_runnables (ts_task s) = 0" "\<not> ts_polling s"
      "\<not> th HANDLE (ts_task s)"
    by (simp add: ts_eval)
  with task_freed_iff_unowned [OF ts_run_reachable [OF s ts_start_reachable]] show ?thesis by blast
qed

text \<open>
  Claim C10. A task has at most one runnable, and none while its future is polled: wakes during a
  poll, repeated wakes and cancellations never queue a task twice. A runnable exists whenever the
  scheduled flag is set outside a poll and the task has not been cleaned up.
\<close>

theorem task_single_runnable:
  assumes "reachable ts_init ts_step s"
  shows "0 \<le> tk_runnables (ts_task s) \<and> tk_runnables (ts_task s) + of_bool (ts_polling s) \<le> 1 \<and>
     (th SCHEDULED (ts_task s) \<and> \<not> th SCHEDULE_DROPPED (ts_task s) \<and> \<not> ts_polling s \<longrightarrow> tk_runnables (ts_task s) = 1)"
  using ts_inv_cases(3) [OF tsk.reachable_inv [OF assms]] by (auto simp: gone_def up_def bnd_def live_def)

theorem task_single_runnable_witness:
  "\<exists>s. ts_run [TRunStart, TClone, TWakeRef True True, TClone, TRunEnd Waits, TWakeRef True True, TCancel] ts_start = Some (s :: nat tsys) \<and>
     tk_runnables (ts_task s) = 1 \<and> tk_runnables (ts_task s) + of_bool (ts_polling s) \<le> 1"
proof -
  obtain s :: "nat tsys" where
    s: "ts_run [TRunStart, TClone, TWakeRef True True, TClone, TRunEnd Waits, TWakeRef True True, TCancel] ts_start = Some s"
    and "tk_runnables (ts_task s) = 1"
    by (simp add: ts_eval)
  with task_single_runnable [OF ts_run_reachable [OF s ts_start_reachable]] show ?thesis by blast
qed

text \<open>
  Claim C11. A waiting join handle is not forgotten: whenever a waker is registered with a task,
  the task has not been freed or cleaned up, and it can still be woken, or is queued, or is being
  polled, so that its end, which notifies the waker, is still to come.
\<close>

theorem task_join_not_forgotten:
  assumes "reachable ts_init ts_step s" and "tk_awaiter (ts_task s) = Some w"
  shows "\<not> tk_freed (ts_task s) \<and> \<not> th SCHEDULE_DROPPED (ts_task s) \<and>
     (tk_active (ts_task s) \<or> tk_runnables (ts_task s) = 1 \<or> ts_polling s)"
  using ts_inv_cases(3) [OF tsk.reachable_inv [OF assms(1)]] assms(2)
  by (auto simp: gone_def up_def core_def bnd_def live_def)

theorem task_join_not_forgotten_witness:
  "\<exists>s. ts_run [TCancel, TJoin 7, TCancelInPlace] ts_start = Some (s :: nat tsys) \<and> tk_runnables (ts_task s) = 1"
proof -
  obtain s :: "nat tsys" where s: "ts_run [TCancel, TJoin 7, TCancelInPlace] ts_start = Some s"
    and "tk_awaiter (ts_task s) = Some 7" "\<not> tk_active (ts_task s)" "\<not> ts_polling s"
    by (simp add: ts_eval)
  with task_join_not_forgotten [OF ts_run_reachable [OF s ts_start_reachable]] show ?thesis by blast
qed

text \<open>
  Claim C25. A join handle yields the value that the task's future returned, and yields it once:
  polled again it reports that nothing is left.
\<close>

theorem task_join_value:
  assumes "reachable ts_init ts_step s" and "th HANDLE (ts_task s)"
    and "join_poll w (ts_task s) = Some (Ready (Some r), t)"
  shows "ts_returned s = Some r \<and> (\<exists>t'. join_poll w' t = Some (Ready None, t'))"
proof -
  have "slot_ok (ts_returned s) (ts_task s)" using tsv.reachable_inv [OF assms(1)] by (simp add: ts_slot_def)
  moreover have "up (\<not> ts_abandoned s) (ts_polling s) (ts_n s) (ts_task s)"
    using ts_inv_cases(3) [OF tsk.reachable_inv [OF assms(1)]] assms(2) by (auto simp: gone_def)
  moreover have "\<not> th CLOSED (ts_task s)" "th COMPLETED (ts_task s)" "tk_output (ts_task s) = Some r"
      "t = (notify (Some w) (clear_state OUTPUT_PRESENT (or_state CLOSED (ts_task s))))\<lparr>tk_output := None\<rparr>"
    using assms(3) by (auto simp: join_poll_def access_def split: if_splits option.splits)
  ultimately show ?thesis
    by (auto simp: slot_ok_def up_def core_def bnd_def join_poll_def access_def clear_state_def or_state_def)
qed

theorem task_join_value_witness:
  "\<exists>s t t'. ts_run [TRunStart, TClone, TRunEnd Waits, TJoin 7, TWake True True True, TRunStart, TRunEnd (Finished 5)] ts_start =
       Some (s :: nat tsys) \<and> tk_wakes (ts_task s) = [7] \<and>
     join_poll 7 (ts_task s) = Some (Ready (Some 5), t) \<and> ts_returned s = Some 5 \<and> join_poll 7 t = Some (Ready None, t')"
proof -
  obtain s t where s: "ts_run [TRunStart, TClone, TRunEnd Waits, TJoin 7, TWake True True True, TRunStart, TRunEnd (Finished 5)]
      ts_start = Some (s :: nat tsys)"
    and "th HANDLE (ts_task s)" "join_poll 7 (ts_task s) = Some (Ready (Some 5), t)" "tk_wakes (ts_task s) = [7]"
    by (simp add: ts_eval)
  with task_join_value [OF ts_run_reachable [OF s ts_start_reachable], of 7 5 t 7] show ?thesis by blast
qed

declare One_nat_def [simp]

end
