(* ===== verification/Gate.thy ===== *)
theory Gate
  imports LocalChannel
begin

section \<open>Gates (glommio/src/sync/gate.rs)\<close>

text \<open>
  A gate counts the passes that are out; closing it refuses new passes and waits until the last
  one is returned. Every closer waits on a channel of its own, the bounded local channel of
  \<open>LocalChannel\<close> with room for one item, whose operations are called here as the source calls
  them. The channels live in a list and are named by their position; a closer's receiver is
  node 0 of its channel. Spawning a task that holds a pass is not modelled.
\<close>

datatype gate_state = Closing "nat list" | GateClosed | GateOpen

record gate =
  g_count :: usize
  g_state :: gate_state
  g_chans :: "bool lchan list"

definition gate_new :: gate where
  "gate_new = \<lparr>g_count = 0, g_state = GateOpen, g_chans = []\<rparr>"

definition gate_is_open :: "gate \<Rightarrow> bool" where
  "gate_is_open g \<longleftrightarrow> g_state g = GateOpen"

definition gate_is_closed :: "gate \<Rightarrow> bool" where
  "gate_is_closed g \<longleftrightarrow> g_state g = GateClosed"

definition try_enter :: "gate \<Rightarrow> bool \<times> gate" where
  "try_enter g = (if gate_is_open g then (True, g\<lparr>g_count := g_count g + 1\<rparr>) else (False, g))"

definition force_increment :: "gate \<Rightarrow> gate" where
  "force_increment g = g\<lparr>g_count := g_count g + 1\<rparr>"

definition gate_enter :: "gate \<Rightarrow> (unit, unit glommio_error) result \<times> gate" where
  "gate_enter g = (case try_enter g of (ok, g') \<Rightarrow> (if \<not> ok then Inl (Closed ResGate) else Inr (), g'))"

text \<open>Each closer's sender sends once and is dropped.\<close>

fun notify_senders :: "nat list \<Rightarrow> bool lchan list \<Rightarrow> bool lchan list option" where
  "notify_senders [] cs = Some cs"
| "notify_senders (i # is) cs =
     (if i < length cs then
        Option.bind (lc_try_send True (cs ! i)) (\<lambda>(_, c). Option.bind (sender_drop c) (\<lambda>c'.
          notify_senders is (cs[i := c'])))
      else None)"

definition notify_closed :: "gate \<Rightarrow> gate option" where
  "notify_closed g =
     (case g_state g of
        Closing senders \<Rightarrow>
          map_option (\<lambda>cs. g\<lparr>g_state := GateClosed, g_chans := cs\<rparr>) (notify_senders senders (g_chans g))
      | _ \<Rightarrow> None)"

definition gate_leave :: "gate \<Rightarrow> gate option" where
  "gate_leave g =
     (let g1 = g\<lparr>g_count := g_count g - 1\<rparr>
      in if g_count g1 = 0 \<and> \<not> gate_is_open g1 then notify_closed g1 else Some g1)"

text \<open>The future that \<^verbatim>\<open>close\<close> returns: an error, nothing to wait for, or the receiver of a channel.\<close>

datatype closer = CloseErr | CloseNow | CloseWait nat

definition add_closer :: "nat list \<Rightarrow> gate \<Rightarrow> closer \<times> gate" where
  "add_closer previous g =
     (let i = length (g_chans g)
      in (CloseWait i, g\<lparr>g_state := Closing (previous @ [i]), g_chans := g_chans g @ [lchan_new (Bounded 1)]\<rparr>))"

definition gate_close :: "gate \<Rightarrow> (closer \<times> gate) option" where
  "gate_close g =
     (case g_state g of
        GateOpen \<Rightarrow>
          Some (if g_count g \<noteq> 0 then add_closer [] g else (CloseNow, g\<lparr>g_state := GateClosed\<rparr>))
      | Closing previous \<Rightarrow>
          (case previous of
             [] \<Rightarrow> None
           | i # _ \<Rightarrow>
               if g_count g \<noteq> 0 \<and> i < length (g_chans g) \<and> \<not> lc_is_full (g_chans g ! i)
               then Some (add_closer previous g) else None)
      | GateClosed \<Rightarrow> Some (CloseErr, g))"

text \<open>
  One poll of that future. The first poll of a waiting one starts its receive; when the receive
  ends the receiver is dropped with the future.
\<close>

definition closer_poll :: "waker \<Rightarrow> closer \<Rightarrow> gate \<Rightarrow> ((unit, unit glommio_error) result poll \<times> gate) option" where
  "closer_poll w cl g =
     (case cl of
        CloseErr \<Rightarrow> Some (Ready (Inl (Closed ResGate)), g)
      | CloseNow \<Rightarrow> Some (Ready (Inr ()), g)
      | CloseWait i \<Rightarrow>
          (if i < length (g_chans g) then
             let c = g_chans g ! i
             in Option.bind (lc_recv_poll 0 w (if lc_nodes c 0 = None then chan_node_new 0 c else c)) (\<lambda>(p, c1).
                  case p of
                    Pending \<Rightarrow> Some (Pending, g\<lparr>g_chans := (g_chans g)[i := c1]\<rparr>)
                  | Ready _ \<Rightarrow> map_option (\<lambda>c2. (Ready (Inr ()), g\<lparr>g_chans := (g_chans g)[i := c2]\<rparr>)) (receiver_drop c1))
           else None))"

definition closer_drop :: "nat \<Rightarrow> gate \<Rightarrow> gate option" where
  "closer_drop i g =
     (if i < length (g_chans g) then
        let c = g_chans g ! i
        in Option.bind (if lc_nodes c 0 = None then Some c else chan_waiter_drop 0 c) (\<lambda>c1.
             map_option (\<lambda>c2. g\<lparr>g_chans := (g_chans g)[i := c2]\<rparr>) (receiver_drop c1))
      else None)"

subsection \<open>A gate in use\<close>

text \<open>\<open>gs_passes\<close> counts the passes in existence; a closer exists while its receiver does.\<close>

record gsys =
  gs_gate :: gate
  gs_passes :: nat

datatype gop = GEnter | GTryClone | GForceClone | GLeave | GClose | GPoll nat waker | GDropCloser nat

definition after_enter :: "gsys \<Rightarrow> gsys" where
  "after_enter s =
     (case gate_enter (gs_gate s) of
        (Inl _, g) \<Rightarrow> s\<lparr>gs_gate := g\<rparr>
      | (Inr _, g) \<Rightarrow> s\<lparr>gs_gate := g, gs_passes := gs_passes s + 1\<rparr>)"

fun gexec :: "gop \<Rightarrow> gsys \<Rightarrow> gsys option" where
  "gexec GEnter s = Some (after_enter s)"
| "gexec GTryClone s = Some (after_enter s)"
| "gexec GForceClone s = Some (s\<lparr>gs_gate := force_increment (gs_gate s), gs_passes := gs_passes s + 1\<rparr>)"
| "gexec GLeave s = map_option (\<lambda>g. s\<lparr>gs_gate := g, gs_passes := gs_passes s - 1\<rparr>) (gate_leave (gs_gate s))"
| "gexec GClose s = map_option (\<lambda>(_, g). s\<lparr>gs_gate := g\<rparr>) (gate_close (gs_gate s))"
| "gexec (GPoll i w) s = map_option (\<lambda>(_, g). s\<lparr>gs_gate := g\<rparr>) (closer_poll w (CloseWait i) (gs_gate s))"
| "gexec (GDropCloser i) s = map_option (\<lambda>g. s\<lparr>gs_gate := g\<rparr>) (closer_drop i (gs_gate s))"

definition closer_alive :: "nat \<Rightarrow> gate \<Rightarrow> bool" where
  "closer_alive i g \<longleftrightarrow> i < length (g_chans g) \<and> lc_recv_waiters (g_chans g ! i) \<noteq> None"

fun genabled :: "gop \<Rightarrow> gsys \<Rightarrow> bool" where
  "genabled GEnter s \<longleftrightarrow> gs_passes s < 2 ^ 64 - 1"
| "genabled GTryClone s \<longleftrightarrow> 0 < gs_passes s \<and> gs_passes s < 2 ^ 64 - 1"
| "genabled GForceClone s \<longleftrightarrow> 0 < gs_passes s \<and> gs_passes s < 2 ^ 64 - 1"
| "genabled GLeave s \<longleftrightarrow> 0 < gs_passes s"
| "genabled GClose s \<longleftrightarrow> True"
| "genabled (GPoll i w) s \<longleftrightarrow> closer_alive i (gs_gate s)"
| "genabled (GDropCloser i) s \<longleftrightarrow> closer_alive i (gs_gate s)"

inductive gstep :: "gsys \<Rightarrow> gsys \<Rightarrow> bool" where
  "genabled op s \<Longrightarrow> gexec op s = Some s' \<Longrightarrow> gstep s s'"

inductive_cases gstepE: "gstep s s'"

definition gstart :: gsys where
  "gstart = \<lparr>gs_gate = gate_new, gs_passes = 0\<rparr>"

subsection \<open>The channels of the closers\<close>

text \<open>A channel whose sender the gate still holds, and one whose sender has spoken and gone.\<close>

definition recv_node :: "waker \<Rightarrow> chan_node" where
  "recv_node w = \<lparr>cn_waker = Some w, cn_kind = Some Receiver, cn_woken = False\<rparr>"

definition woken_node :: chan_node where
  "woken_node = \<lparr>cn_waker = None, cn_kind = Some Receiver, cn_woken = True\<rparr>"

definition asleep :: "bool lchan \<Rightarrow> bool" where
  "asleep c \<longleftrightarrow> lc_capacity c = Bounded 1 \<and> lc_channel c = [] \<and> lc_send_waiters c = Some [] \<and>
     (lc_recv_waiters c = None \<and> lc_nodes c = (\<lambda>_. None) \<or> lc_recv_waiters c = Some [] \<and> lc_nodes c = (\<lambda>_. None) \<or>
      lc_recv_waiters c = Some [0] \<and> (\<exists>w. lc_nodes c = [0 \<mapsto> recv_node w]))"

definition told :: "bool lchan \<Rightarrow> bool" where
  "told c \<longleftrightarrow> lc_send_waiters c = None \<and>
     (lc_recv_waiters c = None \<or>
      lc_recv_waiters c = Some [] \<and> lc_channel c = [True] \<and> (lc_nodes c = (\<lambda>_. None) \<or> lc_nodes c = [0 \<mapsto> woken_node]))"

text \<open>The waker that a sleeping closer has left, and what telling a closer does to its channel.\<close>

definition sleeper :: "bool lchan \<Rightarrow> waker list" where
  "sleeper c = (case lc_nodes c 0 of None \<Rightarrow> [] | Some n \<Rightarrow> (case cn_waker n of None \<Rightarrow> [] | Some w \<Rightarrow> [w]))"

definition tells :: "bool lchan \<Rightarrow> bool lchan \<Rightarrow> bool" where
  "tells c c' \<longleftrightarrow> told c' \<and> lc_wakes c' = lc_wakes c @ sleeper c \<and> (lc_recv_waiters c' = None \<longleftrightarrow> lc_recv_waiters c = None)"

lemmas chan_eval = lc_try_send_def lc_push_def wake_first_def lc_waiters_def set_waiters_def lc_is_full_def chan_wake_def
  node_set_def node_free_def chan_node_new_def sender_drop_def receiver_drop_def wake_up_all_def lchan_drop_def lc_linked_def
  lc_recv_poll_def chan_waiter_poll_def lc_recv_one_def state_recv_one_def register_into_waiting_queue_def
  remove_from_the_waiting_queue_def chan_waiter_drop_def pass_on_wakeup_def recv_node_def woken_node_def

lemma asleep_new: "asleep (lchan_new (Bounded 1))"
  by (simp add: asleep_def lchan_new_def)

lemma asleep_tell:
  assumes "asleep c"
  shows "\<exists>r c1 c2. lc_try_send True c = Some (r, c1) \<and> sender_drop c1 = Some c2 \<and> tells c c2"
  using assms by (auto simp: asleep_def tells_def told_def sleeper_def chan_eval)

lemma asleep_poll:
  assumes "asleep c" "lc_recv_waiters c \<noteq> None"
  shows "\<exists>c1. lc_recv_poll 0 w (if lc_nodes c 0 = None then chan_node_new 0 c else c) = Some (Pending, c1) \<and> asleep c1 \<and>
     lc_recv_waiters c1 = Some [0] \<and> lc_nodes c1 = [0 \<mapsto> recv_node w]"
  using assms by (auto simp: asleep_def chan_eval) blast

lemma asleep_drop:
  assumes "asleep c" "lc_recv_waiters c \<noteq> None"
  shows "\<exists>c1 c2. (if lc_nodes c 0 = None then Some c else chan_waiter_drop 0 c) = Some c1 \<and> receiver_drop c1 = Some c2 \<and> asleep c2"
  using assms by (auto simp: asleep_def chan_eval)

lemma told_poll:
  assumes "told c" "lc_recv_waiters c \<noteq> None"
  shows "\<exists>c1 c2. lc_recv_poll 0 w (if lc_nodes c 0 = None then chan_node_new 0 c else c) = Some (Ready (Some True), c1) \<and>
     receiver_drop c1 = Some c2 \<and> told c2"
  using assms by (auto simp: told_def chan_eval)

lemma told_drop:
  assumes "told c" "lc_recv_waiters c \<noteq> None"
  shows "\<exists>c1 c2. (if lc_nodes c 0 = None then Some c else chan_waiter_drop 0 c) = Some c1 \<and> receiver_drop c1 = Some c2 \<and> told c2"
  using assms by (auto simp: told_def chan_eval)


subsection \<open>Invariant\<close>

text \<open>
  The count is the number of passes. While the gate is closing passes are out, every sender it
  holds is that of a sleeping closer, and every other closer has been told; a closed gate has no
  pass out and has told every closer.
\<close>

definition closers :: "gate \<Rightarrow> nat list" where
  "closers g = (case g_state g of Closing is \<Rightarrow> is | _ \<Rightarrow> [])"

definition ginv :: "gsys \<Rightarrow> bool" where
  "ginv s \<longleftrightarrow> (let g = gs_gate s in
     gs_passes s = unat (g_count g) \<and>
     (g_state g = GateClosed \<longrightarrow> gs_passes s = 0) \<and>
     (\<forall>is. g_state g = Closing is \<longrightarrow> is \<noteq> [] \<and> 0 < gs_passes s) \<and>
     distinct (closers g) \<and>
     (\<forall>i<length (g_chans g). i \<in> set (closers g) \<longrightarrow> asleep (g_chans g ! i)) \<and>
     (\<forall>i<length (g_chans g). i \<notin> set (closers g) \<longrightarrow> told (g_chans g ! i)) \<and>
     (\<forall>i\<in>set (closers g). i < length (g_chans g)) \<and>
     (g_state g \<noteq> GateClosed \<longrightarrow> (\<forall>i<length (g_chans g). i \<in> set (closers g))))"

lemma closers_upd [simp]:
  "closers (g\<lparr>g_count := c\<rparr>) = closers g" "closers (g\<lparr>g_chans := cs\<rparr>) = closers g"
  "closers (g\<lparr>g_state := Closing is\<rparr>) = is" "closers (g\<lparr>g_state := GateClosed\<rparr>) = []"
  by (simp_all add: closers_def)

lemma closers_open: "g_state g = GateOpen \<Longrightarrow> closers g = []" "g_state g = Closing is \<Longrightarrow> closers g = is"
  by (simp_all add: closers_def)

lemma ginvI:
  assumes "gs_passes s = unat (g_count (gs_gate s))" "g_state (gs_gate s) = GateClosed \<Longrightarrow> gs_passes s = 0"
    "\<And>is. g_state (gs_gate s) = Closing is \<Longrightarrow> is \<noteq> [] \<and> 0 < gs_passes s" "distinct (closers (gs_gate s))"
    "\<And>i. i < length (g_chans (gs_gate s)) \<Longrightarrow> i \<in> set (closers (gs_gate s)) \<Longrightarrow> asleep (g_chans (gs_gate s) ! i)"
    "\<And>i. i < length (g_chans (gs_gate s)) \<Longrightarrow> i \<notin> set (closers (gs_gate s)) \<Longrightarrow> told (g_chans (gs_gate s) ! i)"
    "\<And>i. i \<in> set (closers (gs_gate s)) \<Longrightarrow> i < length (g_chans (gs_gate s))"
    "\<And>i. g_state (gs_gate s) \<noteq> GateClosed \<Longrightarrow> i < length (g_chans (gs_gate s)) \<Longrightarrow> i \<in> set (closers (gs_gate s))"
  shows "ginv s"
  unfolding ginv_def Let_def using assms by (intro conjI) blast+

lemma ginvD:
  assumes "ginv s"
  shows "gs_passes s = unat (g_count (gs_gate s))" "g_state (gs_gate s) = GateClosed \<Longrightarrow> gs_passes s = 0"
    "g_state (gs_gate s) = Closing is \<Longrightarrow> is \<noteq> []" "g_state (gs_gate s) = Closing is \<Longrightarrow> 0 < gs_passes s"
    "distinct (closers (gs_gate s))"
    "i < length (g_chans (gs_gate s)) \<Longrightarrow> i \<in> set (closers (gs_gate s)) \<Longrightarrow> asleep (g_chans (gs_gate s) ! i)"
    "i < length (g_chans (gs_gate s)) \<Longrightarrow> i \<notin> set (closers (gs_gate s)) \<Longrightarrow> told (g_chans (gs_gate s) ! i)"
    "i \<in> set (closers (gs_gate s)) \<Longrightarrow> i < length (g_chans (gs_gate s))"
    "g_state (gs_gate s) \<noteq> GateClosed \<Longrightarrow> i < length (g_chans (gs_gate s)) \<Longrightarrow> i \<in> set (closers (gs_gate s))"
  using assms unfolding ginv_def Let_def by blast+

text \<open>Passes come and go without any other change; a channel changes without any other change.\<close>

lemma ginv_count:
  assumes "ginv s" "g_state (gs_gate t) = g_state (gs_gate s)" "g_chans (gs_gate t) = g_chans (gs_gate s)"
    "gs_passes t = unat (g_count (gs_gate t))" "g_state (gs_gate s) = GateClosed \<Longrightarrow> gs_passes t = 0"
    "\<And>is. g_state (gs_gate s) = Closing is \<Longrightarrow> 0 < gs_passes t"
  shows "ginv t"
proof -
  have "closers (gs_gate t) = closers (gs_gate s)" using assms(2) by (simp add: closers_def)
  then show ?thesis using assms unfolding ginv_def Let_def by (simp; blast)
qed

lemma ginv_chans:
  assumes "ginv s" "i < length (g_chans (gs_gate s))"
    "i \<in> set (closers (gs_gate s)) \<Longrightarrow> asleep c" "i \<notin> set (closers (gs_gate s)) \<Longrightarrow> told c"
  shows "ginv (s\<lparr>gs_gate := (gs_gate s)\<lparr>g_chans := (g_chans (gs_gate s))[i := c]\<rparr>\<rparr>)"
proof (rule ginvI, goal_cases)
  case (5 j)
  then show ?case using ginvD(6) [OF assms(1), of j] assms(3) by (cases "j = i") simp_all
next
  case (6 j)
  then show ?case using ginvD(7) [OF assms(1), of j] assms(4) by (cases "j = i") simp_all
next
  case (7 j)
  then show ?case using ginvD(8) [OF assms(1), of j] by simp
next
  case (8 j)
  then show ?case using ginvD(9) [OF assms(1), of j] by simp
qed (use ginvD(1-5) [OF assms(1)] in simp_all)

lemma notify_senders_ok:
  assumes "distinct is" "\<And>i. i \<in> set is \<Longrightarrow> i < length cs \<and> asleep (cs ! i)"
  shows "\<exists>cs'. notify_senders is cs = Some cs' \<and> length cs' = length cs \<and>
     (\<forall>i\<in>set is. tells (cs ! i) (cs' ! i)) \<and> (\<forall>i. i \<notin> set is \<longrightarrow> cs' ! i = cs ! i)"
  using assms
proof (induction "is" arbitrary: cs)
  case (Cons i "is")
  obtain r c1 c2 where c: "lc_try_send True (cs ! i) = Some (r, c1)" "sender_drop c1 = Some c2" "tells (cs ! i) c2"
    using asleep_tell [of "cs ! i"] Cons.prems(2) [of i] by auto
  have i: "i < length cs" "i \<notin> set is" using Cons.prems by auto
  have "j < length (cs[i := c2]) \<and> asleep (cs[i := c2] ! j)" if "j \<in> set is" for j
    using that Cons.prems(2) [of j] i(2) by (cases "j = i") auto
  with Cons.IH [of "cs[i := c2]"] Cons.prems(1) obtain cs' where n: "notify_senders is (cs[i := c2]) = Some cs'"
    "length cs' = length cs" "\<forall>j\<in>set is. tells (cs[i := c2] ! j) (cs' ! j)" "\<forall>j. j \<notin> set is \<longrightarrow> cs' ! j = cs[i := c2] ! j"
    by auto
  have "tells (cs ! j) (cs' ! j)" if "j \<in> set (i # is)" for j
    using that n(3,4) c(3) i by (cases "j = i") auto
  moreover have "cs' ! j = cs ! j" if "j \<notin> set (i # is)" for j using that n(4) by auto
  ultimately show ?case using c n(1,2) i(1) by simp
qed simp

lemma notify_closed_ok:
  assumes "ginv s" "g_state (gs_gate s) = Closing is"
  shows "\<exists>cs. notify_senders is (g_chans (gs_gate s)) = Some cs \<and> length cs = length (g_chans (gs_gate s)) \<and>
     (\<forall>i<length cs. told (cs ! i)) \<and> (\<forall>i\<in>set is. tells (g_chans (gs_gate s) ! i) (cs ! i))"
proof -
  have cl: "closers (gs_gate s) = is" using assms(2) by (simp add: closers_def)
  have "i < length (g_chans (gs_gate s)) \<and> asleep (g_chans (gs_gate s) ! i)" if "i \<in> set is" for i
    using ginvD(6,8) [OF assms(1)] that cl by auto
  moreover have "distinct is" using ginvD(5) [OF assms(1)] cl by simp
  ultimately obtain cs where
    cs: "notify_senders is (g_chans (gs_gate s)) = Some cs" "length cs = length (g_chans (gs_gate s))"
      "\<forall>i\<in>set is. tells (g_chans (gs_gate s) ! i) (cs ! i)" "\<forall>i. i \<notin> set is \<longrightarrow> cs ! i = g_chans (gs_gate s) ! i"
    using notify_senders_ok [of "is" "g_chans (gs_gate s)"] by blast
  have "told (cs ! i)" if "i < length cs" for i
    using that cs ginvD(7) [OF assms(1), of i] cl by (cases "i \<in> set is") (auto simp: tells_def)
  with cs show ?thesis by blast
qed

lemma gate_word: "0 < unat (c :: usize) \<Longrightarrow> unat (c - 1) = unat c - 1" "unat (c :: usize) < 2 ^ 64 - 1 \<Longrightarrow> unat (c + 1) = unat c + 1"
  by (auto simp: unat_sub_if' unat_word_ariths Suc_le_eq)

lemma after_enter_inv:
  assumes "ginv s" "gs_passes s < 2 ^ 64 - 1"
  shows "ginv (after_enter s)"
proof (cases "g_state (gs_gate s) = GateOpen")
  case True
  then show ?thesis
    using assms gate_word(2) [of "g_count (gs_gate s)"] ginvD(1) [OF assms(1)]
    by (intro ginv_count [OF assms(1)]) (simp_all add: after_enter_def gate_enter_def try_enter_def gate_is_open_def)
next
  case False
  then show ?thesis using assms by (simp add: after_enter_def gate_enter_def try_enter_def gate_is_open_def)
qed

lemma leave_inv:
  assumes "ginv s" "0 < gs_passes s"
  shows "\<exists>t. gexec GLeave s = Some t \<and> ginv t"
proof -
  let ?g = "(gs_gate s)\<lparr>g_count := g_count (gs_gate s) - 1\<rparr>"
  note d = ginvD [OF assms(1)]
  have u: "unat (g_count (gs_gate s) - 1) = gs_passes s - 1" using gate_word(1) d(1) assms(2) by simp
  then have z: "g_count (gs_gate s) - 1 = 0 \<longleftrightarrow> gs_passes s = 1" using assms(2) by (metis One_nat_def Suc_pred diff_Suc_1 unat_eq_zero)
  consider (last) "is" where "gs_passes s = 1" "g_state (gs_gate s) = Closing is"
    | (more) "gs_passes s \<noteq> 1 \<or> g_state (gs_gate s) = GateOpen"
    using d(2) assms(2) by (cases "g_state (gs_gate s)") auto
  then show ?thesis
  proof cases
    case last
    obtain cs where cs: "notify_senders is (g_chans (gs_gate s)) = Some cs" "\<forall>i<length cs. told (cs ! i)"
      using notify_closed_ok [OF assms(1) last(2)] by blast
    have "gexec GLeave s = Some (s\<lparr>gs_gate := ?g\<lparr>g_state := GateClosed, g_chans := cs\<rparr>, gs_passes := 0\<rparr>)"
      using last z cs(1) by (simp add: gate_leave_def gate_is_open_def notify_closed_def)
    moreover have "ginv (s\<lparr>gs_gate := ?g\<lparr>g_state := GateClosed, g_chans := cs\<rparr>, gs_passes := 0\<rparr>)"
      using cs(2) u last by (intro ginvI) (simp_all add: closers_def)
    ultimately show ?thesis by blast
  next
    case more
    have "gexec GLeave s = Some (s\<lparr>gs_gate := ?g, gs_passes := gs_passes s - 1\<rparr>)"
      using more z by (auto simp: gate_leave_def gate_is_open_def)
    moreover have "ginv (s\<lparr>gs_gate := ?g, gs_passes := gs_passes s - 1\<rparr>)"
      using more u d(2,4) assms(2) by (intro ginv_count [OF assms(1)]) auto
    ultimately show ?thesis by blast
  qed
qed


lemma close_inv:
  assumes "ginv s"
  shows "\<exists>t. gexec GClose s = Some t \<and> ginv t"
proof -
  note d = ginvD [OF assms]
  let ?g = "gs_gate s" and ?n = "length (g_chans (gs_gate s))"
  have add: "ginv (s\<lparr>gs_gate := snd (add_closer is ?g)\<rparr>)"
    if cl: "closers ?g = is" and p: "0 < gs_passes s" and o: "g_state ?g \<noteq> GateClosed" for "is"
  proof (rule ginvI; simp add: add_closer_def Let_def closers_def d(1))
    show "0 < unat (g_count ?g)" using p d(1) by simp
    show "distinct is \<and> ?n \<notin> set is" using d(5,8) cl by auto
    show "asleep ((g_chans ?g @ [lchan_new (Bounded 1)]) ! i)" if "i < Suc ?n" "i = ?n \<or> i \<in> set is" for i
      using that d(6,8) cl asleep_new by (cases "i = ?n") (auto simp: nth_append)
    show "told ((g_chans ?g @ [lchan_new (Bounded 1)]) ! i)" if "i < Suc ?n" "i \<noteq> ?n \<and> i \<notin> set is" for i
      using that d(7) cl by (auto simp: nth_append)
    show "i < Suc ?n" if "i = ?n \<or> i \<in> set is" for i using that d(8) cl by (auto intro: less_SucI)
    show "i = ?n \<or> i \<in> set is" if "i < Suc ?n" for i using that d(9) [OF o] cl by (auto simp: less_Suc_eq)
  qed
  show ?thesis
  proof (cases "g_state ?g")
    case GateOpen
    show ?thesis
    proof (cases "g_count ?g = 0")
      case True
      then have "ginv (s\<lparr>gs_gate := ?g\<lparr>g_state := GateClosed\<rparr>\<rparr>)"
        using d(1,7) d(9) GateOpen by (intro ginvI) (auto simp: closers_open)
      then show ?thesis using GateOpen True by (simp add: gate_close_def)
    next
      case False
      then have "0 < gs_passes s" using d(1) by (simp add: unat_gt_0)
      with add [of "[]"] GateOpen False show ?thesis by (simp add: gate_close_def closers_def split_beta)
    qed
  next
    case (Closing "is")
    then obtain i js where ij: "is = i # js" using d(3) by (cases "is") auto
    then have i: "i < ?n" "asleep (g_chans ?g ! i)" using d(6,8) Closing by (auto simp: closers_def)
    have "0 < gs_passes s" using d(4) [OF Closing] .
    moreover have "g_count ?g \<noteq> 0" using d(1) calculation by (simp add: unat_gt_0)
    ultimately show ?thesis
      using add [of "is"] Closing ij i by (simp add: gate_close_def closers_def split_beta asleep_def lc_is_full_def)
  next
    case GateClosed
    then show ?thesis using assms by (simp add: gate_close_def)
  qed
qed

lemma closer_poll_ok:
  assumes "ginv s" "closer_alive i (gs_gate s)"
  shows "\<exists>c. (if i \<in> set (closers (gs_gate s))
       then closer_poll w (CloseWait i) (gs_gate s) = Some (Pending, (gs_gate s)\<lparr>g_chans := (g_chans (gs_gate s))[i := c]\<rparr>) \<and>
         asleep c \<and> lc_recv_waiters c \<noteq> None \<and> sleeper c = [w]
       else closer_poll w (CloseWait i) (gs_gate s) = Some (Ready (Inr ()), (gs_gate s)\<lparr>g_chans := (g_chans (gs_gate s))[i := c]\<rparr>) \<and>
         told c)"
proof -
  let ?c = "g_chans (gs_gate s) ! i"
  have i: "i < length (g_chans (gs_gate s))" "lc_recv_waiters ?c \<noteq> None" using assms(2) by (auto simp: closer_alive_def)
  show ?thesis
  proof (cases "i \<in> set (closers (gs_gate s))")
    case True
    from asleep_poll [OF ginvD(6) [OF assms(1) i(1) True] i(2), of w] i show ?thesis
      using True by (auto simp: closer_poll_def Let_def sleeper_def recv_node_def)
  next
    case False
    from told_poll [OF ginvD(7) [OF assms(1) i(1) False] i(2), of w] i show ?thesis
      using False by (auto simp: closer_poll_def Let_def)
  qed
qed

lemma closer_drop_ok:
  assumes "ginv s" "closer_alive i (gs_gate s)"
  shows "\<exists>c. closer_drop i (gs_gate s) = Some ((gs_gate s)\<lparr>g_chans := (g_chans (gs_gate s))[i := c]\<rparr>) \<and>
     (if i \<in> set (closers (gs_gate s)) then asleep c else told c)"
proof -
  let ?c = "g_chans (gs_gate s) ! i"
  have i: "i < length (g_chans (gs_gate s))" "lc_recv_waiters ?c \<noteq> None" using assms(2) by (auto simp: closer_alive_def)
  show ?thesis
    using asleep_drop [OF ginvD(6) [OF assms(1) i(1)] i(2)] told_drop [OF ginvD(7) [OF assms(1) i(1)] i(2)] i(1)
    by (cases "i \<in> set (closers (gs_gate s))") (auto simp: closer_drop_def Let_def)
qed

lemma gexec_inv:
  assumes "ginv s" "genabled op s"
  shows "\<exists>t. gexec op s = Some t \<and> ginv t"
proof (cases op)
  case (GPoll i w)
  then have a: "closer_alive i (gs_gate s)" using assms(2) by simp
  then have i: "i < length (g_chans (gs_gate s))" by (simp add: closer_alive_def)
  from closer_poll_ok [OF assms(1) a, of w] GPoll ginv_chans [OF assms(1) i] show ?thesis
    by (cases "i \<in> set (closers (gs_gate s))") auto
next
  case (GDropCloser i)
  then have a: "closer_alive i (gs_gate s)" using assms(2) by simp
  then have i: "i < length (g_chans (gs_gate s))" by (simp add: closer_alive_def)
  from closer_drop_ok [OF assms(1) a] GDropCloser ginv_chans [OF assms(1) i] show ?thesis
    by (cases "i \<in> set (closers (gs_gate s))") auto
next
  case GForceClone
  have "g_state (gs_gate s) \<noteq> GateClosed" using assms GForceClone ginvD(2) [OF assms(1)] by auto
  then show ?thesis
    using assms(2) GForceClone gate_word(2) [of "g_count (gs_gate s)"] ginvD(1) [OF assms(1)]
    by (auto simp: force_increment_def intro!: ginv_count [OF assms(1)])
qed (use assms after_enter_inv leave_inv close_inv in auto)

interpretation gt: transition_inv "\<lambda>s. s = gstart" gstep ginv
proof unfold_locales
  show "ginv s" if "s = gstart" for s
    using that by (auto simp: gstart_def gate_new_def closers_def intro!: ginvI)
  show "ginv t" if "ginv s" "gstep s t" for s t
    using that(2) gexec_inv [OF that(1)] by (fastforce elim: gstepE)
qed


lemma gstart_reachable: "reachable (\<lambda>s. s = gstart) gstep gstart"
  by blast

fun grun :: "gop list \<Rightarrow> gsys \<Rightarrow> gsys option" where
  "grun [] s = Some s"
| "grun (op # ops) s = (if genabled op s then Option.bind (gexec op s) (grun ops) else None)"

lemma grun_reachable:
  "grun ops s = Some t \<Longrightarrow> reachable (\<lambda>s. s = gstart) gstep s \<Longrightarrow> reachable (\<lambda>s. s = gstart) gstep t"
proof (induction ops arbitrary: s)
  case (Cons op ops)
  then obtain u where "genabled op s" "gexec op s = Some u" "grun ops u = Some t"
    by (auto split: if_splits bind_splits)
  with Cons show ?case by (meson reachable_step gstep.intros)
qed simp

lemmas gate_eval = gstart_def gate_new_def after_enter_def gate_enter_def try_enter_def gate_is_open_def gate_close_def
  add_closer_def closer_alive_def closer_poll_def closer_drop_def gate_leave_def notify_closed_def force_increment_def
  lchan_new_def chan_eval sleeper_def gate_is_closed_def Let_def

subsection \<open>Correctness of gates\<close>

text \<open>
  Using a gate never panics: in every reachable state every call that the passes and
  closers in existence allow returns, the assertions of \<^verbatim>\<open>close\<close> and the unreachable branch of
  \<^verbatim>\<open>notify_closed\<close> included, and the gate's counter stays the number of passes that are out.
\<close>

lemma gate_no_panic:
  assumes "reachable (\<lambda>s. s = gstart) gstep s" and "genabled op s"
  shows "\<exists>t. gexec op s = Some t \<and> unat (g_count (gs_gate t)) = gs_passes t"
  using gexec_inv [OF gt.reachable_inv [OF assms(1)] assms(2)] ginvD(1) by metis

text \<open>
  Claim C24. Closing a gate waits for exactly the passes: in every reachable state the future of a
  call to \<^verbatim>\<open>close\<close> that had to wait is ready if and only if the gate is closed, and then no pass
  is out.
\<close>

theorem gate_close_waits:
  assumes "reachable (\<lambda>s. s = gstart) gstep s" and "closer_alive i (gs_gate s)"
  shows "\<exists>p g. closer_poll w (CloseWait i) (gs_gate s) = Some (p, g) \<and>
     (is_ready p \<longleftrightarrow> gate_is_closed (gs_gate s)) \<and> (is_ready p \<longrightarrow> gs_passes s = 0)"
proof -
  note inv = gt.reachable_inv [OF assms(1)]
  have i: "i < length (g_chans (gs_gate s))" using assms(2) by (simp add: closer_alive_def)
  have "i \<in> set (closers (gs_gate s)) \<longleftrightarrow> \<not> gate_is_closed (gs_gate s)"
    using ginvD(9) [OF inv _ i] by (auto simp: gate_is_closed_def closers_def)
  then show ?thesis
    using closer_poll_ok [OF inv assms(2), of w] ginvD(2) [OF inv]
    by (cases "gate_is_closed (gs_gate s)") (auto simp: gate_is_closed_def)
qed

theorem gate_close_waits_witness:
  "\<exists>s p g. grun [GEnter, GClose, GPoll 0 7, GTryClone, GLeave] gstart = Some s \<and>
     closer_poll 7 (CloseWait 0) (gs_gate s) = Some (p, g) \<and> is_ready p \<and> gs_passes s = 0"
proof -
  obtain s where s: "grun [GEnter, GClose, GPoll 0 7, GTryClone, GLeave] gstart = Some s"
    and "closer_alive 0 (gs_gate s)" "gate_is_closed (gs_gate s)"
    by (simp add: gate_eval)
  with gate_close_waits [OF grun_reachable [OF s gstart_reachable], of 0 7] show ?thesis by auto
qed

text \<open>
  The last pass to leave a closing gate closes it and wakes every closer that sleeps:
  the waker that a closer left in its channel is called.
\<close>

lemma gate_last_leave_wakes:
  assumes "reachable (\<lambda>s. s = gstart) gstep s" and "g_state (gs_gate s) = Closing is" and "gs_passes s = 1" and "i \<in> set is"
  shows "\<exists>t. gexec GLeave s = Some t \<and> gate_is_closed (gs_gate t) \<and>
     lc_wakes (g_chans (gs_gate t) ! i) = lc_wakes (g_chans (gs_gate s) ! i) @ sleeper (g_chans (gs_gate s) ! i)"
proof -
  note inv = gt.reachable_inv [OF assms(1)]
  obtain cs where cs: "notify_senders is (g_chans (gs_gate s)) = Some cs" "\<forall>i\<in>set is. tells (g_chans (gs_gate s) ! i) (cs ! i)"
    using notify_closed_ok [OF inv assms(2)] by blast
  have "unat (g_count (gs_gate s)) = 1" using ginvD(1) [OF inv] assms(3) by simp
  then have "g_count (gs_gate s) = 1" by (metis unat_1 word_unat_eq_iff)
  then show ?thesis
    using cs assms(2,4) by (auto simp: gate_leave_def gate_is_open_def notify_closed_def gate_is_closed_def tells_def)
qed

end
