(* ===== verification/Timers.thy ===== *)
theory Timers
  imports OrderedMap
begin

section \<open>Timers (glommio/src/reactor.rs, glommio/src/timer/timer\_impl.rs)\<close>

text \<open>
  The timer registry of the reactor and the timers that register in it. An \<^verbatim>\<open>Instant\<close> and a
  \<^verbatim>\<open>Duration\<close> are natural numbers, in nanoseconds; an instant has 63 bits for its seconds, and adding a duration that leads past
  that range panics. Timer ids are natural numbers.
  The state that a timer shares with the handle of its action is named by the timer's id, since no
  two timers with one id exist at a time. \<open>Weak::upgrade\<close> of the reactor fails once the executor is
  gone. The clock stands still within an operation. What is recorded beside the state of the program: the wakers that were woken, the handles
  that were cancelled, the timers not yet dropped, and which timers wait for a wake-up.
\<close>

subsection \<open>The registry\<close>

type_synonym instant = nat
type_synonym duration = nat

definition instant_max :: instant where
  "instant_max = 2 ^ 63 * 10 ^ 9 - 1"

definition instant_add :: "instant \<Rightarrow> duration \<Rightarrow> instant option" where
  "instant_add now dur = (if now + dur \<le> instant_max then Some (now + dur) else None)"

record timers =
  t_timer_id :: nat
  t_by_id :: "nat \<Rightarrow> instant option"
  t_timers :: "((instant \<times> nat) \<times> waker) list"

definition timers_new :: timers where
  "timers_new = \<lparr>t_timer_id = 0, t_by_id = Map.empty, t_timers = []\<rparr>"

definition timers_new_id :: "timers \<Rightarrow> nat \<times> timers" where
  "timers_new_id t = (t_timer_id t + 1, t\<lparr>t_timer_id := t_timer_id t + 1\<rparr>)"

definition timers_remove :: "nat \<Rightarrow> timers \<Rightarrow> waker option \<times> timers" where
  "timers_remove i t =
     (case t_by_id t i of
        None \<Rightarrow> (None, t)
      | Some when \<Rightarrow>
          (map_of (t_timers t) (when, i),
           t\<lparr>t_by_id := (t_by_id t)(i := None), t_timers := bt_remove (when, i) (t_timers t)\<rparr>))"

definition timers_insert :: "nat \<Rightarrow> instant \<Rightarrow> waker \<Rightarrow> timers \<Rightarrow> waker option \<times> timers" where
  "timers_insert i when w t =
     (let (previous, m) = (case t_by_id t i of
             None \<Rightarrow> (None, t_timers t)
           | Some old \<Rightarrow> (map_of (t_timers t) (old, i), bt_remove (old, i) (t_timers t)))
      in (previous, t\<lparr>t_by_id := (t_by_id t)(i \<mapsto> when), t_timers := bt_insert (when, i) w m\<rparr>))"

definition take_ready :: "instant \<Rightarrow> timers \<Rightarrow> ((instant \<times> nat) \<times> waker) list \<times> timers" where
  "take_ready now t =
     (filter (\<lambda>e. fst e < (now, 0)) (t_timers t), t\<lparr>t_timers := filter (\<lambda>e. (now, 0) \<le> fst e) (t_timers t)\<rparr>)"

definition next_timer :: "instant \<Rightarrow> timers \<Rightarrow> duration option" where
  "next_timer now t = (case t_timers t of [] \<Rightarrow> None | e # _ \<Rightarrow> Some (fst (fst e) - now))"

subsection \<open>The reactor and the shared state of timers\<close>

record inner =
  in_is_charged :: bool
  in_when :: instant

record tworld =
  tw_reactor :: "timers option"
  tw_now :: instant
  tw_inner :: "nat \<Rightarrow> inner option"
  tw_live :: "nat set"
  tw_wait :: "nat \<Rightarrow> waker option"
  tw_wakes :: "waker list"
  tw_cancels :: "nat list"

text \<open>\<^verbatim>\<open>upgrade().unwrap()\<close>, then a call on the registry.\<close>

definition on_reactor :: "(timers \<Rightarrow> 'a \<times> timers) \<Rightarrow> tworld \<Rightarrow> ('a \<times> tworld) option" where
  "on_reactor f w = (case tw_reactor w of None \<Rightarrow> None | Some t \<Rightarrow> (case f t of (x, t') \<Rightarrow> Some (x, w\<lparr>tw_reactor := Some t'\<rparr>)))"

definition register_timer :: "tworld \<Rightarrow> (nat \<times> tworld) option" where
  "register_timer w = on_reactor timers_new_id w"

definition insert_timer :: "nat \<Rightarrow> instant \<Rightarrow> waker \<Rightarrow> tworld \<Rightarrow> tworld option" where
  "insert_timer i when wk w = map_option snd (on_reactor (timers_insert i when wk) w)"

definition remove_timer :: "nat \<Rightarrow> tworld \<Rightarrow> (waker option \<times> tworld) option" where
  "remove_timer i w = on_reactor (timers_remove i) w"

definition timer_exists :: "instant \<times> nat \<Rightarrow> tworld \<Rightarrow> bool option" where
  "timer_exists k w = map_option (\<lambda>t. map_of (t_timers t) k \<noteq> None) (tw_reactor w)"

text \<open>Waking ends the wait that registered the waker.\<close>

definition process_timers :: "tworld \<Rightarrow> (nat \<times> tworld) option" where
  "process_timers w =
     map_option (\<lambda>(ready, w1).
       (length ready, w1\<lparr>tw_wakes := tw_wakes w1 @ map snd ready,
          tw_wait := (\<lambda>i. if i \<in> snd ` fst ` set ready then None else tw_wait w i)\<rparr>))
     (on_reactor (take_ready (tw_now w)) w)"

definition inner_reset :: "nat \<Rightarrow> duration \<Rightarrow> tworld \<Rightarrow> tworld option" where
  "inner_reset i dur w =
     Option.bind (tw_inner w i) (\<lambda>n.
     Option.bind (if in_is_charged n then remove_timer i w else Some (None, w)) (\<lambda>(waker, w1).
     Option.bind (instant_add (tw_now w) dur) (\<lambda>when.
       let w2 = w1\<lparr>tw_inner := (tw_inner w1)(i \<mapsto> n\<lparr>in_when := when\<rparr>)\<rparr>
       in case waker of None \<Rightarrow> Some w2 | Some wk \<Rightarrow> insert_timer i when wk w2)))"

subsection \<open>Timers\<close>

definition timer_from_id :: "nat \<Rightarrow> duration \<Rightarrow> tworld \<Rightarrow> tworld option" where
  "timer_from_id i dur w =
     (case tw_reactor w of
        None \<Rightarrow> None
      | Some _ \<Rightarrow> map_option (\<lambda>when.
          w\<lparr>tw_inner := (tw_inner w)(i \<mapsto> \<lparr>in_is_charged = False, in_when = when\<rparr>), tw_live := insert i (tw_live w)\<rparr>) (instant_add (tw_now w) dur))"

definition timer_new :: "duration \<Rightarrow> tworld \<Rightarrow> (nat \<times> tworld) option" where
  "timer_new dur w = Option.bind (register_timer w) (\<lambda>(i, w1). map_option (Pair i) (timer_from_id i dur w1))"

definition timer_reset :: "nat \<Rightarrow> duration \<Rightarrow> tworld \<Rightarrow> tworld option" where
  "timer_reset i dur w = inner_reset i dur w"

text \<open>A dropped timer waits no more; the reactor may be gone by then.\<close>

definition timer_drop :: "nat \<Rightarrow> tworld \<Rightarrow> tworld option" where
  "timer_drop i w =
     Option.bind (tw_inner w i) (\<lambda>n.
       let w0 = w\<lparr>tw_live := tw_live w - {i}, tw_wait := (tw_wait w)(i := None)\<rparr>
       in if in_is_charged n \<and> tw_reactor w \<noteq> None then map_option snd (remove_timer i w0) else Some w0)"

definition timer_poll :: "nat \<Rightarrow> waker \<Rightarrow> tworld \<Rightarrow> (instant poll \<times> tworld) option" where
  "timer_poll i wk w =
     Option.bind (tw_inner w i) (\<lambda>n.
       if in_when n \<le> tw_now w then
         map_option (\<lambda>(_, w1). (Ready (in_when n), w1\<lparr>tw_wait := (tw_wait w1)(i := None)\<rparr>)) (remove_timer i w)
       else
         map_option (\<lambda>w1. (Pending, w1\<lparr>tw_inner := (tw_inner w1)(i \<mapsto> n\<lparr>in_is_charged := True\<rparr>),
             tw_wait := (tw_wait w1)(i \<mapsto> wk)\<rparr>)) (insert_timer i (in_when n) wk w))"

subsection \<open>Actions\<close>

text \<open>
  Spawning the task that awaits the timer fails when the queue does not exist, which drops the
  future and the timer in it. An action at a point in time waits for what is left until then.
\<close>

definition do_in_into :: "bool \<Rightarrow> duration \<Rightarrow> tworld \<Rightarrow> (nat option \<times> tworld) option" where
  "do_in_into queue_exists dur w =
     Option.bind (timer_new dur w) (\<lambda>(i, w1).
       if queue_exists then Some (Some i, w1) else map_option (Pair None) (timer_drop i w1))"

definition delay_until :: "instant \<Rightarrow> instant \<Rightarrow> duration" where
  "delay_until when now = (if when > now then when - now else 0)"

definition do_at_into :: "bool \<Rightarrow> instant \<Rightarrow> tworld \<Rightarrow> (nat option \<times> tworld) option" where
  "do_at_into queue_exists when w = do_in_into queue_exists (delay_until when (tw_now w)) w"

definition rearm_in :: "nat \<Rightarrow> duration \<Rightarrow> tworld \<Rightarrow> tworld option" where
  "rearm_in i dur w = inner_reset i dur w"

definition rearm_at :: "nat \<Rightarrow> instant \<Rightarrow> tworld \<Rightarrow> tworld option" where
  "rearm_at i when w = rearm_in i (delay_until when (tw_now w)) w"

text \<open>The handle's task is cancelled with its timer removed, so that nothing is waited for.\<close>

definition action_destroy :: "nat \<Rightarrow> tworld \<Rightarrow> tworld option" where
  "action_destroy i w =
     map_option (\<lambda>(_, w1). w1\<lparr>tw_cancels := tw_cancels w1 @ [i], tw_wait := (tw_wait w1)(i := None)\<rparr>) (remove_timer i w)"

subsection \<open>Timers in use\<close>

datatype timop =
    TimRegister | TimNew duration | TimFromId nat duration | TimReset nat duration | TimDrop nat | TimPoll nat waker
  | TimDoIn bool duration | TimDoAt bool instant | TimRearmIn nat duration | TimRearmAt nat instant | TimDestroy nat
  | TimProcess | TimTick nat | TimReactorGone

fun tim_exec :: "timop \<Rightarrow> tworld \<Rightarrow> tworld option" where
  "tim_exec TimRegister w = map_option snd (register_timer w)"
| "tim_exec (TimNew d) w = map_option snd (timer_new d w)"
| "tim_exec (TimFromId i d) w = timer_from_id i d w"
| "tim_exec (TimReset i d) w = timer_reset i d w"
| "tim_exec (TimDrop i) w = timer_drop i w"
| "tim_exec (TimPoll i wk) w = map_option snd (timer_poll i wk w)"
| "tim_exec (TimDoIn q d) w = map_option snd (do_in_into q d w)"
| "tim_exec (TimDoAt q d) w = map_option snd (do_at_into q d w)"
| "tim_exec (TimRearmIn i d) w = rearm_in i d w"
| "tim_exec (TimRearmAt i d) w = rearm_at i d w"
| "tim_exec (TimDestroy i) w = action_destroy i w"
| "tim_exec TimProcess w = map_option snd (process_timers w)"
| "tim_exec (TimTick d) w = Some (w\<lparr>tw_now := tw_now w + d\<rparr>)"
| "tim_exec TimReactorGone w = Some (w\<lparr>tw_reactor := None\<rparr>)"

text \<open>
  Without a reactor a timer may only be dropped. An id is used for a new timer when it was handed
  out before and the timer that used it is gone; a handle may reach the state of a timer that is gone. The clock and the points in time that
  users pass are instants.
\<close>

fun tim_enabled :: "timop \<Rightarrow> tworld \<Rightarrow> bool" where
  "tim_enabled (TimFromId i d) w = (case tw_reactor w of None \<Rightarrow> False | Some t \<Rightarrow> 1 \<le> i \<and> i \<le> t_timer_id t \<and> i \<notin> tw_live w)"
| "tim_enabled (TimReset i d) w = (tw_reactor w \<noteq> None \<and> i \<in> tw_live w)"
| "tim_enabled (TimDrop i) w = (i \<in> tw_live w)"
| "tim_enabled (TimPoll i wk) w = (tw_reactor w \<noteq> None \<and> i \<in> tw_live w)"
| "tim_enabled (TimRearmIn i d) w = (tw_reactor w \<noteq> None \<and> tw_inner w i \<noteq> None)"
| "tim_enabled (TimRearmAt i wh) w = (tw_reactor w \<noteq> None \<and> tw_inner w i \<noteq> None \<and> wh \<le> instant_max)"
| "tim_enabled (TimDoAt q wh) w = (tw_reactor w \<noteq> None \<and> wh \<le> instant_max)"
| "tim_enabled (TimDestroy i) w = (tw_reactor w \<noteq> None \<and> tw_inner w i \<noteq> None)"
| "tim_enabled (TimTick d) w = (tw_now w + d \<le> instant_max)"
| "tim_enabled TimReactorGone w = True"
| "tim_enabled _ w = (tw_reactor w \<noteq> None)"

text \<open>The duration that an operation adds to the clock.\<close>

fun tim_asked :: "timop \<Rightarrow> duration" where
  "tim_asked (TimNew d) = d"
| "tim_asked (TimFromId i d) = d"
| "tim_asked (TimReset i d) = d"
| "tim_asked (TimDoIn q d) = d"
| "tim_asked (TimRearmIn i d) = d"
| "tim_asked _ = 0"

inductive tim_step :: "tworld \<Rightarrow> tworld \<Rightarrow> bool" where
  "tim_enabled op w \<Longrightarrow> tim_exec op w = Some w' \<Longrightarrow> tim_step w w'"

inductive_cases tim_stepE: "tim_step w w'"

definition tim_start :: tworld where
  "tim_start = \<lparr>tw_reactor = Some timers_new, tw_now = 0, tw_inner = Map.empty, tw_live = {}, tw_wait = Map.empty,
     tw_wakes = [], tw_cancels = []\<rparr>"

subsection \<open>The registry holds what is waited for\<close>

definition reg_ok :: "timers \<Rightarrow> (nat \<Rightarrow> waker option) \<Rightarrow> bool" where
  "reg_ok t wait \<longleftrightarrow> bt_ok (t_timers t) \<and>
     (\<forall>wh i. map_of (t_timers t) (wh, i) = (if t_by_id t i = Some wh then wait i else None)) \<and>
     (\<forall>i. wait i \<noteq> None \<longrightarrow> t_by_id t i \<noteq> None)"

definition ids_ok :: "timers \<Rightarrow> tworld \<Rightarrow> bool" where
  "ids_ok t w \<longleftrightarrow> (\<forall>i\<in>tw_live w. 1 \<le> i \<and> i \<le> t_timer_id t) \<and>
     (\<forall>i wh. t_by_id t i = Some wh \<longrightarrow> i \<in> tw_live w \<and> (\<exists>n. tw_inner w i = Some n \<and> in_is_charged n \<and> in_when n = wh))"

definition tim_inv :: "tworld \<Rightarrow> bool" where
  "tim_inv w \<longleftrightarrow> tw_now w \<le> instant_max \<and> (\<forall>i\<in>tw_live w. tw_inner w i \<noteq> None) \<and>
     (case tw_reactor w of None \<Rightarrow> True | Some t \<Rightarrow> reg_ok t (tw_wait w) \<and> ids_ok t w)"

lemma reg_ok_new_id [simp]: "reg_ok (t\<lparr>t_timer_id := n\<rparr>) wait = reg_ok t wait"
  by (simp add: reg_ok_def)

lemma reg_ok_unregistered: "reg_ok t wait \<Longrightarrow> t_by_id t i = None \<Longrightarrow> wait i = None"
  by (auto simp: reg_ok_def)

lemma timers_remove_ok:
  assumes "reg_ok t wait"
  shows "\<exists>t'. timers_remove i t = (wait i, t') \<and> reg_ok t' (wait(i := None)) \<and>
     t_by_id t' = (t_by_id t)(i := None) \<and> t_timer_id t' = t_timer_id t"
proof (cases "t_by_id t i")
  case None
  then have "wait i = None" "(t_by_id t)(i := None) = t_by_id t" "wait(i := None) = wait"
    using reg_ok_unregistered [OF assms None] by auto
  then show ?thesis using None assms by (simp add: timers_remove_def)
next
  case (Some wh)
  then have "map_of (t_timers t) (wh, i) = wait i" using assms by (simp add: reg_ok_def)
  then show ?thesis using Some assms by (auto simp: timers_remove_def reg_ok_def)
qed

lemma timers_insert_ok:
  assumes "reg_ok t wait"
  shows "\<exists>p t'. timers_insert i wh wk t = (p, t') \<and> reg_ok t' (wait(i \<mapsto> wk)) \<and>
     t_by_id t' = (t_by_id t)(i \<mapsto> wh) \<and> t_timer_id t' = t_timer_id t"
  using assms by (cases "t_by_id t i") (auto simp: timers_insert_def reg_ok_def)

lemma inv_parts:
  assumes "tim_inv w" "tw_reactor w = Some t"
  shows "reg_ok t (tw_wait w)" "ids_ok t w" "\<forall>i\<in>tw_live w. tw_inner w i \<noteq> None" "tw_now w \<le> instant_max"
  using assms by (auto simp: tim_inv_def)

lemma uncharged_unregistered:
  assumes "ids_ok t w" "tw_inner w i = Some n" "\<not> in_is_charged n"
  shows "t_by_id t i = None"
  using assms by (cases "t_by_id t i") (force simp: ids_ok_def)+

lemma remove_timer_ok:
  assumes "tw_reactor w = Some t" "reg_ok t (tw_wait w)"
  shows "\<exists>t'. remove_timer i w = Some (tw_wait w i, w\<lparr>tw_reactor := Some t'\<rparr>) \<and> reg_ok t' ((tw_wait w)(i := None)) \<and>
     t_by_id t' = (t_by_id t)(i := None) \<and> t_timer_id t' = t_timer_id t"
  using timers_remove_ok [OF assms(2), of i] assms(1) by (auto simp: remove_timer_def on_reactor_def)

lemma insert_timer_ok:
  assumes "tw_reactor w = Some t" "reg_ok t wait"
  shows "\<exists>t'. insert_timer i wh wk w = Some (w\<lparr>tw_reactor := Some t'\<rparr>) \<and> reg_ok t' (wait(i \<mapsto> wk)) \<and>
     t_by_id t' = (t_by_id t)(i \<mapsto> wh) \<and> t_timer_id t' = t_timer_id t"
  using timers_insert_ok [OF assms(2), of i wh wk] assms(1) by (auto simp: insert_timer_def on_reactor_def)

lemma reset_ok:
  assumes "tim_inv w" "tw_reactor w = Some t" "tw_inner w i = Some n" "tw_now w + dur \<le> instant_max"
  shows "\<exists>w'. inner_reset i dur w = Some w' \<and> tim_inv w'"
proof (cases "in_is_charged n")
  case False
  then have "t_by_id t i = None" using uncharged_unregistered [OF inv_parts(2) [OF assms(1,2)] assms(3)] by blast
  then have "tim_inv (w\<lparr>tw_inner := (tw_inner w)(i \<mapsto> n\<lparr>in_when := tw_now w + dur\<rparr>)\<rparr>)"
    using assms by (auto simp: tim_inv_def ids_ok_def)
  then show ?thesis using False assms(3,4) by (simp add: inner_reset_def instant_add_def)
next
  case charged: True
  obtain t' where t': "remove_timer i w = Some (tw_wait w i, w\<lparr>tw_reactor := Some t'\<rparr>)" "reg_ok t' ((tw_wait w)(i := None))"
      "t_by_id t' = (t_by_id t)(i := None)" "t_timer_id t' = t_timer_id t"
    using remove_timer_ok [OF assms(2) inv_parts(1) [OF assms(1,2)]] by blast
  let ?w2 = "w\<lparr>tw_reactor := Some t', tw_inner := (tw_inner w)(i \<mapsto> n\<lparr>in_when := tw_now w + dur\<rparr>)\<rparr>"
  show ?thesis
  proof (cases "tw_wait w i")
    case None
    then have "(tw_wait w)(i := None) = tw_wait w" by auto
    then have "tim_inv ?w2" using inv_parts [OF assms(1,2)] t' by (auto simp: tim_inv_def ids_ok_def)
    then show ?thesis using assms(3,4) t'(1) None charged by (simp add: inner_reset_def instant_add_def)
  next
    case (Some wk)
    then have "(tw_wait w)(i \<mapsto> wk) = tw_wait w" by auto
    then obtain t2 where t2: "insert_timer i (tw_now w + dur) wk ?w2 = Some (?w2\<lparr>tw_reactor := Some t2\<rparr>)" "reg_ok t2 (tw_wait w)"
        "t_by_id t2 = (t_by_id t')(i \<mapsto> tw_now w + dur)" "t_timer_id t2 = t_timer_id t'"
      using insert_timer_ok [OF _ t'(2), of ?w2 i "tw_now w + dur" wk] by auto
    have "i \<in> tw_live w" using inv_parts(1,2) [OF assms(1,2)] Some by (auto simp: reg_ok_def ids_ok_def)
    then have "tim_inv (?w2\<lparr>tw_reactor := Some t2\<rparr>)"
      using inv_parts [OF assms(1,2)] t' t2 charged by (auto simp: tim_inv_def ids_ok_def)
    then show ?thesis using assms(3,4) t'(1) t2(1) Some charged by (simp add: inner_reset_def instant_add_def)
  qed
qed

lemma drop_ok:
  assumes "tim_inv w" "i \<in> tw_live w"
  shows "\<exists>w'. timer_drop i w = Some w' \<and> tim_inv w'"
proof -
  obtain n where n: "tw_inner w i = Some n" using assms by (auto simp: tim_inv_def)
  show ?thesis
  proof (cases "tw_reactor w")
    case None
    then show ?thesis using assms n by (auto simp: timer_drop_def tim_inv_def)
  next
    case (Some t)
    let ?w0 = "w\<lparr>tw_live := tw_live w - {i}, tw_wait := (tw_wait w)(i := None)\<rparr>"
    note p = inv_parts [OF assms(1) Some]
    obtain x t' where t': "timers_remove i t = (x, t')" "reg_ok t' ((tw_wait w)(i := None))"
        "t_by_id t' = (t_by_id t)(i := None)" "t_timer_id t' = t_timer_id t"
      using timers_remove_ok [OF p(1), of i] by blast
    show ?thesis
    proof (cases "in_is_charged n")
      case True
      have "timer_drop i w = Some (?w0\<lparr>tw_reactor := Some t'\<rparr>)"
        using True Some n t'(1) by (simp add: timer_drop_def remove_timer_def on_reactor_def)
      then show ?thesis using p t' by (auto simp: tim_inv_def ids_ok_def)
    next
      case False
      then have b: "t_by_id t i = None" by (rule uncharged_unregistered [OF p(2) n])
      then have "(tw_wait w)(i := None) = tw_wait w" using reg_ok_unregistered [OF p(1)] by auto
      then show ?thesis using False Some n p b by (auto simp: timer_drop_def tim_inv_def ids_ok_def)
    qed
  qed
qed

lemma poll_ok:
  assumes "tim_inv w" "i \<in> tw_live w" "tw_reactor w = Some t" "tw_inner w i = Some n"
  shows "\<exists>r w'. timer_poll i wk w = Some (r, w') \<and> tim_inv w' \<and>
     (r = (if in_when n \<le> tw_now w then Ready (in_when n) else Pending))"
proof (cases "in_when n \<le> tw_now w")
  case True
  obtain t' where t': "remove_timer i w = Some (tw_wait w i, w\<lparr>tw_reactor := Some t'\<rparr>)" "reg_ok t' ((tw_wait w)(i := None))"
      "t_by_id t' = (t_by_id t)(i := None)" "t_timer_id t' = t_timer_id t"
    using remove_timer_ok [OF assms(3) inv_parts(1) [OF assms(1,3)]] by blast
  have "tim_inv (w\<lparr>tw_reactor := Some t', tw_wait := (tw_wait w)(i := None)\<rparr>)"
    using inv_parts [OF assms(1,3)] t' by (auto simp: tim_inv_def ids_ok_def)
  then show ?thesis using True assms(4) t'(1) by (simp add: timer_poll_def)
next
  case False
  obtain t' where t': "insert_timer i (in_when n) wk w = Some (w\<lparr>tw_reactor := Some t'\<rparr>)" "reg_ok t' ((tw_wait w)(i \<mapsto> wk))"
      "t_by_id t' = (t_by_id t)(i \<mapsto> in_when n)" "t_timer_id t' = t_timer_id t"
    using insert_timer_ok [OF assms(3) inv_parts(1) [OF assms(1,3)]] by blast
  have "tim_inv (w\<lparr>tw_reactor := Some t', tw_inner := (tw_inner w)(i \<mapsto> n\<lparr>in_is_charged := True\<rparr>),
      tw_wait := (tw_wait w)(i \<mapsto> wk)\<rparr>)"
    using inv_parts [OF assms(1,3)] t' assms(2) by (auto simp: tim_inv_def ids_ok_def)
  then show ?thesis using False assms(4) t'(1) by (simp add: timer_poll_def)
qed

lemma new_id_ok:
  assumes "tim_inv w" "tw_reactor w = Some t"
  shows "\<exists>w'. register_timer w = Some (t_timer_id t + 1, w') \<and> tim_inv w' \<and> tw_live w' = tw_live w \<and> tw_now w' = tw_now w \<and>
     tw_reactor w' = Some (t\<lparr>t_timer_id := t_timer_id t + 1\<rparr>)"
  using assms by (auto simp: register_timer_def on_reactor_def timers_new_id_def tim_inv_def ids_ok_def)

lemma from_id_ok:
  assumes "tim_inv w" "tw_reactor w = Some t" "1 \<le> i" "i \<le> t_timer_id t" "i \<notin> tw_live w" "tw_now w + dur \<le> instant_max"
  shows "\<exists>w'. timer_from_id i dur w = Some w' \<and> tim_inv w' \<and> i \<in> tw_live w'"
proof -
  have "t_by_id t i = None" using inv_parts(2) [OF assms(1,2)] assms(5) by (cases "t_by_id t i") (auto simp: ids_ok_def)
  then show ?thesis using assms by (auto simp: timer_from_id_def instant_add_def tim_inv_def ids_ok_def)
qed

lemma timer_new_ok:
  assumes "tim_inv w" "tw_reactor w = Some t" "tw_now w + dur \<le> instant_max"
  shows "\<exists>i w'. timer_new dur w = Some (i, w') \<and> tim_inv w' \<and> i \<in> tw_live w'"
proof -
  obtain w1 where w1: "register_timer w = Some (t_timer_id t + 1, w1)" "tim_inv w1" "tw_live w1 = tw_live w" "tw_now w1 = tw_now w"
      "tw_reactor w1 = Some (t\<lparr>t_timer_id := t_timer_id t + 1\<rparr>)"
    using new_id_ok [OF assms(1,2)] by blast
  have "t_timer_id t + 1 \<notin> tw_live w" using inv_parts(2) [OF assms(1,2)] by (auto simp: ids_ok_def)
  then show ?thesis using from_id_ok [OF w1(2,5), of "t_timer_id t + 1" dur] w1 assms(3) by (auto simp: timer_new_def)
qed

lemma do_in_ok:
  assumes "tim_inv w" "tw_reactor w = Some t" "tw_now w + dur \<le> instant_max"
  shows "\<exists>r w'. do_in_into q dur w = Some (r, w') \<and> tim_inv w'"
proof -
  obtain i w1 where "timer_new dur w = Some (i, w1)" "tim_inv w1" "i \<in> tw_live w1" using timer_new_ok [OF assms] by blast
  then show ?thesis using drop_ok [of w1 i] by (cases q) (auto simp: do_in_into_def)
qed

lemma destroy_ok:
  assumes "tim_inv w" "tw_reactor w = Some t"
  shows "\<exists>w'. action_destroy i w = Some w' \<and> tim_inv w'"
proof -
  obtain t' where t': "remove_timer i w = Some (tw_wait w i, w\<lparr>tw_reactor := Some t'\<rparr>)" "reg_ok t' ((tw_wait w)(i := None))"
      "t_by_id t' = (t_by_id t)(i := None)" "t_timer_id t' = t_timer_id t"
    using remove_timer_ok [OF assms(2) inv_parts(1) [OF assms]] by blast
  then show ?thesis using inv_parts [OF assms] by (auto simp: action_destroy_def tim_inv_def ids_ok_def)
qed

text \<open>The entries that are due, and the wait that stays.\<close>

lemma ready_ids:
  assumes "reg_ok t wait"
  shows "i \<in> snd ` fst ` set (filter (\<lambda>e. fst e < (now, 0)) (t_timers t)) \<longleftrightarrow> (\<exists>wh wk. t_by_id t i = Some wh \<and> wait i = Some wk \<and> wh < now)"
proof -
  have "((wh, i), wk) \<in> set (t_timers t) \<longleftrightarrow> t_by_id t i = Some wh \<and> wait i = Some wk" for wh wk
    using assms bt_mem [of "t_timers t" "(wh, i)" wk] by (auto simp: reg_ok_def)
  then show ?thesis by (force simp: image_iff less_prod_def')
qed

lemma ready_reg_ok:
  assumes "reg_ok t wait" "take_ready now t = (ready, t')"
  shows "reg_ok t' (\<lambda>i. if i \<in> snd ` fst ` set ready then None else wait i)"
proof -
  have m: "map_of (t_timers t') (wh, i) = (if (now, 0) \<le> (wh, i) then map_of (t_timers t) (wh, i) else None)" for wh i
    using assms(2) map_of_filter_key [of "\<lambda>k. (now, 0) \<le> k" "t_timers t" "(wh, i)"] by (auto simp: take_ready_def)
  have b: "t_by_id t' = t_by_id t" "bt_ok (t_timers t')" and "ready = filter (\<lambda>e. fst e < (now, 0)) (t_timers t)"
    using assms by (auto simp: take_ready_def reg_ok_def bt_ok_filter)
  moreover define R where "R = snd ` fst ` set ready"
  ultimately have "i \<in> R \<longleftrightarrow> (\<exists>wh wk. t_by_id t i = Some wh \<and> wait i = Some wk \<and> wh < now)" for i
    using ready_ids [OF assms(1), of i now] by simp
  then show ?thesis
    using assms(1) m b unfolding R_def [symmetric] reg_ok_def by (auto simp: less_eq_prod_def not_less)
qed

lemma process_ok:
  assumes "tim_inv w" "tw_reactor w = Some t"
  shows "\<exists>k w'. process_timers w = Some (k, w') \<and> tim_inv w'"
proof -
  obtain ready t' where r: "take_ready (tw_now w) t = (ready, t')" by fastforce
  then have "t_by_id t' = t_by_id t" "t_timer_id t' = t_timer_id t" by (auto simp: take_ready_def)
  then show ?thesis
    using ready_reg_ok [OF inv_parts(1) [OF assms] r] inv_parts [OF assms] r assms(2)
    by (auto simp: process_timers_def on_reactor_def tim_inv_def ids_ok_def)
qed

lemma delay_fits: "now \<le> instant_max \<Longrightarrow> wh \<le> instant_max \<Longrightarrow> now + delay_until wh now \<le> instant_max"
  by (simp add: delay_until_def)

lemma tim_overflow:
  assumes "instant_max < tw_now w + tim_asked op" "tw_now w \<le> instant_max" "tim_enabled op w"
  shows "tim_exec op w = None"
  using assms by (cases op) (auto simp: timer_new_def timer_from_id_def do_in_into_def timer_reset_def rearm_in_def inner_reset_def instant_add_def register_timer_def
    on_reactor_def timers_new_id_def split: option.splits bind_splits)

lemma tim_exec_inv:
  assumes "tim_inv w" "tim_enabled op w" "tw_now w + tim_asked op \<le> instant_max"
  shows "\<exists>w'. tim_exec op w = Some w' \<and> tim_inv w'"
proof (cases "tw_reactor w")
  case None
  then show ?thesis using assms drop_ok [OF assms(1)] by (cases op) (auto simp: tim_inv_def)
next
  case (Some t)
  note live = inv_parts(3) [OF assms(1) Some]
  have now: "tw_now w \<le> instant_max" using assms(1) by (simp add: tim_inv_def)
  show ?thesis
  proof (cases op)
    case (TimFromId i d)
    then show ?thesis using assms(2,3) Some from_id_ok [OF assms(1) Some, of i d] by auto
  next
    case (TimReset i d)
    then show ?thesis using assms(2,3) live reset_ok [OF assms(1) Some, of i _ d] by (auto simp: timer_reset_def)
  next
    case (TimDrop i)
    then show ?thesis using assms(2) drop_ok [OF assms(1)] by auto
  next
    case (TimPoll i wk)
    then obtain n where "tw_inner w i = Some n" "i \<in> tw_live w" using assms(2) live by auto
    then show ?thesis using poll_ok [OF assms(1) _ Some] TimPoll by fastforce
  next
    case (TimRearmAt i d)
    then show ?thesis using assms(2) now delay_fits [of "tw_now w" d] reset_ok [OF assms(1) Some, of i _ "delay_until d (tw_now w)"]
      by (auto simp: rearm_at_def rearm_in_def)
  next
    case (TimRearmIn i d)
    then show ?thesis using assms(2,3) reset_ok [OF assms(1) Some, of i _ d] by (auto simp: rearm_in_def)
  next
    case (TimDoAt q d)
    then show ?thesis using assms(2) now delay_fits [of "tw_now w" d] do_in_ok [OF assms(1) Some, of "delay_until d (tw_now w)" q]
      by (auto simp: do_at_into_def)
  next
    case (TimDoIn q d)
    then show ?thesis using assms(3) do_in_ok [OF assms(1) Some, of d q] by auto
  next
    case (TimTick d)
    then show ?thesis using assms(1,2) by (auto simp: tim_inv_def ids_ok_def split: option.splits)
  next
    case TimReactorGone
    then show ?thesis using assms(1) by (auto simp: tim_inv_def)
  next
    case TimProcess
    then show ?thesis using process_ok [OF assms(1) Some] by auto
  next
    case (TimNew d)
    then show ?thesis using assms(3) timer_new_ok [OF assms(1) Some, of d] by auto
  next
    case TimRegister
    then show ?thesis using new_id_ok [OF assms(1) Some] by auto
  next
    case (TimDestroy i)
    then show ?thesis using destroy_ok [OF assms(1) Some] by auto
  qed
qed

interpretation tmr: transition_inv "\<lambda>w. w = tim_start" tim_step tim_inv
proof unfold_locales
  show "tim_inv w" if "w = tim_start" for w
    using that by (simp add: tim_start_def tim_inv_def ids_ok_def reg_ok_def timers_new_def bt_ok_def)
  show "tim_inv w'" if inv: "tim_inv w" and st: "tim_step w w'" for w w'
  proof -
    obtain op where op: "tim_enabled op w" "tim_exec op w = Some w'" using st by (auto elim: tim_stepE)
    then have "tw_now w + tim_asked op \<le> instant_max" using tim_overflow [of w op] inv by (force simp: tim_inv_def not_less)
    then show ?thesis using tim_exec_inv [OF inv op(1)] op(2) by auto
  qed
qed


subsection \<open>Correctness of the timers\<close>

text \<open>The deadline of a timer that waits.\<close>

definition waits_until :: "tworld \<Rightarrow> nat \<Rightarrow> instant \<Rightarrow> waker \<Rightarrow> bool" where
  "waits_until w i wh wk \<longleftrightarrow> tw_wait w i = Some wk \<and> (\<exists>n. tw_inner w i = Some n \<and> in_when n = wh)"

lemma registered_iff:
  assumes "tim_inv w" "tw_reactor w = Some t"
  shows "((wh, i), wk) \<in> set (t_timers t) \<longleftrightarrow> waits_until w i wh wk"
proof -
  note p = inv_parts [OF assms]
  have "((wh, i), wk) \<in> set (t_timers t) \<longleftrightarrow> t_by_id t i = Some wh \<and> tw_wait w i = Some wk"
    using p(1) bt_mem [of "t_timers t" "(wh, i)" wk] by (auto simp: reg_ok_def)
  also have "\<dots> \<longleftrightarrow> waits_until w i wh wk"
    using p(1,2) by (fastforce simp: waits_until_def reg_ok_def ids_ok_def)
  finally show ?thesis .
qed

text \<open>
  Claim C18. In every reachable state with a reactor, an allowed call panics exactly when the duration that it adds to the clock leads to a point in time
  that an \<^verbatim>\<open>Instant\<close> cannot hold; the registry holds
  a waker under a deadline and an id exactly when the timer with that id was last polled with that waker,
  is due at that deadline and has not been woken; and it keeps no record of a dropped timer.
\<close>

theorem timer_registry_exact:
  assumes "reachable (\<lambda>w. w = tim_start) tim_step w" and "tw_reactor w = Some t"
  shows "(tim_enabled op w \<longrightarrow> (tim_exec op w = None \<longleftrightarrow> instant_max < tw_now w + tim_asked op)) \<and>
     (((wh, i), wk) \<in> set (t_timers t) \<longleftrightarrow> waits_until w i wh wk) \<and> (t_by_id t i \<noteq> None \<longrightarrow> i \<in> tw_live w)"
proof -
  have inv: "tim_inv w" by (rule tmr.reachable_inv [OF assms(1)])
  then have "tim_exec op w = None \<longleftrightarrow> instant_max < tw_now w + tim_asked op" if "tim_enabled op w"
    using tim_exec_inv [OF inv that] tim_overflow [OF _ _ that] by (force simp: tim_inv_def not_less)
  then show ?thesis using inv registered_iff [OF inv assms(2), of wh i wk] inv_parts(2) [OF inv assms(2)] by (auto simp: ids_ok_def)
qed

text \<open>
  Claim C32. Processing the timers wakes exactly the waiting timers whose deadline has passed, in the
  order of their deadlines, and a poll of one of them is then ready with its deadline.
\<close>

theorem timer_fires:
  assumes "reachable (\<lambda>w. w = tim_start) tim_step w" and "tw_reactor w = Some t" and "process_timers w = Some (k, w')"
  shows "\<exists>es. tw_wakes w' = tw_wakes w @ map snd es \<and> k = length es \<and> sorted_wrt (<) (map fst es) \<and>
     (\<forall>wh i wk. ((wh, i), wk) \<in> set es \<longleftrightarrow> waits_until w i wh wk \<and> wh < tw_now w) \<and>
     (\<forall>wh i wk v. ((wh, i), wk) \<in> set es \<longrightarrow> (\<exists>u. timer_poll i v w' = Some (Ready wh, u)))"
proof -
  have inv: "tim_inv w" by (rule tmr.reachable_inv [OF assms(1)])
  obtain es t' where es: "take_ready (tw_now w) t = (es, t')" by fastforce
  then have w': "k = length es" "tw_wakes w' = tw_wakes w @ map snd es" "tw_inner w' = tw_inner w" "tw_live w' = tw_live w"
      "tw_now w' = tw_now w" "tw_reactor w' = Some t'"
    using assms(2,3) by (auto simp: process_timers_def on_reactor_def)
  have inv': "tim_inv w'" using process_ok [OF inv assms(2)] assms(3) by auto
  have mem: "((wh, i), wk) \<in> set es \<longleftrightarrow> waits_until w i wh wk \<and> wh < tw_now w" for wh i wk
    using es registered_iff [OF inv assms(2), of wh i wk] by (auto simp: take_ready_def less_prod_def')
  have sort: "sorted_wrt (<) (map fst es)"
    using es inv_parts(1) [OF inv assms(2)] bt_ok_filter by (fastforce simp: take_ready_def reg_ok_def bt_ok_def)
  have "\<exists>u. timer_poll i v w' = Some (Ready wh, u)" if "((wh, i), wk) \<in> set es" for wh i wk v
  proof -
    have i: "waits_until w i wh wk" "wh < tw_now w" using mem that by auto
    then obtain n where n: "tw_inner w' i = Some n" "in_when n = wh" using w'(3) by (auto simp: waits_until_def)
    have "i \<in> tw_live w'" using i(1) inv_parts(1,2) [OF inv assms(2)] w'(4) by (auto simp: waits_until_def reg_ok_def ids_ok_def)
    then show ?thesis using poll_ok [OF inv' _ w'(6) n(1), of v] i(2) n(2) w'(5) by auto
  qed
  then show ?thesis using w' mem sort by blast
qed

text \<open>
  The delay that the reactor may sleep after processing timers is exact: there is none
  when no timer waits, and otherwise it ends at the earliest deadline of a waiting timer.
\<close>

lemma timer_sleep_exact:
  assumes "reachable (\<lambda>w. w = tim_start) tim_step w" and "tw_reactor w = Some t" and "process_timers w = Some (k, w')"
    and "tw_reactor w' = Some t'"
  shows "case next_timer (tw_now w') t' of
       None \<Rightarrow> \<forall>i. tw_wait w' i = None
     | Some d \<Rightarrow> (\<exists>i wk. waits_until w' i (tw_now w' + d) wk) \<and> (\<forall>i wh wk. waits_until w' i wh wk \<longrightarrow> tw_now w' + d \<le> wh)"
proof -
  have "tim_inv w" by (rule tmr.reachable_inv [OF assms(1)])
  then have inv': "tim_inv w'" using process_ok [OF _ assms(2)] assms(3) by auto
  note reg = registered_iff [OF inv' assms(4)]
  have t': "t_timers t' = filter (\<lambda>e. (tw_now w', 0) \<le> fst e) (t_timers t)"
    using assms(2-4) by (auto simp: process_timers_def on_reactor_def take_ready_def)
  show ?thesis
  proof (cases "t_timers t'")
    case Nil
    then have "\<not> waits_until w' i wh wk" for i wh wk using reg by simp
    then show ?thesis
      using Nil inv_parts(1,2) [OF inv' assms(4)] by (fastforce simp: next_timer_def waits_until_def reg_ok_def ids_ok_def)
  next
    case (Cons e es)
    obtain wh i wk where e: "e = ((wh, i), wk)" by (metis surj_pair)
    have "e \<in> set (t_timers t')" using Cons by simp
    then have "tw_now w' \<le> wh" using e unfolding t' by (auto simp: less_eq_prod_def)
    then have d: "next_timer (tw_now w') t' = Some (wh - tw_now w')" "tw_now w' + (wh - tw_now w') = wh"
      using Cons e by (auto simp: next_timer_def)
    have "wh \<le> wh'" if "waits_until w' j wh' v" for j wh' v
    proof -
      have "((wh', j), v) \<in> set (e # es)" using that reg Cons by simp
      moreover have "bt_ok (e # es)" using inv_parts(1) [OF inv' assms(4)] Cons by (simp add: reg_ok_def)
      ultimately show ?thesis using e by (force simp: bt_ok_def less_prod_def')
    qed
    moreover have "waits_until w' i wh wk" using reg [of wh i wk] Cons e by simp
    ultimately show ?thesis using d by auto
  qed
qed

subsection \<open>Runs\<close>

fun tim_run :: "timop list \<Rightarrow> tworld \<Rightarrow> tworld option" where
  "tim_run [] w = Some w"
| "tim_run (op # ops) w = (if tim_enabled op w then Option.bind (tim_exec op w) (tim_run ops) else None)"

lemma tim_run_reachable:
  "tim_run ops w = Some u \<Longrightarrow> reachable (\<lambda>w. w = tim_start) tim_step w \<Longrightarrow> reachable (\<lambda>w. w = tim_start) tim_step u"
proof (induction ops arbitrary: w)
  case (Cons op ops)
  then obtain v where "tim_enabled op w" "tim_exec op w = Some v" "tim_run ops v = Some u"
    by (auto split: if_splits bind_splits)
  with Cons show ?case by (meson reachable_step tim_step.intros)
qed simp

lemmas timer_eval = tim_start_def timers_new_def timer_new_def register_timer_def on_reactor_def timers_new_id_def timer_from_id_def instant_add_def instant_max_def
  timer_poll_def insert_timer_def timers_insert_def remove_timer_def timers_remove_def process_timers_def take_ready_def
  inner_reset_def timer_reset_def bt_remove_def next_timer_def waits_until_def

text \<open>Two timers, the second due first, then a reset of the first.\<close>

definition timer_scene :: "timop list" where
  "timer_scene = [TimNew 30, TimNew 20, TimPoll 1 7, TimPoll 2 8, TimReset 1 40, TimTick 25]"

lemma timer_scene_run:
  "\<exists>w t. tim_run timer_scene tim_start = Some w \<and> tw_reactor w = Some t \<and> reachable (\<lambda>w. w = tim_start) tim_step w \<and>
     t_timers t = [((20, 2), 8), ((40, 1), 7)] \<and> tw_now w = 25 \<and> tw_wakes w = [] \<and> t_by_id t 2 = Some 20"
proof -
  obtain w where w: "tim_run timer_scene tim_start = Some w" "tw_now w = 25" "tw_wakes w = []"
      "\<exists>t. tw_reactor w = Some t \<and> t_timers t = [((20, 2), 8), ((40, 1), 7)] \<and> t_by_id t 2 = Some 20"
    by (simp add: timer_scene_def timer_eval less_prod_def')
  then show ?thesis using tim_run_reachable [OF w(1)] by blast
qed

theorem timer_registry_exact_witness:
  "\<exists>w. tim_run timer_scene tim_start = Some w \<and> tim_exec (TimDrop 1) w \<noteq> None \<and> tim_exec (TimNew (2 ^ 94)) w = None \<and> waits_until w 2 20 8 \<and> 2 \<in> tw_live w"
proof -
  obtain w t where w: "tim_run timer_scene tim_start = Some w" "tw_reactor w = Some t" "reachable (\<lambda>w. w = tim_start) tim_step w"
      "t_timers t = [((20, 2), 8), ((40, 1), 7)]" "t_by_id t 2 = Some 20"
    using timer_scene_run by blast
  have "1 \<in> tw_live w" "tw_now w = 25" using w(1) by (auto simp: timer_scene_def timer_eval)
  then have "tim_exec (TimDrop 1) w \<noteq> None" "tim_exec (TimNew (2 ^ 94)) w = None" "waits_until w 2 20 8" "2 \<in> tw_live w"
    using timer_registry_exact [OF w(3,2), of "TimDrop 1" 20 2 8] timer_registry_exact [OF w(3,2), of "TimNew (2 ^ 94)" 20 2 8] w(2,4,5)
    by (auto simp del: tim_exec.simps simp: instant_max_def)
  then show ?thesis using w(1) by blast
qed

theorem timer_fires_witness:
  "\<exists>w w' (es :: ((instant \<times> nat) \<times> waker) list). tim_run timer_scene tim_start = Some w \<and> process_timers w = Some (1, w') \<and> tw_wakes w' = [8] \<and>
     ((20, 2), 8) \<in> set es \<and> (\<forall>wh i wk v. ((wh, i), wk) \<in> set es \<longrightarrow> (\<exists>u. timer_poll i v w' = Some (Ready wh, u)))"
proof -
  obtain w t where w: "tim_run timer_scene tim_start = Some w" "tw_reactor w = Some t" "reachable (\<lambda>w. w = tim_start) tim_step w"
      "t_timers t = [((20, 2), 8), ((40, 1), 7)]" "tw_now w = 25" "tw_wakes w = []"
    using timer_scene_run by blast
  then obtain w' where w': "process_timers w = Some (1, w')" "tw_wakes w' = [8]"
    by (simp add: process_timers_def on_reactor_def take_ready_def less_prod_def')
  have "waits_until w 2 20 8" using registered_iff [OF tmr.reachable_inv [OF w(3)] w(2), of 20 2 8] w(4) by simp
  then have "waits_until w 2 20 8 \<and> 20 < tw_now w" using w(5) by simp
  then obtain es :: "((instant \<times> nat) \<times> waker) list" where "((20, 2), 8) \<in> set es" "\<forall>wh i wk v. ((wh, i), wk) \<in> set es \<longrightarrow> (\<exists>u. timer_poll i v w' = Some (Ready wh, u))"
    using timer_fires [OF w(3,2) w'(1)] by blast
  then show ?thesis using w(1) w' by blast
qed

end
