(* ===== verification/PqTree.thy ===== *)
theory PqTree
  imports Prelude
begin

section \<open>Trees of priority queues (glommio/src/executor/placement/pq\_tree.rs)\<close>

text \<open>
  The tree from which executors are placed on CPUs. A node keeps how many CPUs it covers, how
  often one of them was selected, and its children in a \<^verbatim>\<open>BinaryHeap\<close> ordered by one of two
  priorities. The heap is the list of its items; its documented behaviour is that \<^verbatim>\<open>peek_mut\<close>
  gives a greatest item, and which of several greatest ones is not specified. So the selection of a
  CPU is a relation, \<open>selects\<close>, and \<open>select_cpu\<close> is one execution of it. Identifiers and counts
  are natural numbers: they count CPUs and executors and stay far below the width of \<^verbatim>\<open>usize\<close>.
\<close>

datatype level = SystemRoot | Cpu nat | Core nat | CacheDomain nat | Package nat | NumaNode nat

datatype node = Node (n_level: level) (nr_slots: nat) (nr_slots_selected: nat) (n_children: "node list")

datatype ordering = Less | Equal | Greater

fun ord_reverse :: "ordering \<Rightarrow> ordering" where
  "ord_reverse Less = Greater"
| "ord_reverse Equal = Equal"
| "ord_reverse Greater = Less"

definition cmp_nat :: "nat \<Rightarrow> nat \<Rightarrow> ordering" where
  "cmp_nat a b = (if a < b then Less else if a = b then Equal else Greater)"

definition node_new :: "level \<Rightarrow> node" where
  "node_new l = Node l 1 0 []"

fun push_child :: "node \<Rightarrow> node \<Rightarrow> node" where
  "push_child (Node l s k cs) c = Node l ((if cs = [] then 0 else s) + nr_slots c) k (cs @ [c])"

definition slot_saturation :: "node \<Rightarrow> nat \<times> nat" where
  "slot_saturation n = (nr_slots_selected n, nr_slots n)"

definition cmp_saturation :: "nat \<times> nat \<Rightarrow> nat \<times> nat \<Rightarrow> ordering" where
  "cmp_saturation lhs rhs = cmp_nat (fst lhs * snd rhs) (fst rhs * snd lhs)"

definition priority_spread :: "node \<Rightarrow> node \<Rightarrow> ordering" where
  "priority_spread a b = ord_reverse (cmp_saturation (slot_saturation a) (slot_saturation b))"

definition priority_pack :: "node \<Rightarrow> node \<Rightarrow> ordering" where
  "priority_pack a b =
     (if \<not> nr_slots a dvd nr_slots_selected a then Greater
      else if \<not> nr_slots b dvd nr_slots_selected b then Less
      else case cmp_nat (nr_slots_selected a div nr_slots a) (nr_slots_selected b div nr_slots b) of
             Equal \<Rightarrow> cmp_nat (nr_slots a) (nr_slots b)
           | ord \<Rightarrow> ord_reverse ord)"

type_synonym priority = "node \<Rightarrow> node \<Rightarrow> ordering"

text \<open>A greatest child.\<close>

definition greatest :: "priority \<Rightarrow> node list \<Rightarrow> nat \<Rightarrow> bool" where
  "greatest pr cs i \<longleftrightarrow> i < length cs \<and> (\<forall>j<length cs. j \<noteq> i \<longrightarrow> pr (cs ! j) (cs ! i) \<noteq> Greater)"

text \<open>
  \<^verbatim>\<open>select_cpu_recur\<close>: the node and one of its greatest children, down to a leaf, count a selection;
  the path collects the levels.
\<close>

inductive selects :: "priority \<Rightarrow> node \<Rightarrow> level list \<Rightarrow> node \<Rightarrow> bool" for pr where
  sel_leaf: "selects pr (Node l s k []) [l] (Node l s (k + 1) [])"
| sel_child: "greatest pr cs i \<Longrightarrow> selects pr (cs ! i) p c \<Longrightarrow>
    selects pr (Node l s k cs) (l # p) (Node l s (k + 1) (cs[i := c]))"

inductive_cases selectsE: "selects pr (Node l s k cs) p n"

inductive selects_list :: "priority \<Rightarrow> node \<Rightarrow> level list list \<Rightarrow> node \<Rightarrow> bool" for pr where
  sel_Nil: "selects_list pr n [] n"
| sel_Cons: "selects pr n p n1 \<Longrightarrow> selects_list pr n1 ps n2 \<Longrightarrow> selects_list pr n (p # ps) n2"

text \<open>One execution: the first of the greatest children.\<close>

definition first_greatest :: "priority \<Rightarrow> node list \<Rightarrow> nat" where
  "first_greatest pr cs =
     (case filter (\<lambda>i. \<forall>j\<in>set [0..<length cs]. j \<noteq> i \<longrightarrow> pr (cs ! j) (cs ! i) \<noteq> Greater) [0..<length cs] of
        i # _ \<Rightarrow> i | [] \<Rightarrow> 0)"

function select_cpu :: "priority \<Rightarrow> node \<Rightarrow> level list \<times> node" where
  "select_cpu pr (Node l s k []) = ([l], Node l s (k + 1) [])"
| "select_cpu pr (Node l s k (c # cs)) =
     (let i = first_greatest pr (c # cs)
      in if i < length (c # cs) then
           (case select_cpu pr ((c # cs) ! i) of (p, c') \<Rightarrow> (l # p, Node l s (k + 1) ((c # cs)[i := c'])))
         else ([l], Node l s (k + 1) (c # cs)))"
  by pat_completeness auto
termination
proof (relation "measure (size \<circ> snd)", goal_cases)
  case (2 pr l s k c cs i)
  then have "(c # cs) ! i \<in> set (c # cs)" using nth_mem by blast
  then have "size ((c # cs) ! i) \<le> size_list size (c # cs)" by (rule size_list_estimation') simp
  then show ?case by simp
qed simp

fun select_many :: "priority \<Rightarrow> nat \<Rightarrow> node \<Rightarrow> level list list \<times> node" where
  "select_many pr 0 n = ([], n)"
| "select_many pr (Suc m) n = (case select_cpu pr n of (p, n1) \<Rightarrow> case select_many pr m n1 of (ps, n2) \<Rightarrow> (p # ps, n2))"

subsection \<open>Well-formed trees\<close>

fun tree_ok :: "node \<Rightarrow> bool" where
  "tree_ok (Node l s k cs) \<longleftrightarrow>
     (if cs = [] then s = 1 else s = sum_list (map nr_slots cs) \<and> k = sum_list (map nr_slots_selected cs) \<and>
        list_all tree_ok cs)"

text \<open>The paths to the leaves, and how often the leaf at a path was selected.\<close>

fun paths :: "node \<Rightarrow> level list list" where
  "paths (Node l s k cs) = (if cs = [] then [[l]] else concat (map (\<lambda>c. map ((#) l) (paths c)) cs))"

fun hits :: "node \<Rightarrow> level list \<Rightarrow> nat" where
  "hits (Node l s k cs) q =
     (if cs = [] then (if q = [l] then k else 0)
      else if q \<noteq> [] \<and> hd q = l then sum_list (map (\<lambda>c. hits c (tl q)) cs) else 0)"

fun fresh :: "node \<Rightarrow> bool" where
  "fresh (Node l s k cs) \<longleftrightarrow> k = 0 \<and> list_all fresh cs"

text \<open>In round \<open>r\<close> every leaf has been selected \<open>r\<close> times, some once more.\<close>

fun in_round :: "nat \<Rightarrow> node \<Rightarrow> bool" where
  "in_round r (Node l s k cs) \<longleftrightarrow> r * s \<le> k \<and> k \<le> (r + 1) * s \<and> list_all (in_round r) cs"

text \<open>At most one child of a node is partly selected, which is what the packing order relies on.\<close>

definition partly :: "node \<Rightarrow> bool" where
  "partly n \<longleftrightarrow> \<not> nr_slots n dvd nr_slots_selected n"

fun one_partly :: "node \<Rightarrow> bool" where
  "one_partly (Node l s k cs) \<longleftrightarrow>
     (\<forall>i<length cs. \<forall>j<length cs. partly (cs ! i) \<longrightarrow> partly (cs ! j) \<longrightarrow> i = j) \<and> list_all one_partly cs"

lemma slots_pos: "tree_ok n \<Longrightarrow> 0 < nr_slots n"
proof (induction n)
  case (Node l s k cs)
  show ?case
  proof (cases cs)
    case (Cons c ds)
    then have "0 < nr_slots c" using Node by simp
    then show ?thesis using Node Cons by simp
  qed (use Node in simp)
qed

lemma sum_nth_upd: "i < length xs \<Longrightarrow> sum_list (map f (xs[i := x])) + f (xs ! i) = sum_list (map f xs) + (f x :: nat)"
proof (induction xs arbitrary: i)
  case (Cons y xs)
  then show ?case by (cases i) auto
qed simp

lemma list_all_upd: "list_all P xs \<Longrightarrow> P x \<Longrightarrow> list_all P (xs[i := x])"
  by (auto simp: list_all_iff dest: set_update_subset_insert [THEN subsetD])

text \<open>A selection counts one at the node and keeps the tree well-formed.\<close>

lemma selects_ok:
  assumes "selects pr n p n'" "tree_ok n"
  shows "tree_ok n' \<and> nr_slots n' = nr_slots n \<and> nr_slots_selected n' = nr_slots_selected n + 1"
  using assms
proof (induction rule: selects.induct)
  case (sel_child cs i p c l s k)
  then have i: "i < length cs" by (simp add: greatest_def)
  then have "cs \<noteq> []" by auto
  then have ok: "tree_ok (cs ! i)" "cs \<noteq> []" using sel_child.prems i by (auto simp: list_all_length)
  have "list_all tree_ok (cs[i := c])" using sel_child.prems sel_child.IH ok i by (auto intro!: list_all_upd)
  then show ?case
    using sel_child.prems sel_child.IH ok sum_nth_upd [OF i, of nr_slots c] sum_nth_upd [OF i, of nr_slots_selected c] by simp
qed simp


subsection \<open>Paths and hits\<close>

lemma paths_nonempty: "[] \<notin> set (paths n)"
  by (cases n) auto

lemma length_paths: "tree_ok n \<Longrightarrow> length (paths n) = nr_slots n"
proof (induction n)
  case (Node l s k cs)
  have "map (length \<circ> (\<lambda>c. map ((#) l) (paths c))) cs = map nr_slots cs" if "list_all tree_ok cs"
    unfolding map_eq_conv using that Node.IH by (auto simp: list_all_iff)
  then show ?case using Node.prems by (cases "cs = []") (simp_all only: paths.simps length_concat map_map tree_ok.simps if_True if_False, simp_all)
qed

lemma hits_outside: "q \<notin> set (paths n) \<Longrightarrow> hits n q = 0"
proof (induction n arbitrary: q)
  case (Node l s k cs)
  have "hits c (tl q) = 0" if "c \<in> set cs" "q \<noteq> []" "hd q = l" for c
  proof (rule Node.IH [OF that(1)])
    show "tl q \<notin> set (paths c)"
    proof
      assume "tl q \<in> set (paths c)"
      then have "l # tl q \<in> set (paths (Node l s k cs))" using that(1) by auto
      then show False using Node.prems that(2,3) by auto
    qed
  qed
  then show ?case using Node.prems by (auto simp: sum_list_eq_0_iff)
qed

lemma hits_fresh: "fresh n \<Longrightarrow> hits n q = 0"
proof (induction n arbitrary: q)
  case (Node l s k cs)
  then show ?case by (auto simp: sum_list_eq_0_iff list_all_iff)
qed

lemma selects_paths:
  assumes "selects pr n p n'"
  shows "paths n' = paths n \<and> p \<in> set (paths n) \<and> hits n' q = hits n q + of_bool (q = p)"
  using assms
proof (induction arbitrary: q rule: selects.induct)
  case (sel_child cs i p c l s k)
  have i: "i < length cs" "cs \<noteq> []" using sel_child.hyps(1) by (auto simp: greatest_def)
  have "map (\<lambda>c. map ((#) l) (paths c)) (cs[i := c]) = map (\<lambda>c. map ((#) l) (paths c)) cs"
    using sel_child.IH i by (simp add: map_update list_update_same_conv)
  then have pth: "paths (Node l s (k + 1) (cs[i := c])) = paths (Node l s k cs)" using i by simp
  have "l # p \<in> set (paths (Node l s k cs))" using sel_child.IH i by (auto intro!: bexI [OF _ nth_mem [OF i(1)]])
  moreover have "sum_list (map (\<lambda>c. hits c (tl q)) (cs[i := c])) = sum_list (map (\<lambda>c. hits c (tl q)) cs) + of_bool (tl q = p)"
    using sum_nth_upd [OF i(1), of "\<lambda>c. hits c (tl q)" c] sel_child.IH [of "tl q"] by simp
  ultimately show ?case using pth i by (cases q) auto
qed simp

lemma selects_list_paths:
  assumes "selects_list pr n ps n'"
  shows "paths n' = paths n \<and> set ps \<subseteq> set (paths n) \<and> hits n' q = hits n q + count_list ps q"
  using assms
proof (induction rule: selects_list.induct)
  case (sel_Cons n p n1 ps n2)
  then show ?case using selects_paths [OF sel_Cons.hyps(1), of q] by auto
qed simp

text \<open>When the paths are distinct a path belongs to one child only.\<close>

lemma hits_child:
  assumes "distinct (concat (map f cs))" "c \<in> set cs" "x \<in> set (f c)" "\<And>d. d \<in> set cs \<Longrightarrow> x \<notin> set (f d) \<Longrightarrow> g d = (0::nat)"
  shows "sum_list (map g cs) = g c"
  using assms
proof (induction cs)
  case (Cons d ds)
  show ?case
  proof (cases "x \<in> set (f d)")
    case True
    have "g e = 0" if "e \<in> set ds" for e using Cons.prems True that by (intro Cons.prems(4)) auto
    then have "sum_list (map g ds) = 0" by (auto simp: sum_list_eq_0_iff)
    moreover have "c = d" using Cons.prems True by auto
    ultimately show ?thesis by simp
  next
    case False
    then show ?thesis using Cons by (auto simp: Cons.prems(4))
  qed
qed simp

lemma distinct_child: "distinct (paths (Node l s k cs)) \<Longrightarrow> c \<in> set cs \<Longrightarrow> distinct (paths c)"
  by (cases "cs = []") (auto simp: distinct_concat_iff distinct_map dest!: split_list)

lemma hits_bounds:
  assumes "tree_ok n" "in_round r n" "distinct (paths n)" "q \<in> set (paths n)"
  shows "r \<le> hits n q \<and> hits n q \<le> r + 1"
  using assms
proof (induction n arbitrary: q)
  case (Node l s k cs)
  show ?case
  proof (cases "cs = []")
    case True
    then show ?thesis using Node.prems by simp
  next
    case False
    then obtain c q' where c: "c \<in> set cs" "q = l # q'" "q' \<in> set (paths c)" using Node.prems(4) by auto
    have "distinct (concat (map (\<lambda>c. map ((#) l) (paths c)) cs))" using Node.prems(3) False by simp
    then have "sum_list (map (\<lambda>c. hits c q') cs) = hits c q'"
      using c by (intro hits_child [where f = "\<lambda>c. map ((#) l) (paths c)" and x = "l # q'"]) (auto intro: hits_outside)
    moreover have "r \<le> hits c q' \<and> hits c q' \<le> r + 1"
      using Node.IH [OF c(1) _ _ distinct_child [OF Node.prems(3) c(1)] c(3)] Node.prems(1,2) c(1) False
      by (auto simp: list_all_iff)
    ultimately show ?thesis using False c(2) by simp
  qed
qed

lemma fresh_round: "fresh n \<Longrightarrow> in_round 0 n \<and> nr_slots_selected n = 0"
proof (induction n)
  case (Node l s k cs)
  then show ?case by (auto simp: list_all_iff)
qed

text \<open>A node without room in a round has finished it, and so has every node below.\<close>

lemma sum_list_all_le:
  assumes "\<And>x. x \<in> set xs \<Longrightarrow> g x \<le> c * (f x :: nat)"
  shows "sum_list (map g xs) \<le> c * sum_list (map f xs)"
  using assms by (induction xs) (auto simp: add_mult_distrib2 intro!: add_mono)

lemma sum_list_tight:
  assumes "\<And>x. x \<in> set xs \<Longrightarrow> g x \<le> c * (f x :: nat)" "sum_list (map g xs) = c * sum_list (map f xs)" "x \<in> set xs"
  shows "g x = c * f x"
  using assms
proof (induction xs)
  case (Cons y ys)
  have "sum_list (map g ys) \<le> c * sum_list (map f ys)" using Cons.prems(1) by (intro sum_list_all_le) simp
  with Cons.prems(1) [of y] Cons.prems(2) have "g y = c * f y" "sum_list (map g ys) = c * sum_list (map f ys)"
    by (auto simp: add_mult_distrib2)
  then show ?case using Cons by auto
qed simp

lemma next_round:
  assumes "tree_ok n" "in_round r n" "nr_slots_selected n = (r + 1) * nr_slots n"
  shows "in_round (r + 1) n"
  using assms
proof (induction n)
  case (Node l s k cs)
  have "in_round (r + 1) c" if c: "c \<in> set cs" for c
  proof -
    have "cs \<noteq> []" using c by auto
    then have "tree_ok c" "in_round r c" "sum_list (map nr_slots_selected cs) = (r + 1) * sum_list (map nr_slots cs)"
      using Node.prems c by (auto simp: list_all_iff)
    moreover have "nr_slots_selected d \<le> (r + 1) * nr_slots d" if "d \<in> set cs" for d
      using Node.prems(2) that by (cases d) (auto simp: list_all_iff)
    ultimately show ?thesis using Node.IH [OF c] sum_list_tight [OF _ _ c, of nr_slots_selected "r + 1" nr_slots] by blast
  qed
  then show ?case using Node.prems by (auto simp: list_all_iff)
qed

subsection \<open>Fairness\<close>

text \<open>
  A priority is fair when a greatest child of a node that still has room in round \<open>r\<close> has room in
  that round itself, and when there is a greatest child at all; \<open>I\<close> is what the priority relies on.
\<close>

definition room :: "nat \<Rightarrow> node \<Rightarrow> bool" where
  "room r n \<longleftrightarrow> nr_slots_selected n < (r + 1) * nr_slots n"

lemma sum_list_all_ge:
  assumes "\<And>x. x \<in> set xs \<Longrightarrow> c * f x \<le> (g x :: nat)"
  shows "c * sum_list (map f xs) \<le> sum_list (map g xs)"
  using assms by (induction xs) (auto simp: add_mult_distrib2 intro!: add_mono)

lemma room_child:
  assumes "tree_ok (Node l s k cs)" "cs \<noteq> []" "room r (Node l s k cs)"
  shows "\<exists>d\<in>set cs. room r d"
proof (rule ccontr)
  assume "\<not> ?thesis"
  then have "(r + 1) * nr_slots d \<le> nr_slots_selected d" if "d \<in> set cs" for d using that by (auto simp: room_def)
  then have "(r + 1) * sum_list (map nr_slots cs) \<le> sum_list (map nr_slots_selected cs)" by (rule sum_list_all_ge)
  then show False using assms by (simp add: room_def)
qed

lemma first_greatest_ok:
  assumes "greatest pr cs i"
  shows "greatest pr cs (first_greatest pr cs)"
proof -
  define f where "f = filter (\<lambda>i. \<forall>j\<in>set [0..<length cs]. j \<noteq> i \<longrightarrow> pr (cs ! j) (cs ! i) \<noteq> Greater) [0..<length cs]"
  have mem: "m \<in> set f \<longleftrightarrow> greatest pr cs m" for m unfolding f_def set_filter by (auto simp: greatest_def)
  have "i \<in> set f" using assms mem by blast
  then obtain m ms where m: "f = m # ms" by (cases f) auto
  then have "first_greatest pr cs = m" unfolding first_greatest_def f_def [symmetric] by simp
  then show ?thesis using mem [of m] m by simp
qed

locale fair_priority =
  fixes pr :: priority and I :: "node \<Rightarrow> bool"
  assumes greatest_exists: "I (Node l s k cs) \<Longrightarrow> cs \<noteq> [] \<Longrightarrow> list_all tree_ok cs \<Longrightarrow> \<exists>i. greatest pr cs i"
    and greatest_room: "list_all tree_ok cs \<Longrightarrow> list_all (in_round r) cs \<Longrightarrow> greatest pr cs i \<Longrightarrow> d \<in> set cs \<Longrightarrow> room r d \<Longrightarrow>
      room r (cs ! i)"
    and I_child: "I (Node l s k cs) \<Longrightarrow> c \<in> set cs \<Longrightarrow> I c"
    and I_select: "I (Node l s k cs) \<Longrightarrow> greatest pr cs i \<Longrightarrow> tree_ok (cs ! i) \<Longrightarrow> I c \<Longrightarrow> nr_slots c = nr_slots (cs ! i) \<Longrightarrow>
      nr_slots_selected c = nr_slots_selected (cs ! i) + 1 \<Longrightarrow> I (Node l s k' (cs[i := c]))"
    and I_leaf: "I (Node l s k []) \<Longrightarrow> I (Node l s k' [])"
begin

lemma selects_exists:
  assumes "tree_ok n" "I n"
  shows "\<exists>p n'. selects pr n p n'"
  using assms
proof (induction n)
  case (Node l s k cs)
  show ?case
  proof (cases "cs = []")
    case True
    then show ?thesis using sel_leaf by blast
  next
    case False
    then have ok: "list_all tree_ok cs" using Node.prems by simp
    obtain i where g: "greatest pr cs i" using greatest_exists Node.prems(2) False ok by blast
    then have i: "cs ! i \<in> set cs" by (simp add: greatest_def)
    then obtain p c where "selects pr (cs ! i) p c"
      using Node.IH [OF i] ok I_child [OF Node.prems(2) i] by (auto simp: list_all_iff)
    then show ?thesis using sel_child [OF g] by blast
  qed
qed

lemma selects_I:
  assumes "selects pr n p n'" "tree_ok n" "I n"
  shows "I n'"
  using assms
proof (induction rule: selects.induct)
  case (sel_leaf l s k)
  then show ?case using I_leaf by blast
next
  case (sel_child cs i p c l s k)
  have i: "cs ! i \<in> set cs" "cs \<noteq> []" using sel_child.hyps(1) by (auto simp: greatest_def)
  then have ok: "tree_ok (cs ! i)" "I (cs ! i)"
    using sel_child.prems I_child by (auto simp: list_all_iff)
  then show ?case
    using I_select [OF sel_child.prems(2) sel_child.hyps(1) ok(1) sel_child.IH [OF ok]] selects_ok [OF sel_child.hyps(2) ok(1)]
    by blast
qed

lemma selects_round:
  assumes "selects pr n p n'" "tree_ok n" "I n" "in_round r n" "room r n"
  shows "in_round r n'"
  using assms
proof (induction rule: selects.induct)
  case (sel_leaf l s k)
  then show ?case by (simp add: room_def)
next
  case (sel_child cs i p c l s k)
  have i: "cs ! i \<in> set cs" "cs \<noteq> []" using sel_child.hyps(1) by (auto simp: greatest_def)
  have ok: "list_all tree_ok cs" "list_all (in_round r) cs" using sel_child.prems i(2) by auto
  obtain d where "d \<in> set cs" "room r d" using room_child sel_child.prems(1,4) i(2) by blast
  then have "room r (cs ! i)" using greatest_room ok sel_child.hyps(1) by blast
  then have "in_round r c"
    using sel_child.IH ok i I_child [OF sel_child.prems(2)] by (auto simp: list_all_iff)
  then show ?case using sel_child.prems ok(2) by (auto simp: room_def intro!: list_all_upd)
qed

lemma selects_list_round:
  assumes "selects_list pr n ps n'" "tree_ok n" "I n" "in_round r n"
  shows "tree_ok n' \<and> nr_slots n' = nr_slots n \<and> nr_slots_selected n' = nr_slots_selected n + length ps \<and> (\<exists>r'. in_round r' n')"
  using assms
proof (induction arbitrary: r rule: selects_list.induct)
  case (sel_Cons n p n1 ps n2)
  have "nr_slots_selected n \<le> (r + 1) * nr_slots n" using sel_Cons.prems(3) by (cases n) simp
  then obtain r1 where "in_round r1 n" "room r1 n"
    using sel_Cons.prems next_round [OF sel_Cons.prems(1,3)] slots_pos [OF sel_Cons.prems(1)]
    by (cases "nr_slots_selected n = (r + 1) * nr_slots n") (auto simp: room_def)
  then have "in_round r1 n1" using selects_round [OF sel_Cons.hyps(1)] sel_Cons.prems by blast
  moreover have "I n1" using selects_I [OF sel_Cons.hyps(1)] sel_Cons.prems by blast
  ultimately show ?case using sel_Cons.IH [of r1] selects_ok [OF sel_Cons.hyps(1) sel_Cons.prems(1)] by auto
qed auto

text \<open>Selections spread over the leaves: no leaf is ever ahead of another by more than one.\<close>

lemma fair:
  assumes "selects_list pr n ps n'" "tree_ok n" "I n" "fresh n" "distinct (paths n)" "q \<in> set (paths n)"
  shows "length ps div nr_slots n \<le> count_list ps q \<and> count_list ps q \<le> length ps div nr_slots n + 1"
proof -
  have f: "in_round 0 n" "nr_slots_selected n = 0" using fresh_round [OF assms(4)] by auto
  obtain r where r: "tree_ok n'" "nr_slots n' = nr_slots n" "nr_slots_selected n' = length ps" "in_round r n'"
    using selects_list_round [OF assms(1-3) f(1)] f(2) by auto
  have b: "r * nr_slots n \<le> length ps" "length ps \<le> (r + 1) * nr_slots n"
    using r by (cases n'; simp)+
  have "in_round (length ps div nr_slots n) n'"
  proof (cases "length ps = (r + 1) * nr_slots n")
    case True
    then show ?thesis using next_round [OF r(1,4)] r(2,3) slots_pos [OF assms(2)] by simp
  next
    case False
    then have "length ps div nr_slots n = r" using b by (intro div_nat_eqI) (auto simp: algebra_simps)
    then show ?thesis using r(4) by simp
  qed
  moreover have "paths n' = paths n" "hits n' q = count_list ps q"
    using selects_list_paths [OF assms(1), of q] hits_fresh [OF assms(4)] by auto
  ultimately show ?thesis using hits_bounds [OF r(1)] assms(5,6) by metis
qed

lemma once_each:
  assumes "selects_list pr n ps n'" "tree_ok n" "I n" "fresh n" "distinct (paths n)" "length ps = nr_slots n"
  shows "distinct ps \<and> set ps = set (paths n)"
proof -
  have "1 \<le> count_list ps q" if "q \<in> set (paths n)" for q
    using fair [OF assms(1-5) that] assms(6) slots_pos [OF assms(2)] by simp
  then have "set (paths n) \<subseteq> set ps" by (metis count_list_0_iff not_one_le_zero subsetI)
  moreover have "set ps \<subseteq> set (paths n)" using selects_list_paths [OF assms(1)] by blast
  moreover have "length (paths n) = length ps" using length_paths [OF assms(2)] assms(6) by simp
  ultimately show ?thesis using assms(5) by (metis card_distinct distinct_card subset_antisym)
qed

text \<open>The execution follows the relation.\<close>

lemma select_cpu_selects:
  assumes "tree_ok n" "I n" "select_cpu pr n = (p, n')"
  shows "selects pr n p n'"
  using assms
proof (induction n arbitrary: p n')
  case (Node l s k ds)
  show ?case
  proof (cases ds)
    case Nil
    then show ?thesis using Node.prems(3) sel_leaf by auto
  next
    case (Cons c cs)
    have ok: "list_all tree_ok ds" using Node.prems(1) Cons by simp
    let ?i = "first_greatest pr ds"
    obtain j where "greatest pr ds j" using greatest_exists Node.prems(2) ok Cons by blast
    then have g: "greatest pr ds ?i" by (rule first_greatest_ok)
    then have i: "?i < length ds" "ds ! ?i \<in> set ds" by (simp_all add: greatest_def)
    obtain p1 c1 where s: "select_cpu pr (ds ! ?i) = (p1, c1)" by fastforce
    have "selects pr (ds ! ?i) p1 c1"
      using Node.IH [OF i(2) _ I_child [OF Node.prems(2) i(2)] s] ok i(2) by (simp add: list_all_iff)
    moreover have "p = l # p1" "n' = Node l s (k + 1) (ds[?i := c1])"
      using Node.prems(3) i(1) s Cons by (simp_all add: Let_def)
    ultimately show ?thesis using sel_child [OF g] by blast
  qed
qed

lemma select_many_selects:
  assumes "tree_ok n" "I n" "select_many pr m n = (ps, n')"
  shows "selects_list pr n ps n' \<and> length ps = m"
  using assms
proof (induction m arbitrary: n ps n')
  case 0
  then show ?case using sel_Nil by auto
next
  case (Suc m)
  obtain p n1 qs n2 where s: "select_cpu pr n = (p, n1)" "select_many pr m n1 = (qs, n2)" by fastforce
  have e: "selects pr n p n1" using select_cpu_selects [OF Suc.prems(1,2) s(1)] .
  have "selects_list pr n1 qs n2 \<and> length qs = m"
    using Suc.IH [OF _ _ s(2)] selects_ok [OF e Suc.prems(1)] selects_I [OF e Suc.prems(1,2)] by blast
  then show ?case using Suc.prems(3) s sel_Cons [OF e] by auto
qed

lemma selects_list_exists:
  assumes "tree_ok n" "I n"
  shows "\<exists>ps n'. selects_list pr n ps n' \<and> length ps = m"
  using assms
proof (induction m arbitrary: n)
  case 0
  then show ?case using sel_Nil by fastforce
next
  case (Suc m)
  obtain p n1 where s: "selects pr n p n1" using selects_exists Suc.prems by blast
  then obtain ps n2 where "selects_list pr n1 ps n2" "length ps = m"
    using Suc.IH [of n1] selects_ok [OF s Suc.prems(1)] selects_I [OF s Suc.prems] by blast
  then show ?case using sel_Cons [OF s] by (metis length_Cons)
qed

end


subsection \<open>The two priorities are fair\<close>

lemma least_exists:
  assumes "xs \<noteq> []" "\<And>x y. x \<in> set xs \<Longrightarrow> y \<in> set xs \<Longrightarrow> R x y \<or> R y x"
    "\<And>x y z. x \<in> set xs \<Longrightarrow> y \<in> set xs \<Longrightarrow> z \<in> set xs \<Longrightarrow> R x y \<Longrightarrow> R y z \<Longrightarrow> R x z"
  shows "\<exists>i<length xs. \<forall>y\<in>set xs. R (xs ! i) y"
  using assms
proof (induction xs rule: list_nonempty_induct)
  case (single x)
  show ?case using single.prems(1) [of x x] by simp
next
  case (cons x xs)
  have "\<exists>i<length xs. \<forall>y\<in>set xs. R (xs ! i) y"
  proof (rule cons.IH)
    show "R a b \<or> R b a" if "a \<in> set xs" "b \<in> set xs" for a b using that cons.prems(1) by simp
    show "R a c" if "a \<in> set xs" "b \<in> set xs" "c \<in> set xs" "R a b" "R b c" for a b c
      using that by (intro cons.prems(2) [of a b c]) simp_all
  qed
  then obtain i where i: "i < length xs" "\<forall>y\<in>set xs. R (xs ! i) y" by blast
  show ?case
  proof (cases "R (xs ! i) x")
    case True
    then show ?thesis using i by (intro exI [of _ "Suc i"]) auto
  next
    case False
    have m: "xs ! i \<in> set (x # xs)" using i(1) by simp
    then have r: "R x (xs ! i)" using cons.prems(1) [OF m, of x] False by auto
    have "R x x" using cons.prems(1) [of x x] by auto
    moreover have "R x y" if "y \<in> set xs" for y using cons.prems(2) [OF _ m _ r, of y] i(2) that by auto
    ultimately show ?thesis by (intro exI [of _ 0]) auto
  qed
qed

definition less_full :: "node \<Rightarrow> node \<Rightarrow> bool" where
  "less_full a b \<longleftrightarrow> nr_slots_selected a * nr_slots b \<le> nr_slots_selected b * nr_slots a"

lemma spread_greater: "priority_spread d c \<noteq> Greater \<longleftrightarrow> less_full c d"
  by (auto simp: priority_spread_def cmp_saturation_def slot_saturation_def cmp_nat_def less_full_def)

lemma less_full_trans:
  assumes "less_full a b" "less_full b c" "0 < nr_slots b"
  shows "less_full a c"
proof -
  have "nr_slots_selected a * nr_slots b * nr_slots c \<le> nr_slots_selected b * nr_slots a * nr_slots c"
    using assms(1) by (simp add: less_full_def)
  also have "\<dots> \<le> nr_slots_selected c * nr_slots b * nr_slots a"
    using mult_le_mono1 [OF assms(2) [unfolded less_full_def], of "nr_slots a"] by (simp add: mult.commute mult.left_commute)
  finally show ?thesis using assms(3) by (simp add: less_full_def mult.commute mult.left_commute)
qed

interpretation spread: fair_priority priority_spread "\<lambda>_. True"
proof unfold_locales
  fix cs :: "node list"
  assume "cs \<noteq> []" "list_all tree_ok cs"
  then have "\<exists>i<length cs. \<forall>y\<in>set cs. less_full (cs ! i) y"
  proof (intro least_exists)
    show "less_full x y \<or> less_full y x" for x y by (auto simp: less_full_def)
    show "less_full x z" if "y \<in> set cs" "less_full x y" "less_full y z" for x y z
      using that less_full_trans slots_pos \<open>list_all tree_ok cs\<close> by (auto simp: list_all_iff)
  qed
  then show "\<exists>i. greatest priority_spread cs i" by (auto simp: greatest_def spread_greater)
next
  fix cs r i d
  assume a: "list_all tree_ok cs" "greatest priority_spread cs i" "d \<in> set cs" "room r d"
  then obtain j where j: "j < length cs" "d = cs ! j" by (auto simp: in_set_conv_nth)
  have i: "i < length cs" using a(2) by (simp add: greatest_def)
  have pos: "0 < nr_slots (cs ! i)" "0 < nr_slots d" using a(1,3) i slots_pos by (auto simp: list_all_iff)
  show "room r (cs ! i)"
  proof (cases "j = i")
    case False
    then have "less_full (cs ! i) d" using a(2) j by (auto simp: greatest_def spread_greater)
    then have "nr_slots_selected (cs ! i) * nr_slots d \<le> nr_slots_selected d * nr_slots (cs ! i)" by (simp add: less_full_def)
    also have "\<dots> < (r + 1) * nr_slots d * nr_slots (cs ! i)" using a(4) pos by (simp add: room_def)
    also have "\<dots> = ((r + 1) * nr_slots (cs ! i)) * nr_slots d" by (simp only: ac_simps)
    finally show ?thesis unfolding room_def using pos(2) mult_less_cancel2 by blast
  qed (use a j in simp)
qed auto

definition packs_before :: "node \<Rightarrow> node \<Rightarrow> bool" where
  "packs_before a b \<longleftrightarrow> nr_slots_selected a div nr_slots a < nr_slots_selected b div nr_slots b \<or>
     nr_slots_selected a div nr_slots a = nr_slots_selected b div nr_slots b \<and> nr_slots b \<le> nr_slots a"

lemma pack_greater:
  "priority_pack d c \<noteq> Greater \<longleftrightarrow> \<not> partly d \<and> (partly c \<or> packs_before c d)"
  by (auto simp: priority_pack_def partly_def packs_before_def cmp_nat_def split: ordering.splits)

interpretation pack: fair_priority priority_pack one_partly
proof unfold_locales
  fix l s k cs
  assume a: "one_partly (Node l s k cs)" "cs \<noteq> []"
  show "\<exists>i. greatest priority_pack cs i"
  proof (cases "\<exists>i<length cs. partly (cs ! i)")
    case True
    then obtain i where "i < length cs" "partly (cs ! i)" by blast
    then have "greatest priority_pack cs i" using a(1) by (auto simp: greatest_def pack_greater)
    then show ?thesis by blast
  next
    case False
    have "\<exists>i<length cs. \<forall>y\<in>set cs. packs_before (cs ! i) y"
      by (rule least_exists) (use a(2) in \<open>auto simp: packs_before_def\<close>)
    then show ?thesis using False by (auto simp: greatest_def pack_greater)
  qed
next
  fix cs r i d
  assume a: "list_all tree_ok cs" "list_all (in_round r) cs" "greatest priority_pack cs i" "d \<in> set cs" "room r d"
  then obtain j where j: "j < length cs" "d = cs ! j" by (auto simp: in_set_conv_nth)
  have i: "i < length cs" using a(3) by (simp add: greatest_def)
  then have "in_round r (cs ! i)" using a(2) by (simp add: list_all_length)
  then have le: "nr_slots_selected (cs ! i) \<le> (r + 1) * nr_slots (cs ! i)" by (cases "cs ! i") simp
  have pos: "0 < nr_slots (cs ! i)" "0 < nr_slots d" using a(1,4) i slots_pos by (auto simp: list_all_iff)
  show "room r (cs ! i)"
  proof (cases "j = i")
    case False
    then have g: "\<not> partly d" "partly (cs ! i) \<or> packs_before (cs ! i) d" using a(3) j by (auto simp: greatest_def pack_greater)
    have "nr_slots_selected d div nr_slots d < r + 1"
      using a(5) pos(2) by (simp add: room_def less_mult_imp_div_less)
    moreover have "nr_slots_selected (cs ! i) div nr_slots (cs ! i) = r + 1" "\<not> partly (cs ! i)"
      if "nr_slots_selected (cs ! i) = (r + 1) * nr_slots (cs ! i)"
      using that pos(1) by (simp_all add: partly_def)
    ultimately have "nr_slots_selected (cs ! i) \<noteq> (r + 1) * nr_slots (cs ! i)" using g(2) by (auto simp: packs_before_def)
    then show ?thesis using le by (simp add: room_def)
  qed (use a j in simp)
next
  fix l s k cs i c k'
  assume a: "one_partly (Node l s k cs)" "greatest priority_pack cs i" "one_partly c"
  have "j = i" if "j < length cs" "partly (cs[i := c] ! j)" for j
    using a(2) that by (cases "j = i") (auto simp: greatest_def pack_greater)
  then show "one_partly (Node l s k' (cs[i := c]))" using a by (auto simp: list_all_upd)
qed (auto simp: list_all_iff)

end
