(* ===== verification/Placement.thy ===== *)
theory Placement
  imports PqTree Errors "HOL-Library.Product_Lexorder"
begin

section \<open>Placement of executors on CPUs (glommio/src/executor/placement/mod.rs)\<close>

text \<open>
  Placements, the sets of CPUs they are made of, and the generator that gives each executor its
  CPUs, with the construction of the topology tree that the two spreading policies select from.
  A set of CPUs is the list of its elements in iteration order. What the machine reports as its
  online CPUs is an argument, \<open>online\<close>; the renumbering that the source applies to what it reads
  (glommio/src/sys/hardware\_topology.rs) is modelled, the reading of files is not.
\<close>

record cpu_location =
  cpu :: nat
  core :: nat
  package :: nat
  numa_node :: nat
  cache_domain :: nat

type_synonym cpu_set = "cpu_location list"

subsection \<open>Renumbering the cores of the machine (sys/hardware\_topology.rs)\<close>

text \<open>
  On a machine that reports NUMA nodes, cores are numbered in the order of their node and of the
  core id in it, and cache domains in the order of their ids. Every CPU occurs once.
\<close>

fun index_of :: "'a \<Rightarrow> 'a list \<Rightarrow> nat" where
  "index_of x [] = 0"
| "index_of x (y # ys) = (if x = y then 0 else 1 + index_of x ys)"

definition vcores :: "cpu_location list \<Rightarrow> (nat \<times> nat) list" where
  "vcores ls = sort (remdups (map (\<lambda>l. (numa_node l, core l)) ls))"

definition renumber_cores :: "cpu_location list \<Rightarrow> cpu_location list" where
  "renumber_cores ls = map (\<lambda>l. l\<lparr>core := index_of (numa_node l, core l) (vcores ls)\<rparr>) ls"

definition renumber_domains :: "cpu_location list \<Rightarrow> cpu_location list" where
  "renumber_domains ls =
     (let raw = sort (remdups (map cache_domain ls)) in map (\<lambda>l. l\<lparr>cache_domain := index_of (cache_domain l) raw\<rparr>) ls)"

definition machine_topology :: "cpu_location list \<Rightarrow> cpu_location list" where
  "machine_topology ls = renumber_domains (renumber_cores ls)"

subsection \<open>From a path to a CPU (pq\_tree.rs)\<close>

record path_ids =
  pi_cpu :: "nat option"
  pi_core :: "nat option"
  pi_cache :: "nat option"
  pi_pkg :: "nat option"
  pi_numa :: "nat option"

fun collect_path :: "level list \<Rightarrow> path_ids \<Rightarrow> string + path_ids" where
  "collect_path [] a = Inr a"
| "collect_path (p # ps) a =
     (case p of
        SystemRoot \<Rightarrow> collect_path ps a
      | Cpu i \<Rightarrow> (case pi_cpu a of None \<Rightarrow> collect_path ps (a\<lparr>pi_cpu := Some i\<rparr>) | Some _ \<Rightarrow> Inl ''duplicate cpu in path'')
      | Core i \<Rightarrow> (case pi_core a of None \<Rightarrow> collect_path ps (a\<lparr>pi_core := Some i\<rparr>) | Some _ \<Rightarrow> Inl ''duplicate core in path'')
      | CacheDomain i \<Rightarrow>
          (case pi_cache a of None \<Rightarrow> collect_path ps (a\<lparr>pi_cache := Some i\<rparr>) | Some _ \<Rightarrow> Inl ''duplicate cache domain in path'')
      | Package i \<Rightarrow> (case pi_pkg a of None \<Rightarrow> collect_path ps (a\<lparr>pi_pkg := Some i\<rparr>) | Some _ \<Rightarrow> Inl ''duplicate pkg in path'')
      | NumaNode i \<Rightarrow> (case pi_numa a of None \<Rightarrow> collect_path ps (a\<lparr>pi_numa := Some i\<rparr>) | Some _ \<Rightarrow> Inl ''duplicate numa in path''))"

definition try_from_path :: "level list \<Rightarrow> string + cpu_location" where
  "try_from_path path =
     (case collect_path path \<lparr>pi_cpu = None, pi_core = None, pi_cache = None, pi_pkg = None, pi_numa = None\<rparr> of
        Inl e \<Rightarrow> Inl e
      | Inr a \<Rightarrow>
          (case (pi_cpu a, pi_core a, pi_pkg a, pi_numa a) of
             (Some c, Some co, Some p, Some n) \<Rightarrow>
               Inr \<lparr>cpu = c, core = co, package = p, numa_node = n, cache_domain = (case pi_cache a of None \<Rightarrow> p | Some d \<Rightarrow> d)\<rparr>
           | _ \<Rightarrow> Inl ''Failed to construct Path from CpuLocation''))"

subsection \<open>The topology tree\<close>

definition count_unique_by :: "('a \<Rightarrow> 'b) \<Rightarrow> 'a list \<Rightarrow> nat" where
  "count_unique_by f xs = length (remdups (map f xs))"

text \<open>The map that numbers the keys in the order of their first occurrence.\<close>

definition dense_key :: "cpu_location \<Rightarrow> nat \<times> nat \<times> nat" where
  "dense_key l = (numa_node l, package l, cache_domain l)"

fun dense_insert :: "cpu_location list \<Rightarrow> ((nat \<times> nat \<times> nat) \<times> nat) list \<Rightarrow> ((nat \<times> nat \<times> nat) \<times> nat) list" where
  "dense_insert [] m = m"
| "dense_insert (l # ls) m =
     dense_insert ls (case map_of m (dense_key l) of Some _ \<Rightarrow> m | None \<Rightarrow> m @ [(dense_key l, length m)])"

definition dense_domains :: "cpu_location list \<Rightarrow> cpu_location list" where
  "dense_domains ls =
     (let m = dense_insert ls []
      in map (\<lambda>l. l\<lparr>cache_domain := (case map_of m (dense_key l) of Some n \<Rightarrow> n | None \<Rightarrow> cache_domain l)\<rparr>) ls)"

text \<open>The level of a CPU at a depth of the tree; a deeper one is unreachable.\<close>

definition f_level :: "bool \<Rightarrow> cpu_location \<Rightarrow> nat \<Rightarrow> level option" where
  "f_level package_first l depth =
     (if depth = 0 then Some SystemRoot
      else if depth = 1 then Some (if package_first then Package (package l) else NumaNode (numa_node l))
      else if depth = 2 then Some (if package_first then NumaNode (numa_node l) else Package (package l))
      else if depth = 3 then Some (CacheDomain (cache_domain l))
      else if depth = 4 then Some (Core (core l))
      else if depth = 5 then Some (Cpu (cpu l))
      else None)"

definition is_cpu :: "level \<Rightarrow> bool" where
  "is_cpu lv = (case lv of Cpu _ \<Rightarrow> True | _ \<Rightarrow> False)"

text \<open>
  The loop of \<^verbatim>\<open>build_sub_tree\<close>. The CPU that comes next and the iterator behind it are the list of
  CPUs still to come.
\<close>

function build_sub_tree ::
    "bool \<Rightarrow> nat \<Rightarrow> node \<Rightarrow> cpu_location option \<Rightarrow> cpu_location list \<Rightarrow> (node \<times> cpu_location option \<times> cpu_location list) option" where
  "build_sub_tree pf depth parent prev [] = Some (parent, prev, [])"
| "build_sub_tree pf depth parent None (n # rest) =
     (case f_level pf n depth of
        None \<Rightarrow> None
      | Some lv \<Rightarrow>
          (if is_cpu lv then build_sub_tree pf depth (push_child parent (node_new lv)) (Some n) rest
           else
             (case build_sub_tree pf (depth + 1) (node_new lv) None (n # rest) of
                None \<Rightarrow> None
              | Some (node, prev', rest') \<Rightarrow> build_sub_tree pf depth (push_child parent node) prev' rest')))"
| "build_sub_tree pf depth parent (Some p) (n # rest) =
     (case (f_level pf p (depth - 1), f_level pf n (depth - 1)) of
        (Some a, Some b) \<Rightarrow>
          (if a = b then build_sub_tree pf depth parent None (n # rest) else Some (parent, Some p, n # rest))
      | _ \<Rightarrow> None)"
  by pat_completeness auto

termination
proof -
  have shrinks: "length xs' \<le> length xs \<and> (prev = None \<longrightarrow> xs \<noteq> [] \<longrightarrow> length xs' < length xs)"
    if "build_sub_tree_dom (pf, depth, parent, prev, xs)" "build_sub_tree pf depth parent prev xs = Some (node, prev', xs')"
    for pf depth parent prev xs node prev' xs'
    using that
  proof (induction arbitrary: node prev' xs' rule: build_sub_tree.pinduct)
    case (1 pf depth parent prev)
    then show ?case by (simp add: build_sub_tree.psimps)
  next
    case (2 pf depth parent n rest)
    obtain lv where lv: "f_level pf n depth = Some lv" using 2 by (auto simp: build_sub_tree.psimps split: option.splits)
    show ?case
    proof (cases "is_cpu lv")
      case True
      then show ?thesis using 2 lv by (fastforce simp: build_sub_tree.psimps)
    next
      case False
      then obtain nd pr r where i: "build_sub_tree pf (depth + 1) (node_new lv) None (n # rest) = Some (nd, pr, r)"
        and o: "build_sub_tree pf depth (push_child parent nd) pr r = Some (node, prev', xs')"
        using 2 lv by (auto simp: build_sub_tree.psimps split: option.splits)
      have "length r < length (n # rest)" using 2 lv i False by auto
      moreover have "length xs' \<le> length r" using 2 lv i o False by auto
      ultimately show ?thesis by simp
    qed
  next
    case (3 pf depth parent p n rest)
    then show ?case by (fastforce simp: build_sub_tree.psimps split: option.splits if_splits)
  qed
  show ?thesis
  proof (relation "measures [\<lambda>(pf, depth, parent, prev, xs). length xs, \<lambda>(pf, depth, parent, prev, xs). of_bool (prev \<noteq> None),
      \<lambda>(pf, depth, parent, prev, xs). 6 - depth]", goal_cases)
    case 1
    then show ?case by simp
  qed (auto simp: f_level_def is_cpu_def split: if_splits dest!: shrinks)
qed

definition from_topology :: "cpu_location list \<Rightarrow> node option" where
  "from_topology topology =
     (let nr_numa_node = count_unique_by numa_node topology;
          nr_package = count_unique_by package topology;
          dense = dense_domains topology;
          pf = nr_package < nr_numa_node;
          ordered = (if pf then sort_key (\<lambda>l. (package l, numa_node l, cache_domain l, core l, cpu l)) dense
                    else sort_key (\<lambda>l. (numa_node l, package l, cache_domain l, core l, cpu l)) dense)
      in if ordered = [] then Some (node_new SystemRoot)
         else map_option fst (build_sub_tree pf 1 (node_new SystemRoot) None ordered))"

definition topology_next :: "priority \<Rightarrow> node \<Rightarrow> cpu_location option \<times> node" where
  "topology_next pr tree =
     (case select_cpu pr tree of (path, tree') \<Rightarrow> (case try_from_path path of Inl _ \<Rightarrow> None | Inr l \<Rightarrow> Some l, tree'))"

subsection \<open>Placements\<close>

datatype pool_placement =
    PoolUnbound nat
  | PoolFenced nat cpu_set
  | PoolMaxSpread nat "cpu_set option"
  | PoolMaxPack nat "cpu_set option"
  | PoolCustom "cpu_set list"

datatype placement = PlaceUnbound | PlaceFenced cpu_set | PlaceFixed nat

type_synonym online_cpus = "(cpu_set, unit glommio_error) result"

fun executor_count :: "pool_placement \<Rightarrow> nat" where
  "executor_count (PoolUnbound cpus) = cpus"
| "executor_count (PoolFenced cpus _) = cpus"
| "executor_count (PoolMaxSpread cpus _) = cpus"
| "executor_count (PoolMaxPack cpus _) = cpus"
| "executor_count (PoolCustom cpus) = length cpus"

definition shrink_to :: "pool_placement \<Rightarrow> nat \<Rightarrow> pool_placement" where
  "shrink_to pl cnt =
     (if cnt > executor_count pl then pl
      else case pl of
          PoolUnbound _ \<Rightarrow> PoolUnbound cnt
        | PoolFenced _ cs \<Rightarrow> PoolFenced cnt cs
        | PoolMaxSpread _ cs \<Rightarrow> PoolMaxSpread cnt cs
        | PoolMaxPack _ cs \<Rightarrow> PoolMaxPack cnt cs
        | PoolCustom cpus \<Rightarrow> PoolCustom (take cnt cpus))"

fun from_placement :: "online_cpus \<Rightarrow> placement \<Rightarrow> pool_placement option" where
  "from_placement online PlaceUnbound = Some (PoolUnbound 1)"
| "from_placement online (PlaceFenced cs) = Some (PoolFenced 1 cs)"
| "from_placement online (PlaceFixed c) =
     (case online of Inl _ \<Rightarrow> None | Inr on \<Rightarrow> Some (PoolCustom [filter (\<lambda>x. cpu x = c) on]))"

subsection \<open>CPU iterators\<close>

datatype cpu_iter = IterUnbound | IterSingle cpu_location | IterMulti "cpu_location list"

definition from_option :: "cpu_location option \<Rightarrow> cpu_iter" where
  "from_option l = (case l of None \<Rightarrow> IterUnbound | Some c \<Rightarrow> IterSingle c)"

fun cpu_iter_next :: "cpu_iter \<Rightarrow> cpu_location option \<times> cpu_iter" where
  "cpu_iter_next IterUnbound = (None, IterUnbound)"
| "cpu_iter_next (IterSingle c) = (Some c, IterUnbound)"
| "cpu_iter_next (IterMulti v) = (if v = [] then (None, IterMulti v) else (Some (last v), IterMulti (butlast v)))"

fun cpu_binding :: "cpu_iter \<Rightarrow> nat list option" where
  "cpu_binding IterUnbound = None"
| "cpu_binding (IterSingle c) = Some [cpu c]"
| "cpu_binding (IterMulti v) = Some (rev (map cpu v))"

subsection \<open>The generator\<close>

datatype generator = GenUnbound | GenFenced cpu_set | GenMaxSpread node | GenMaxPack node | GenCustom "cpu_set list"

definition check_nr_executors :: "nat \<Rightarrow> nat \<Rightarrow> (unit, unit glommio_error) result" where
  "check_nr_executors minimum shards = (if minimum \<le> shards then Inr () else Inl (BuilderError (NrShards minimum shards)))"

definition check_nr_cpus :: "nat \<Rightarrow> cpu_set \<Rightarrow> (unit, unit glommio_error) result" where
  "check_nr_cpus required cs =
     (let available = length cs in if required \<le> available then Inr () else Inl (BuilderError (InsufficientCpus required available)))"

definition check_cpu :: "online_cpus \<Rightarrow> nat \<Rightarrow> (unit, unit glommio_error) result" where
  "check_cpu online i =
     (case online of
        Inl e \<Rightarrow> Inl e
      | Inr on \<Rightarrow> if filter (\<lambda>c. cpu c = i) on = [] then Inl (BuilderError (NonExistentCpus i)) else Inr ())"

text \<open>The \<^verbatim>\<open>?\<close> operator, and the loop over a set of CPUs.\<close>

definition and_then :: "('a, 'e) result \<Rightarrow> ('a \<Rightarrow> ('b, 'e) result) \<Rightarrow> ('b, 'e) result" where
  "and_then r f = (case r of Inl e \<Rightarrow> Inl e | Inr x \<Rightarrow> f x)"

fun check_cpus :: "online_cpus \<Rightarrow> cpu_set \<Rightarrow> (unit, unit glommio_error) result" where
  "check_cpus online [] = Inr ()"
| "check_cpus online (c # cs) = and_then (check_cpu online (cpu c)) (\<lambda>_. check_cpus online cs)"

fun check_sets :: "online_cpus \<Rightarrow> cpu_set list \<Rightarrow> (unit, unit glommio_error) result" where
  "check_sets online [] = Inr ()"
| "check_sets online (s # ss) =
     and_then (check_nr_cpus 1 s) (\<lambda>_. and_then (check_cpus online s) (\<lambda>_. check_sets online ss))"

definition topology_set :: "online_cpus \<Rightarrow> nat \<Rightarrow> cpu_set option \<Rightarrow> (cpu_set, unit glommio_error) result" where
  "topology_set online nr_shards cpus =
     and_then (check_nr_executors 1 nr_shards) (\<lambda>_.
     and_then (case cpus of Some cs \<Rightarrow> Inr cs | None \<Rightarrow> online) (\<lambda>cs.
     and_then (check_nr_cpus nr_shards cs) (\<lambda>_.
     and_then (check_cpus online cs) (\<lambda>_. Inr cs))))"

text \<open>An outer \<open>None\<close> is a panic; the tree construction never gives one.\<close>

fun generator_pool :: "online_cpus \<Rightarrow> pool_placement \<Rightarrow> (generator, unit glommio_error) result option" where
  "generator_pool online (PoolUnbound nr_shards) =
     Some (and_then (check_nr_executors 1 nr_shards) (\<lambda>_. Inr GenUnbound))"
| "generator_pool online (PoolFenced nr_shards cs) =
     Some (and_then (check_nr_executors 1 nr_shards) (\<lambda>_. and_then (check_nr_cpus 1 cs) (\<lambda>_.
       and_then (check_cpus online cs) (\<lambda>_. Inr (GenFenced cs)))))"
| "generator_pool online (PoolMaxSpread nr_shards cpus) =
     (case topology_set online nr_shards cpus of
        Inl e \<Rightarrow> Some (Inl e) | Inr cs \<Rightarrow> map_option (\<lambda>t. Inr (GenMaxSpread t)) (from_topology cs))"
| "generator_pool online (PoolMaxPack nr_shards cpus) =
     (case topology_set online nr_shards cpus of
        Inl e \<Rightarrow> Some (Inl e) | Inr cs \<Rightarrow> map_option (\<lambda>t. Inr (GenMaxPack t)) (from_topology cs))"
| "generator_pool online (PoolCustom cpu_sets) =
     Some (and_then (check_sets online cpu_sets) (\<lambda>_. Inr (GenCustom cpu_sets)))"

fun generator_one :: "online_cpus \<Rightarrow> placement \<Rightarrow> (generator, unit glommio_error) result" where
  "generator_one online PlaceUnbound = Inr GenUnbound"
| "generator_one online (PlaceFenced cs) = and_then (check_nr_cpus 1 cs) (\<lambda>_. Inr (GenFenced cs))"
| "generator_one online (PlaceFixed c) =
     and_then (check_cpu online c) (\<lambda>_. and_then online (\<lambda>on. Inr (GenCustom [filter (\<lambda>x. cpu x = c) on])))"

fun generator_next :: "generator \<Rightarrow> (cpu_iter \<times> generator) option" where
  "generator_next GenUnbound = Some (IterUnbound, GenUnbound)"
| "generator_next (GenFenced cs) = Some (IterMulti cs, GenFenced cs)"
| "generator_next (GenMaxSpread t) = (case topology_next priority_spread t of (l, t') \<Rightarrow> Some (from_option l, GenMaxSpread t'))"
| "generator_next (GenMaxPack t) = (case topology_next priority_pack t of (l, t') \<Rightarrow> Some (from_option l, GenMaxPack t'))"
| "generator_next (GenCustom ss) = (if ss = [] then None else Some (IterMulti (last ss), GenCustom (butlast ss)))"

fun generator_take :: "nat \<Rightarrow> generator \<Rightarrow> (cpu_iter list \<times> generator) option" where
  "generator_take 0 g = Some ([], g)"
| "generator_take (Suc n) g =
     Option.bind (generator_next g) (\<lambda>(it, g1). map_option (\<lambda>(its, g2). (it # its, g2)) (generator_take n g1))"

subsection \<open>The tree has one leaf per CPU\<close>

text \<open>The leaves below the children of a node.\<close>

definition child_leaves :: "node \<Rightarrow> level list" where
  "child_leaves n = (if n_children n = [] then [] else map last (paths n))"

lemma paths_push_child:
  "paths (push_child p c) = (if n_children p = [] then [] else paths p) @ map ((#) (n_level p)) (paths c)"
  by (cases p) auto

lemma last_Cons_path: "q \<in> set (paths n) \<Longrightarrow> last (l # q) = last q"
  using paths_nonempty by (metis last_ConsR)

lemma child_leaves_push: "child_leaves (push_child p c) = child_leaves p @ map last (paths c)"
proof -
  have "n_children (push_child p c) \<noteq> []" by (cases p) simp
  moreover have "map last (map ((#) l) (paths c)) = map last (paths c)" for l using last_Cons_path [of _ c l] by (auto simp: map_eq_conv)
  ultimately show ?thesis by (simp add: child_leaves_def paths_push_child del: map_map)
qed

lemma new_ok: "tree_ok (node_new l)" "fresh (node_new l)" "child_leaves (node_new l) = []" "map last (paths (node_new l)) = [l]"
  "n_level (node_new l) = l"
  by (simp_all add: node_new_def child_leaves_def)

lemma push_ok:
  assumes "tree_ok p" "fresh p" "tree_ok c" "fresh c"
  shows "tree_ok (push_child p c) \<and> fresh (push_child p c)"
proof -
  have "nr_slots_selected c = 0" using assms(4) fresh_round by blast
  moreover have "nr_slots_selected d = 0" if "d \<in> set (n_children p)" for d
    using assms(2) that fresh_round by (cases p) (auto simp: list_all_iff)
  ultimately show ?thesis
    using assms by (cases p) (auto simp: sum_list_eq_0_iff)
qed

text \<open>The paths below depth \<open>d\<close> have one level of each kind that the tree has there.\<close>

definition shaped :: "bool \<Rightarrow> nat \<Rightarrow> level list \<Rightarrow> bool" where
  "shaped pf d q \<longleftrightarrow> list_all2 (\<lambda>l i. \<exists>x. f_level pf x i = Some l) q [d..<6]"

definition shaped_below :: "bool \<Rightarrow> nat \<Rightarrow> node \<Rightarrow> bool" where
  "shaped_below pf d n \<longleftrightarrow> (\<forall>c\<in>set (n_children n). \<forall>q\<in>set (paths c). shaped pf d q)"

lemma shaped_push:
  "shaped_below pf d (push_child p c) \<longleftrightarrow> shaped_below pf d p \<and> (\<forall>q\<in>set (paths c). shaped pf d q)"
  by (cases p) (auto simp: shaped_below_def)

text \<open>What a call of the loop leaves behind: the CPUs \<open>ys\<close> it took are the new leaves.\<close>

definition built :: "bool \<Rightarrow> nat \<Rightarrow> node \<Rightarrow> cpu_location list \<Rightarrow> cpu_location list \<Rightarrow> node \<times> cpu_location option \<times> cpu_location list \<Rightarrow> bool" where
  "built pf depth parent xs ys = (\<lambda>(node, prev', xs'). xs = ys @ xs' \<and> child_leaves node = child_leaves parent @ map (Cpu \<circ> cpu) ys \<and>
     tree_ok node \<and> fresh node \<and> shaped_below pf depth node \<and> n_level node = n_level parent \<and>
     (depth = 1 \<longrightarrow> xs' = []))"

lemma f_level_depth: "depth \<le> 5 \<Longrightarrow> \<exists>lv. f_level pf l depth = Some lv \<and> (is_cpu lv \<longleftrightarrow> depth = 5)"
  by (auto simp: f_level_def is_cpu_def)

lemma f_level_cpu: "f_level pf l 5 = Some (Cpu (cpu l))"
  by (simp add: f_level_def)

lemma shaped_leaf: "f_level pf l 5 = Some lv \<Longrightarrow> q \<in> set (paths (node_new lv)) \<Longrightarrow> shaped pf 5 q"
  by (auto simp: shaped_def node_new_def upt_rec)

lemma shaped_inner:
  assumes "shaped_below pf (depth + 1) node" "n_children node \<noteq> []" "f_level pf l depth = Some (n_level node)" "depth \<le> 5"
    "q \<in> set (paths node)"
  shows "shaped pf depth q"
proof -
  obtain c q' where "c \<in> set (n_children node)" "q' \<in> set (paths c)" "q = n_level node # q'"
    using assms(2,5) by (cases node) auto
  moreover have "[depth..<6] = depth # [depth + 1..<6]" using assms(4) by (simp add: upt_rec)
  ultimately show ?thesis using assms(1,3) by (auto simp: shaped_def shaped_below_def)
qed

lemma build_ok:
  assumes "1 \<le> depth" "depth \<le> 5" "tree_ok parent" "fresh parent" "shaped_below pf depth parent"
  shows "\<exists>r ys. build_sub_tree pf depth parent prev xs = Some r \<and> built pf depth parent xs ys r \<and>
     (prev = None \<longrightarrow> xs \<noteq> [] \<longrightarrow> ys \<noteq> [])"
  using assms
proof (induction pf depth parent prev xs rule: build_sub_tree.induct)
  case (1 pf depth parent prev)
  then show ?case by (auto simp: built_def)
next
  case (2 pf depth parent n rest)
  obtain lv where lv: "f_level pf n depth = Some lv" "is_cpu lv \<longleftrightarrow> depth = 5" using f_level_depth "2.prems"(2) by blast
  show ?case
  proof (cases "depth = 5")
    case True
    then have i: "lv = Cpu (cpu n)" using lv f_level_cpu by simp
    let ?p = "push_child parent (node_new lv)"
    have p: "tree_ok ?p" "fresh ?p" "shaped_below pf depth ?p" "child_leaves ?p = child_leaves parent @ [Cpu (cpu n)]"
      using push_ok [OF "2.prems"(3,4) new_ok(1,2), of lv] "2.prems"(5) lv True i shaped_leaf
      by (auto simp: shaped_push child_leaves_push new_ok)
    obtain r ys where r: "build_sub_tree pf depth ?p (Some n) rest = Some r" "built pf depth ?p rest ys r"
      using "2.IH"(1) [OF lv(1) _ "2.prems"(1,2) p(1-3)] lv(2) True by blast
    then have "built pf depth parent (n # rest) (n # ys) r"
      using p(4) by (cases parent) (auto simp: built_def)
    then show ?thesis using r(1) lv True by (intro exI [of _ r] exI [of _ "n # ys"]) simp
  next
    case False
    then have nc: "\<not> is_cpu lv" and d: "depth + 1 \<le> 5" using lv(2) "2.prems"(2) by auto
    have "shaped_below pf (depth + 1) (node_new lv)" by (simp add: shaped_below_def node_new_def)
    then obtain nd pr rs ys where i: "build_sub_tree pf (depth + 1) (node_new lv) None (n # rest) = Some (nd, pr, rs)"
      "built pf (depth + 1) (node_new lv) (n # rest) ys (nd, pr, rs)" "ys \<noteq> []"
      using "2.IH"(2) [OF lv(1) nc _ d new_ok(1,2)] by auto
    have nd: "n_children nd \<noteq> []" "map last (paths nd) = map (Cpu \<circ> cpu) ys" "n # rest = ys @ rs" "tree_ok nd" "fresh nd"
        "n_level nd = lv" "shaped_below pf (depth + 1) nd"
      using i(2,3) by (auto simp: built_def new_ok child_leaves_def node_new_def split: if_splits)
    let ?p = "push_child parent nd"
    have p: "tree_ok ?p" "fresh ?p" "shaped_below pf depth ?p" "child_leaves ?p = child_leaves parent @ map (Cpu \<circ> cpu) ys"
      using push_ok [OF "2.prems"(3,4) nd(4,5)] "2.prems"(5) shaped_inner [OF nd(7,1)] lv(1) nd(2,6) "2.prems"(2)
      by (auto simp: shaped_push child_leaves_push)
    obtain r zs where r: "build_sub_tree pf depth ?p pr rs = Some r" "built pf depth ?p rs zs r"
      using "2.IH"(3) [OF lv(1) nc i(1) refl refl "2.prems"(1,2) p(1-3)] by blast
    then have "built pf depth parent (n # rest) (ys @ zs) r"
      using p(4) nd(3) by (cases parent) (auto simp: built_def)
    then show ?thesis using r(1) lv(1) nc i(1,3) by (intro exI [of _ r] exI [of _ "ys @ zs"]) simp
  qed
next
  case (3 pf depth parent p n rest)
  obtain a b where ab: "f_level pf p (depth - 1) = Some a" "f_level pf n (depth - 1) = Some b"
    using f_level_depth [OF le_trans [OF diff_le_self "3.prems"(2)]] by blast
  show ?case
  proof (cases "a = b")
    case True
    then show ?thesis using "3.IH" [OF refl ab(1) ab(2) True "3.prems"] ab by auto
  next
    case False
    then have "depth \<noteq> 1" using ab by (auto simp: f_level_def)
    then show ?thesis using False ab 3 by (auto simp: built_def)
  qed
qed


lemma cpus_dense: "map cpu (dense_domains ls) = map cpu ls"
  by (simp add: dense_domains_def Let_def)

lemma cpus_ordered: "mset (map cpu (sort_key k (dense_domains ls))) = mset (map cpu ls)"
proof -
  have "mset (map cpu (sort_key k (dense_domains ls))) = mset (map cpu (dense_domains ls))" by (simp only: mset_map mset_sort)
  then show ?thesis by (simp only: cpus_dense)
qed

text \<open>A path from the root of the tree names a CPU.\<close>

lemma shaped_location:
  assumes "shaped pf 1 q"
  shows "\<exists>l. try_from_path (SystemRoot # q) = Inr l \<and> last q = Cpu (cpu l)"
proof -
  have "[1..<6] = [1, 2, 3, 4, 5 :: nat]" by (simp add: upt_rec)
  then obtain a b c d e where q: "q = [a, b, c, d, e]" and lv: "\<exists>x. f_level pf x 1 = Some a" "\<exists>x. f_level pf x 2 = Some b"
      "\<exists>x. f_level pf x 3 = Some c" "\<exists>x. f_level pf x 4 = Some d" "\<exists>x. f_level pf x 5 = Some e"
    using assms by (auto simp: shaped_def list_all2_Cons2) blast
  then show ?thesis by (cases pf) (auto simp: f_level_def try_from_path_def)
qed

lemma from_topology_ok:
  assumes "xs \<noteq> []"
  shows "\<exists>t. from_topology xs = Some t \<and> tree_ok t \<and> fresh t \<and> mset (map last (paths t)) = image_mset Cpu (mset (map cpu xs)) \<and>
     (\<forall>q\<in>set (paths t). \<exists>l. try_from_path q = Inr l \<and> last q = Cpu (cpu l))"
proof -
  define pf where "pf = (count_unique_by package xs < count_unique_by numa_node xs)"
  define ys where "ys = (if pf then sort_key (\<lambda>l. (package l, numa_node l, cache_domain l, core l, cpu l)) (dense_domains xs)
                    else sort_key (\<lambda>l. (numa_node l, package l, cache_domain l, core l, cpu l)) (dense_domains xs))"
  have ys: "mset (map cpu ys) = mset (map cpu xs)" unfolding ys_def by (cases pf) (simp_all only: if_True if_False cpus_ordered)
  then have "ys \<noteq> []" using assms by auto
  have ft: "from_topology xs = map_option fst (build_sub_tree pf 1 (node_new SystemRoot) None ys)"
    unfolding from_topology_def Let_def pf_def [symmetric] ys_def [symmetric] using \<open>ys \<noteq> []\<close> by simp
  have "shaped_below pf 1 (node_new SystemRoot)" by (simp add: shaped_below_def node_new_def)
  then obtain r zs where "build_sub_tree pf 1 (node_new SystemRoot) None ys = Some r" "built pf 1 (node_new SystemRoot) ys zs r" "zs \<noteq> []"
    using build_ok [of 1 "node_new SystemRoot" pf None ys] new_ok \<open>ys \<noteq> []\<close> by auto
  then obtain t pv where t: "build_sub_tree pf 1 (node_new SystemRoot) None ys = Some (t, pv, [])"
      "child_leaves t = map (Cpu \<circ> cpu) ys" "tree_ok t" "fresh t" "shaped_below pf 1 t" "n_level t = SystemRoot"
    by (cases r) (auto simp: built_def new_ok)
  have c: "n_children t \<noteq> []" "map last (paths t) = map (Cpu \<circ> cpu) ys"
    using t(2) \<open>ys \<noteq> []\<close> by (auto simp: child_leaves_def split: if_splits)
  have "\<exists>l. try_from_path q = Inr l \<and> last q = Cpu (cpu l)" if q: "q \<in> set (paths t)" for q
  proof -
    obtain d q' where "d \<in> set (n_children t)" "q' \<in> set (paths d)" "q = SystemRoot # q'" using q c(1) t(6) by (cases t) (auto split: if_splits)
    then show ?thesis using shaped_location [of pf q'] t(5) last_Cons_path by (auto simp: shaped_below_def)
  qed
  moreover have "mset (map last (paths t)) = image_mset Cpu (mset (map cpu xs))"
    unfolding c(2) ys [symmetric] by (simp add: image_mset.compositionality)
  ultimately show ?thesis using ft t by auto
qed

lemma tree_cpus:
  assumes "mset (map last (paths t)) = image_mset Cpu (mset (map cpu xs))"
  shows "last ` set (paths t) = Cpu ` cpu ` set xs" "length (paths t) = length xs" "distinct (map cpu xs) \<Longrightarrow> distinct (map last (paths t))"
proof -
  have m: "mset (map last (paths t)) = mset (map (Cpu \<circ> cpu) xs)" using assms by (simp add: image_mset.compositionality)
  show "last ` set (paths t) = Cpu ` cpu ` set xs" using arg_cong [OF m, of set_mset] by (simp add: image_comp)
  show "length (paths t) = length xs" using mset_eq_length [OF m] by simp
  show "distinct (map last (paths t))" if "distinct (map cpu xs)"
  proof -
    have "distinct (map (Cpu \<circ> cpu) xs)" using that by (auto simp: distinct_map inj_on_def)
    then show ?thesis using mset_eq_imp_distinct_iff [OF m] by blast
  qed
qed

lemma fresh_one_partly: "fresh n \<Longrightarrow> one_partly n"
proof (induction n)
  case (Node l s k cs)
  have "\<not> partly c" if "c \<in> set cs" for c
    using Node.prems that fresh_round [of c] by (auto simp: partly_def list_all_iff)
  then show ?case using Node by (auto simp: list_all_iff)
qed


subsection \<open>Correctness of placement\<close>

definition policy :: "priority \<Rightarrow> bool" where
  "policy pr \<longleftrightarrow> pr = priority_spread \<or> pr = priority_pack"

lemma policy_once:
  assumes "policy pr" "selects_list pr n ps n'" "tree_ok n" "fresh n" "distinct (paths n)" "length ps = nr_slots n"
  shows "distinct ps \<and> set ps = set (paths n)"
  using assms spread.once_each pack.once_each [OF _ _ fresh_one_partly] unfolding policy_def by blast

lemma policy_fair:
  assumes "policy pr" "selects_list pr n ps n'" "tree_ok n" "fresh n" "distinct (paths n)" "q \<in> set (paths n)"
  shows "length ps div nr_slots n \<le> count_list ps q \<and> count_list ps q \<le> length ps div nr_slots n + 1"
  using assms spread.fair pack.fair [OF _ _ fresh_one_partly] unfolding policy_def by blast

lemma policy_many:
  assumes "policy pr" "tree_ok n" "fresh n" "select_many pr m n = (ps, n')"
  shows "selects_list pr n ps n' \<and> length ps = m"
  using assms spread.select_many_selects pack.select_many_selects [OF _ fresh_one_partly] unfolding policy_def by blast

lemma once_or_less:
  assumes "policy pr" "selects_list pr n ps n'" "tree_ok n" "fresh n" "distinct (paths n)" "length ps \<le> nr_slots n"
  shows "distinct ps"
proof (cases "length ps = nr_slots n")
  case True
  then show ?thesis using policy_once [OF assms(1-5)] by blast
next
  case False
  have "count_list ps q \<le> 1" for q
  proof (cases "q \<in> set (paths n)")
    case True
    then show ?thesis using policy_fair [OF assms(1-5) True] False assms(6) by simp
  next
    case out: False
    then have "q \<notin> set ps" using selects_list_paths [OF assms(2)] by blast
    then show ?thesis by (simp add: count_notin)
  qed
  then have "count (mset ps) q \<le> 1" for q by (metis count_mset count_list_eq_length_filter)
  then show ?thesis by (simp add: distinct_count_atmost_1 le_Suc_eq count_eq_zero_iff)
qed

text \<open>
  Claim C33. The topology tree is built for every list of CPUs: the construction terminates without
  a panic, and the tree has one leaf, and one slot, for each CPU.
\<close>

theorem from_topology_total:
  "\<exists>t. from_topology xs = Some t \<and> tree_ok t \<and> fresh t \<and> nr_slots t = max 1 (length xs) \<and>
     (if xs = [] then paths t = [[SystemRoot]] else mset (map last (paths t)) = mset (map (\<lambda>l. Cpu (cpu l)) xs))"
proof (cases "xs = []")
  case True
  then show ?thesis by (simp add: from_topology_def Let_def dense_domains_def node_new_def)
next
  case False
  obtain t where t: "from_topology xs = Some t" "tree_ok t" "fresh t" "mset (map last (paths t)) = image_mset Cpu (mset (map cpu xs))"
    using from_topology_ok [OF False] by blast
  have "nr_slots t = length xs" using tree_cpus(2) [OF t(4)] length_paths [OF t(2)] by simp
  moreover have "max 1 (length xs) = length xs" using False by (cases xs) auto
  ultimately show ?thesis using t False by (simp add: image_mset.compositionality comp_def)
qed

text \<open>
  Claim C20. Both policies place executors fairly: whatever the order in which the heaps hold equal
  items, after any number of selections from the tree of a set of distinct CPUs every CPU has been
  selected equally often, up to one, so no CPU gets a second executor before each has one.
\<close>

theorem placement_fair:
  assumes "policy pr" and "xs \<noteq> []" and "distinct (map cpu xs)" and "from_topology xs = Some t" and "selects_list pr t ps t'"
    and "c \<in> cpu ` set xs"
  shows "length ps div length xs \<le> length (filter (\<lambda>p. last p = Cpu c) ps) \<and>
     length (filter (\<lambda>p. last p = Cpu c) ps) \<le> length ps div length xs + 1"
proof -
  have t: "tree_ok t" "fresh t" "mset (map last (paths t)) = image_mset Cpu (mset (map cpu xs))"
    using from_topology_ok [OF assms(2)] assms(4) by auto
  note d = tree_cpus(3) [OF t(3) assms(3)]
  obtain q where q: "q \<in> set (paths t)" "last q = Cpu c" using tree_cpus(1) [OF t(3)] assms(6) by (metis (no_types, lifting) imageE image_eqI)
  have "last p = Cpu c \<longleftrightarrow> q = p" if "p \<in> set ps" for p
  proof -
    have "p \<in> set (paths t)" using that selects_list_paths [OF assms(5)] by blast
    then show ?thesis using q d by (metis distinct_map inj_onD)
  qed
  then have "length (filter (\<lambda>p. last p = Cpu c) ps) = count_list ps q"
    by (simp add: count_list_eq_length_filter cong: filter_cong)
  moreover have "nr_slots t = length xs" using tree_cpus(2) [OF t(3)] length_paths [OF t(1)] by simp
  moreover have "distinct (paths t)" using d by (simp add: distinct_map)
  ultimately show ?thesis using policy_fair [OF assms(1,5) t(1,2) _ q(1)] by simp
qed


definition node_example :: "cpu_location list" where
  "node_example = [\<lparr>cpu = 0, core = 0, package = 0, numa_node = 0, cache_domain = 0\<rparr>,
     \<lparr>cpu = 1, core = 0, package = 0, numa_node = 0, cache_domain = 0\<rparr>,
     \<lparr>cpu = 2, core = 1, package = 0, numa_node = 1, cache_domain = 1\<rparr>]"

theorem placement_fair_witness:
  "\<exists>t ps t'. from_topology node_example = Some t \<and> selects_list priority_pack t ps t' \<and> length ps = 7 \<and>
     2 \<le> length (filter (\<lambda>p. last p = Cpu 1) ps) \<and> length (filter (\<lambda>p. last p = Cpu 1) ps) \<le> 3"
proof -
  obtain t where t: "from_topology node_example = Some t" "tree_ok t" "fresh t"
    using from_topology_ok [of node_example] by (auto simp: node_example_def)
  obtain ps t' where ps: "select_many priority_pack 7 t = (ps, t')" by fastforce
  have "selects_list priority_pack t ps t' \<and> length ps = 7"
    using policy_many [OF _ t(2,3) ps] by (simp add: policy_def)
  then show ?thesis
    using placement_fair [of priority_pack node_example t ps t' 1] t by (auto simp: policy_def node_example_def)
qed

subsection \<open>The executors of a pool\<close>

text \<open>The CPUs on which an executor may run, by its CPU iterator; \<open>None\<close> when it is not bound.\<close>

definition path_cpu :: "level list \<Rightarrow> cpu_iter" where
  "path_cpu p = from_option (case try_from_path p of Inl _ \<Rightarrow> None | Inr l \<Rightarrow> Some l)"

lemma take_spread:
  "select_many priority_spread k t = (ps, t') \<Longrightarrow> generator_take k (GenMaxSpread t) = Some (map path_cpu ps, GenMaxSpread t')"
  by (induction k arbitrary: t ps) (auto simp: topology_next_def path_cpu_def split: prod.splits)

lemma take_pack:
  "select_many priority_pack k t = (ps, t') \<Longrightarrow> generator_take k (GenMaxPack t) = Some (map path_cpu ps, GenMaxPack t')"
  by (induction k arbitrary: t ps) (auto simp: topology_next_def path_cpu_def split: prod.splits)

lemma take_custom:
  "k \<le> length ss \<Longrightarrow> generator_take k (GenCustom ss) = Some (map IterMulti (take k (rev ss)), GenCustom (take (length ss - k) ss))"
proof (induction k arbitrary: ss)
  case (Suc k)
  then obtain us s where "ss = us @ [s]" by (metis append_butlast_last_id length_0_conv not_less_eq_eq zero_le)
  then show ?case using Suc by simp
qed simp

lemma take_unbound: "generator_take k GenUnbound = Some (replicate k IterUnbound, GenUnbound)"
  by (induction k) auto

lemma take_fenced: "generator_take k (GenFenced cs) = Some (replicate k (IterMulti cs), GenFenced cs)"
  by (induction k) auto

lemma and_then_Inr [simp]: "and_then r f = Inr y \<longleftrightarrow> (\<exists>x. r = Inr x \<and> f x = Inr y)"
  by (auto simp: and_then_def split: sum.splits)

lemma check_cpu_iff: "check_cpu online i = Inr () \<longleftrightarrow> (\<exists>on. online = Inr on \<and> i \<in> cpu ` set on)"
  by (auto simp: check_cpu_def filter_empty_conv split: sum.splits)

lemma check_cpus_iff: "check_cpus online cs = Inr () \<longleftrightarrow> (cs = [] \<or> (\<exists>on. online = Inr on \<and> cpu ` set cs \<subseteq> cpu ` set on))"
  by (induction cs) (auto simp: check_cpu_iff)

lemma check_nr_iff:
  "check_nr_cpus k cs = Inr () \<longleftrightarrow> k \<le> length cs" "check_nr_executors m k = Inr () \<longleftrightarrow> m \<le> k"
  by (auto simp: check_nr_cpus_def check_nr_executors_def Let_def)

lemma check_sets_iff:
  "check_sets online ss = Inr () \<longleftrightarrow> (ss = [] \<or> (\<exists>on. online = Inr on \<and> (\<forall>s\<in>set ss. s \<noteq> [] \<and> cpu ` set s \<subseteq> cpu ` set on)))"
  by (induction ss) (auto simp: check_nr_iff check_cpus_iff Suc_le_eq)

text \<open>The set of CPUs that a policy spreads over.\<close>

definition chosen :: "online_cpus \<Rightarrow> cpu_set option \<Rightarrow> cpu_set option" where
  "chosen online cpus = (case cpus of Some cs \<Rightarrow> Some cs | None \<Rightarrow> (case online of Inl _ \<Rightarrow> None | Inr on \<Rightarrow> Some on))"

lemma topology_set_iff:
  "topology_set online k cpus = Inr cs \<longleftrightarrow>
     1 \<le> k \<and> chosen online cpus = Some cs \<and> k \<le> length cs \<and> (\<exists>on. online = Inr on \<and> cpu ` set cs \<subseteq> cpu ` set on)"
  by (cases online; cases cpus) (auto simp: topology_set_def check_nr_iff check_cpus_iff chosen_def)


text \<open>Every CPU of the set is one that the machine reports.\<close>

definition known :: "online_cpus \<Rightarrow> cpu_set \<Rightarrow> bool" where
  "known online cs = (case online of Inl _ \<Rightarrow> False | Inr on \<Rightarrow> cpu ` set cs \<subseteq> cpu ` set on)"

text \<open>What a pool builder may ask for.\<close>

definition spreads :: "online_cpus \<Rightarrow> nat \<Rightarrow> cpu_set option \<Rightarrow> bool" where
  "spreads online k cpus = (case chosen online cpus of None \<Rightarrow> False | Some cs \<Rightarrow> 1 \<le> k \<and> k \<le> length cs \<and> known online cs)"

fun accepts :: "online_cpus \<Rightarrow> pool_placement \<Rightarrow> bool" where
  "accepts online (PoolUnbound k) = (1 \<le> k)"
| "accepts online (PoolFenced k cs) = (1 \<le> k \<and> cs \<noteq> [] \<and> known online cs)"
| "accepts online (PoolMaxSpread k cpus) = spreads online k cpus"
| "accepts online (PoolMaxPack k cpus) = spreads online k cpus"
| "accepts online (PoolCustom ss) = list_all (\<lambda>cs. cs \<noteq> [] \<and> known online cs) ss"

lemma known_iff: "known online cs \<longleftrightarrow> (\<exists>on. online = Inr on \<and> cpu ` set cs \<subseteq> cpu ` set on)"
  by (auto simp: known_def split: sum.splits)

lemma spreads_iff: "spreads online k cpus \<longleftrightarrow> (\<exists>cs. topology_set online k cpus = Inr cs)"
  by (auto simp: spreads_def topology_set_iff known_iff split: option.splits)

lemma from_topology_defined: "\<exists>t. from_topology xs = Some t"
  using from_topology_ok [of xs] by (cases "xs = []") (auto simp: from_topology_def Let_def dense_domains_def)

text \<open>
  Claim C21. Building the generator of a pool never panics, and it succeeds for exactly the
  placements that ask for at least one executor (a custom placement excepted), for non-empty sets
  of CPUs that the machine has, and, when each executor gets a CPU of its own, for no more
  executors than the set has CPUs.
\<close>

theorem pool_accepts_exactly:
  "\<exists>r. generator_pool online pl = Some r \<and> ((\<exists>g. r = Inr g) \<longleftrightarrow> accepts online pl)"
proof (cases pl)
  case (PoolUnbound k)
  then show ?thesis by (simp add: check_nr_iff)
next
  case (PoolFenced k cs)
  then show ?thesis by (auto simp: check_nr_iff check_cpus_iff known_iff Suc_le_eq)
next
  case (PoolMaxSpread k cpus)
  then show ?thesis using from_topology_defined by (fastforce simp: spreads_iff split: sum.splits)
next
  case (PoolMaxPack k cpus)
  then show ?thesis using from_topology_defined by (fastforce simp: spreads_iff split: sum.splits)
next
  case (PoolCustom ss)
  then show ?thesis by (cases online; cases ss) (auto simp: check_sets_iff check_nr_iff check_cpus_iff known_def list_all_iff Suc_le_eq)
qed

lemma selected_locations:
  assumes "xs \<noteq> []" and "from_topology xs = Some t" and "selects_list pr t ps t'"
  shows "\<forall>p\<in>set ps. \<exists>l. try_from_path p = Inr l \<and> last p = Cpu (cpu l) \<and> cpu l \<in> cpu ` set xs"
proof
  fix p
  assume "p \<in> set ps"
  then have p: "p \<in> set (paths t)" using selects_list_paths [OF assms(3)] by blast
  have t: "mset (map last (paths t)) = image_mset Cpu (mset (map cpu xs))"
    "\<forall>q\<in>set (paths t). \<exists>l. try_from_path q = Inr l \<and> last q = Cpu (cpu l)"
    using from_topology_ok [OF assms(1)] assms(2) by auto
  then obtain l where l: "try_from_path p = Inr l" "last p = Cpu (cpu l)" using p by blast
  then have "Cpu (cpu l) \<in> Cpu ` cpu ` set xs" using tree_cpus(1) [OF t(1)] p by (metis imageI)
  then show "\<exists>l. try_from_path p = Inr l \<and> last p = Cpu (cpu l) \<and> cpu l \<in> cpu ` set xs" using l by auto
qed

text \<open>
  Claim C34. The paths that the iterators yield are well formed: each one names a CPU, core, package
  and NUMA node, so it converts to a location, and its CPU is one of the set.
\<close>

theorem topology_yields_locations:
  assumes "xs \<noteq> []" and "from_topology xs = Some t" and "selects_list pr t ps t'"
  shows "\<forall>p\<in>set ps. \<exists>l. try_from_path p = Inr l \<and> last p = Cpu (cpu l) \<and> cpu l \<in> cpu ` set xs"
  by (rule selected_locations [OF assms])

theorem topology_yields_locations_witness:
  "\<exists>t ps t'. from_topology node_example = Some t \<and> selects_list priority_spread t ps t' \<and> length ps = 4 \<and>
     (\<forall>p\<in>set ps. \<exists>l. try_from_path p = Inr l \<and> last p = Cpu (cpu l) \<and> cpu l \<in> cpu ` set node_example)"
proof -
  obtain t where t: "from_topology node_example = Some t" "tree_ok t" "fresh t"
    using from_topology_ok [of node_example] by (auto simp: node_example_def)
  obtain ps t' where ps: "select_many priority_spread 4 t = (ps, t')" by fastforce
  have s: "selects_list priority_spread t ps t' \<and> length ps = 4"
    using policy_many [OF _ t(2,3) ps] by (simp add: policy_def)
  have "node_example \<noteq> []" by (simp add: node_example_def)
  then show ?thesis using topology_yields_locations [of node_example t priority_spread ps t'] s t(1) by blast
qed


text \<open>The CPU of each executor of a pool that spreads or packs, when none is left unbound.\<close>

definition singles :: "cpu_iter list \<Rightarrow> nat list option" where
  "singles its = map_option concat (those (map cpu_binding its))"

lemma path_cpu_binding: "try_from_path p = Inr l \<Longrightarrow> cpu_binding (path_cpu p) = Some [cpu l]"
  by (simp add: path_cpu_def from_option_def)

lemma singles_paths:
  "\<forall>p\<in>set ps. \<exists>l. try_from_path p = Inr l \<and> last p = Cpu (cpu l) \<Longrightarrow>
   \<exists>cs. singles (map path_cpu ps) = Some cs \<and> map Cpu cs = map last ps"
  by (induction ps) (force simp: singles_def path_cpu_binding)+

lemma spread_pool:
  assumes "policy pr" "topology_set online k cpus = Inr cs" "distinct (map cpu cs)"
  shows "\<exists>t ps t' is. from_topology cs = Some t \<and> select_many pr k t = (ps, t') \<and> length ps = k \<and>
     singles (map path_cpu ps) = Some is \<and> distinct is \<and> length is = k \<and> set is \<subseteq> cpu ` set cs"
proof -
  have cs: "cs \<noteq> []" "k \<le> length cs" using assms(2) by (auto simp: topology_set_iff)
  obtain t where t: "from_topology cs = Some t" "tree_ok t" "fresh t"
      "mset (map last (paths t)) = image_mset Cpu (mset (map cpu cs))"
      "\<forall>q\<in>set (paths t). \<exists>l. try_from_path q = Inr l \<and> last q = Cpu (cpu l)"
    using from_topology_ok [OF cs(1)] by blast
  obtain ps t' where m: "select_many pr k t = (ps, t')" by fastforce
  then have ps: "selects_list pr t ps t'" "length ps = k" using policy_many [OF assms(1) t(2,3)] by auto
  have sub: "set ps \<subseteq> set (paths t)" using selects_list_paths [OF ps(1)] by blast
  then obtain "is" where "is": "singles (map path_cpu ps) = Some is" "map Cpu is = map last ps"
    using singles_paths [of ps] t(5) by blast
  have d: "distinct (map last (paths t))" by (rule tree_cpus(3) [OF t(4) assms(3)])
  have "distinct ps"
    using once_or_less [OF assms(1) ps(1) t(2,3)] d cs(2) ps(2) tree_cpus(2) [OF t(4)] length_paths [OF t(2)]
    by (simp add: distinct_map)
  then have "distinct (map last ps)" using d sub by (auto simp: distinct_map intro: inj_on_subset)
  then have "distinct is" unfolding "is"(2) [symmetric] by (simp add: distinct_map)
  moreover have "Cpu ` set is \<subseteq> Cpu ` cpu ` set cs"
    using arg_cong [OF "is"(2), of set] tree_cpus(1) [OF t(4)] image_mono [OF sub, of last] by simp
  moreover have "length is = k" using arg_cong [OF "is"(2), of length] ps(2) by simp
  ultimately show ?thesis using t(1) m ps(2) "is"(1) by (fastforce simp: inj_image_subset_iff inj_def)
qed

text \<open>
  In an accepted pool that spreads or packs its executors over a set of distinct CPUs,
  taking one iterator per executor gives each of them exactly one CPU of the set, and no two
  executors the same one.
\<close>

lemma pool_executors_apart:
  assumes "pl \<in> {PoolMaxSpread k cpus, PoolMaxPack k cpus}" and "accepts online pl" and "chosen online cpus = Some cs"
    and "distinct (map cpu cs)"
  shows "\<exists>g its g' is. generator_pool online pl = Some (Inr g) \<and> generator_take k g = Some (its, g') \<and>
     singles its = Some is \<and> length is = k \<and> distinct is \<and> set is \<subseteq> cpu ` set cs"
proof -
  have "spreads online k cpus" using assms(1,2) by auto
  then have ts: "topology_set online k cpus = Inr cs" using assms(3) by (auto simp: spreads_iff topology_set_iff)
  show ?thesis using assms(1)
  proof (elim insertE emptyE)
    assume "pl = PoolMaxSpread k cpus"
    then show ?thesis using spread_pool [OF _ ts assms(4), of priority_spread] ts by (auto simp: policy_def dest: take_spread)
  next
    assume "pl = PoolMaxPack k cpus"
    then show ?thesis using spread_pool [OF _ ts assms(4), of priority_pack] ts by (auto simp: policy_def dest: take_pack)
  qed
qed

lemma spread_served:
  assumes "policy pr" "topology_set online k cpus = Inr cs" "from_topology cs = Some t"
  shows "\<exists>ps t'. select_many pr k t = (ps, t') \<and> length ps = k \<and>
     (\<forall>p\<in>set ps. \<forall>is. cpu_binding (path_cpu p) = Some is \<longrightarrow> is \<noteq> [] \<and> (\<exists>on. online = Inr on \<and> set is \<subseteq> cpu ` set on))"
proof -
  obtain on where cs: "cs \<noteq> []" "online = Inr on" "cpu ` set cs \<subseteq> cpu ` set on"
    using assms(2) by (cases cs) (auto simp: topology_set_iff)
  have t: "tree_ok t" "fresh t" using from_topology_ok [OF cs(1)] assms(3) by auto
  obtain ps t' where m: "select_many pr k t = (ps, t')" by fastforce
  then have ps: "selects_list pr t ps t'" "length ps = k" using policy_many [OF assms(1) t] by auto
  then show ?thesis using m cs selected_locations [OF cs(1) assms(3) ps(1)] path_cpu_binding by fastforce
qed

text \<open>
  An accepted pool serves every executor it was asked for: as many calls of the generator
  as it has executors return without the panic of an exhausted custom placement, and an executor
  that is bound at all is bound to one or more CPUs that the machine has.
\<close>

lemma pool_serves_all:
  assumes "accepts online pl" and "generator_pool online pl = Some (Inr g)" and "k = executor_count pl"
  shows "\<exists>its g'. generator_take k g = Some (its, g') \<and> length its = k \<and>
     (\<forall>it\<in>set its. \<forall>is. cpu_binding it = Some is \<longrightarrow> is \<noteq> [] \<and> (\<exists>on. online = Inr on \<and> set is \<subseteq> cpu ` set on))"
proof (cases pl)
  case (PoolUnbound n)
  then show ?thesis using assms by (auto simp: take_unbound)
next
  case (PoolFenced n cs)
  then show ?thesis using assms by (auto simp: take_fenced known_iff)
next
  case (PoolMaxSpread n cpus)
  then obtain cs t where "topology_set online n cpus = Inr cs" "from_topology cs = Some t" "g = GenMaxSpread t"
    using assms(2) by (auto split: sum.splits)
  then show ?thesis using spread_served [of priority_spread online n cpus cs t] assms(3) PoolMaxSpread
    by (auto simp: policy_def dest!: take_spread)
next
  case (PoolMaxPack n cpus)
  then obtain cs t where "topology_set online n cpus = Inr cs" "from_topology cs = Some t" "g = GenMaxPack t"
    using assms(2) by (auto split: sum.splits)
  then show ?thesis using spread_served [of priority_pack online n cpus cs t] assms(3) PoolMaxPack
    by (auto simp: policy_def dest!: take_pack)
next
  case (PoolCustom ss)
  then show ?thesis using assms by (auto simp: take_custom list_all_iff known_iff)
qed

text \<open>
  A pool of no executors is refused, with a message that has its two numbers
  the wrong way round.
\<close>

lemma nr_shards_message:
  "\<exists>e. generator_pool online (PoolUnbound 0) = Some (Inl e) \<and> e = BuilderError (NrShards 1 0) \<and>
     display_error f e = ''Executor builder error: requested 1 shards but a minimum of 0 is required''"
  by (simp add: and_then_def check_nr_executors_def, code_simp)

definition two_sockets :: "cpu_location list" where
  "two_sockets = [\<lparr>cpu = 0, core = 0, package = 0, numa_node = 0, cache_domain = 0\<rparr>,
     \<lparr>cpu = 1, core = 0, package = 1, numa_node = 0, cache_domain = 1\<rparr>]"

text \<open>
  On a machine with one NUMA node and two packages of one core each, where the cores of
  both packages have id 0, the renumbering gives both cores the same id, and the tree then holds
  both CPUs below the first package: a pool that spreads reports package 0 for CPU 1.
\<close>

lemma package_misreported:
  "map package two_sockets = [0, 1] \<and>
   map_option (\<lambda>t. map (\<lambda>p. map_sum id (\<lambda>l. (cpu l, package l)) (try_from_path p)) (paths t))
     (from_topology (machine_topology two_sockets)) = Some [Inr (0, 0), Inr (1, 0)]"
  by code_simp

end
