(* ===== verification/TaskQueues.thy ===== *)
theory TaskQueues
  imports Errors
begin

section \<open>Task queues and their scheduler (glommio/src/executor/mod.rs, context.rs, glommio/src/shares.rs)\<close>

text \<open>
  The queues of an executor, the heap of the active ones, and the scheduler that runs the queue
  with the least virtual runtime. A queue is named by its index: the heap, the queue that is executing and
  the map of available queues all refer to it by that. The heap is the list of its items; it
  yields one with the least virtual runtime, and which of several is not specified, so the choice is an argument of
  the operation. A task is a number, its runnable is queued, and what it does while it runs are
  further operations. Virtual runtimes are 64-bit: their arithmetic is written out on natural numbers.
  Instants and durations are natural numbers, in nanoseconds. The detector of stalls, the
  cleanup that an executor does while it shuts down and the I/O requirements handed to the reactor are not modelled.
\<close>

subsection \<open>Shares\<close>

text \<open>A manager of dynamic shares is user code: what it answers depends on when it is asked.\<close>

datatype shares = Static nat | Dynamic "nat \<Rightarrow> nat" "nat \<Rightarrow> nat" \<comment> \<open>shares, adjustment period\<close>

definition shares_default :: shares where
  "shares_default = Static 1000"

definition reciprocal_shares :: "nat \<Rightarrow> shares \<Rightarrow> nat" where
  "reciprocal_shares now sh =
     (let s = (case sh of Static n \<Rightarrow> n | Dynamic f _ \<Rightarrow> f now); s = max s 1; s = min s 1000 in 2 ^ 22 div s)"

subsection \<open>Queues\<close>

datatype latency = Matters nat | NotImportant

record tq_stats =
  ts_reciprocal_shares :: nat
  ts_queue_selected :: nat
  ts_runtime :: nat

definition tq_stats_new :: "nat \<Rightarrow> tq_stats" where
  "tq_stats_new r = \<lparr>ts_reciprocal_shares = r, ts_queue_selected = 0, ts_runtime = 0\<rparr>"

definition current_shares :: "tq_stats \<Rightarrow> nat" where
  "current_shares st = 2 ^ 22 div ts_reciprocal_shares st"

definition tq_stats_take :: "tq_stats \<Rightarrow> tq_stats \<times> tq_stats" where
  "tq_stats_take st = (st, st\<lparr>ts_queue_selected := 0, ts_runtime := 0\<rparr>)"

record task_queue =
  tq_runnables :: "nat list"
  tq_active :: bool
  tq_shares :: shares
  tq_vruntime :: nat
  tq_latency :: latency
  tq_last_adjustment :: nat
  tq_yielded :: bool
  tq_stats_of :: tq_stats

definition task_queue_new :: "nat \<Rightarrow> shares \<Rightarrow> latency \<Rightarrow> task_queue" where
  "task_queue_new now sh lat =
     \<lparr>tq_runnables = [], tq_active = False, tq_shares = sh, tq_vruntime = 0, tq_latency = lat, tq_last_adjustment = now,
      tq_yielded = False, tq_stats_of = tq_stats_new (reciprocal_shares now sh)\<rparr>"

definition get_task :: "task_queue \<Rightarrow> nat option \<times> task_queue" where
  "get_task q = (case tq_runnables q of [] \<Rightarrow> (None, q) | t # ts \<Rightarrow> (Some t, q\<lparr>tq_runnables := ts\<rparr>))"

definition prepare_to_run :: "nat \<Rightarrow> task_queue \<Rightarrow> task_queue" where
  "prepare_to_run now q =
     (let q = q\<lparr>tq_yielded := False\<rparr>
      in case tq_shares q of
           Static _ \<Rightarrow> q
         | Dynamic _ period \<Rightarrow>
             (if now - tq_last_adjustment q > period now
              then q\<lparr>tq_last_adjustment := now,
                     tq_stats_of := (tq_stats_of q)\<lparr>ts_reciprocal_shares := reciprocal_shares now (tq_shares q)\<rparr>\<rparr>
              else q))"

definition delta_scaled :: "nat \<Rightarrow> task_queue \<Rightarrow> nat" where
  "delta_scaled delta q = (ts_reciprocal_shares (tq_stats_of q) * (delta mod 2 ^ 64)) mod 2 ^ 64 div 2 ^ 12"

definition account_vruntime :: "nat \<Rightarrow> task_queue \<Rightarrow> nat option \<times> task_queue" where
  "account_vruntime delta q =
     (let d = delta_scaled delta q;
          st = tq_stats_of q;
          q1 = q\<lparr>tq_stats_of := st\<lparr>ts_runtime := ts_runtime st + delta, ts_queue_selected := ts_queue_selected st + 1\<rparr>,
                 tq_active := tq_runnables q \<noteq> []\<rparr>
      in if tq_vruntime q + d < 2 ^ 64 then (Some (tq_vruntime q + d), q1\<lparr>tq_vruntime := tq_vruntime q + d\<rparr>) else (None, q1))"

subsection \<open>The queues of an executor\<close>

record exec_queues =
  eq_active :: "nat list"
  eq_available :: "nat \<Rightarrow> task_queue option"
  eq_executing :: "nat option"
  eq_index :: nat
  eq_default_vruntime :: nat
  eq_preempt :: nat
  eq_default_preempt :: nat
  eq_scheduler_runs :: nat
  eq_tasks_executed :: nat
  eq_this_loop :: nat \<comment> \<open>the tasks executed since the queue was chosen\<close>
  eq_runtime :: nat

definition exec_queues_new :: "nat \<Rightarrow> exec_queues" where
  "exec_queues_new preempt =
     \<lparr>eq_active = [], eq_available = Map.empty, eq_executing = None, eq_index = 1, eq_default_vruntime = 0, eq_preempt = preempt,
      eq_default_preempt = preempt, eq_scheduler_runs = 0, eq_tasks_executed = 0, eq_this_loop = 0, eq_runtime = 0\<rparr>"

definition exec_init :: "nat \<Rightarrow> exec_queues \<Rightarrow> exec_queues" where
  "exec_init now e = e\<lparr>eq_available := (eq_available e)(0 \<mapsto> task_queue_new now (Static 1000) NotImportant)\<rparr>"

definition vruntime_of :: "exec_queues \<Rightarrow> nat \<Rightarrow> nat" where
  "vruntime_of e i = (case eq_available e i of None \<Rightarrow> 0 | Some q \<Rightarrow> tq_vruntime q)"

definition preempt_of :: "exec_queues \<Rightarrow> nat \<Rightarrow> nat" where
  "preempt_of e i =
     (case eq_available e i of
        None \<Rightarrow> eq_default_preempt e
      | Some q \<Rightarrow> (case tq_latency q of NotImportant \<Rightarrow> eq_default_preempt e | Matters d \<Rightarrow> d))"

definition min_list_or :: "nat \<Rightarrow> nat list \<Rightarrow> nat" where
  "min_list_or d xs = (case xs of [] \<Rightarrow> d | _ \<Rightarrow> min_list xs)"

definition reevaluate_preempt_timer :: "exec_queues \<Rightarrow> exec_queues" where
  "reevaluate_preempt_timer e = e\<lparr>eq_preempt := min_list_or (eq_default_preempt e) (map (preempt_of e) (eq_active e))\<rparr>"

definition queue_upd :: "nat \<Rightarrow> task_queue \<Rightarrow> exec_queues \<Rightarrow> exec_queues" where
  "queue_upd i q e = e\<lparr>eq_available := (eq_available e)(i \<mapsto> q)\<rparr>"

definition maybe_activate :: "nat \<Rightarrow> exec_queues \<Rightarrow> exec_queues option" where
  "maybe_activate i e =
     map_option (\<lambda>q.
       if tq_active q then e
       else reevaluate_preempt_timer
         ((queue_upd i (q\<lparr>tq_vruntime := (eq_default_vruntime e + 1) mod 2 ^ 64, tq_active := True\<rparr>) e)\<lparr>eq_active := i # eq_active e\<rparr>))
     (eq_available e i)"

subsection \<open>The context of an executor (context.rs)\<close>

definition create_task_queue :: "nat \<Rightarrow> shares \<Rightarrow> latency \<Rightarrow> exec_queues \<Rightarrow> nat \<times> exec_queues" where
  "create_task_queue now sh lat e =
     (let i = eq_index e in (i, queue_upd i (task_queue_new now sh lat) (e\<lparr>eq_index := i + 1\<rparr>)))"

text \<open>Any available queue serves when the default queue is gone; \<open>other\<close> is the one the map yields first.\<close>

definition cleanup_queue :: "nat \<Rightarrow> nat \<Rightarrow> exec_queues \<Rightarrow> nat \<times> exec_queues" where
  "cleanup_queue now other e =
     (if eq_available e 0 \<noteq> None then (0, e)
      else if eq_available e other \<noteq> None then (other, e)
      else create_task_queue now shares_default NotImportant e)"

definition ctx_schedule :: "nat \<Rightarrow> nat \<Rightarrow> exec_queues \<Rightarrow> exec_queues option" where
  "ctx_schedule i t e =
     Option.bind (eq_available e i) (\<lambda>q. maybe_activate i (queue_upd i (q\<lparr>tq_runnables := tq_runnables q @ [t]\<rparr>) e))"

text \<open>
  The schedule function of a task on its own executor; the task of a removed queue is cancelled, which
  its own state records, and goes to a queue that will drop it.
\<close>

definition scheduler_schedule :: "nat \<Rightarrow> nat \<Rightarrow> nat \<Rightarrow> nat \<Rightarrow> exec_queues \<Rightarrow> exec_queues option" where
  "scheduler_schedule now other i t e =
     (case eq_available e i of
        Some _ \<Rightarrow> ctx_schedule i t e
      | None \<Rightarrow> (case cleanup_queue now other e of (j, e1) \<Rightarrow> ctx_schedule j t e1))"

definition current_task_queue :: "exec_queues \<Rightarrow> nat option" where
  "current_task_queue e = eq_executing e"

definition mark_me_for_yield :: "exec_queues \<Rightarrow> exec_queues option" where
  "mark_me_for_yield e =
     Option.bind (eq_executing e) (\<lambda>i. Option.bind (eq_available e i) (\<lambda>q. Some (queue_upd i (q\<lparr>tq_yielded := True\<rparr>) e)))"

text \<open>The queue that a task spawned here belongs to; it runs at once, without being queued.\<close>

definition spawn_internal :: "exec_queues \<Rightarrow> nat option" where
  "spawn_internal e =
     (case eq_executing e of Some i \<Rightarrow> Some i | None \<Rightarrow> (case eq_available e 0 of Some _ \<Rightarrow> Some 0 | None \<Rightarrow> None))"

definition ctx_spawn_into :: "nat \<Rightarrow> nat \<Rightarrow> nat \<Rightarrow> nat \<Rightarrow> exec_queues \<Rightarrow> ((unit, unit glommio_error) result \<times> exec_queues) option" where
  "ctx_spawn_into now other t i e =
     (case eq_available e i of
        None \<Rightarrow> Some (Inl (ExecutorError (QueueError i QueueNotFound)), e)
      | Some _ \<Rightarrow> map_option (Pair (Inr ())) (scheduler_schedule now other i t e))"

definition remove_task_queue :: "nat \<Rightarrow> exec_queues \<Rightarrow> (unit, unit glommio_error) result \<times> exec_queues" where
  "remove_task_queue i e =
     (if eq_executing e = Some i then (Inl (ExecutorError (QueueError i StillActive)), e)
      else case eq_available e i of
             Some q \<Rightarrow>
               (if tq_active q then (Inl (ExecutorError (QueueError i StillActive)), e)
                else (Inr (), e\<lparr>eq_available := (eq_available e)(i := None)\<rparr>))
           | None \<Rightarrow> (Inl (ExecutorError (QueueError i QueueNotFound)), e))"

definition task_queue_stats :: "nat \<Rightarrow> exec_queues \<Rightarrow> (tq_stats, unit glommio_error) result \<times> exec_queues" where
  "task_queue_stats i e =
     (case eq_available e i of
        Some q \<Rightarrow> (case tq_stats_take (tq_stats_of q) of (st, st') \<Rightarrow> (Inr st, queue_upd i (q\<lparr>tq_stats_of := st'\<rparr>) e))
      | None \<Rightarrow> (Inl (ExecutorError (QueueError i QueueNotFound)), e))"

subsection \<open>Running one queue\<close>

text \<open>
  \<^verbatim>\<open>run_one_task_queue\<close> in three parts: the choice of a queue, one turn of the loop that runs its
  tasks, and what follows the loop. The loop ends when the queue is empty, when it was yielded or
  when the reactor asks for preemption, which may happen at any time.
\<close>

definition least_active :: "nat \<Rightarrow> exec_queues \<Rightarrow> bool" where
  "least_active i e \<longleftrightarrow> i \<in> set (eq_active e) \<and> list_all (\<lambda>j. vruntime_of e i \<le> vruntime_of e j) (eq_active e)"

definition queue_run_idle :: "exec_queues \<Rightarrow> exec_queues" where
  "queue_run_idle e = e\<lparr>eq_scheduler_runs := eq_scheduler_runs e + 1\<rparr>"

definition queue_run_start :: "nat \<Rightarrow> nat \<Rightarrow> exec_queues \<Rightarrow> exec_queues option" where
  "queue_run_start now i e =
     map_option (\<lambda>q. queue_upd i (prepare_to_run now q)
       (e\<lparr>eq_active := remove1 i (eq_active e), eq_scheduler_runs := eq_scheduler_runs e + 1, eq_executing := Some i, eq_this_loop := 0\<rparr>))
     (eq_available e i)"

definition queue_run_task :: "exec_queues \<Rightarrow> (nat option \<times> exec_queues) option" where
  "queue_run_task e =
     Option.bind (eq_executing e) (\<lambda>i. Option.bind (eq_available e i) (\<lambda>q.
       if tq_yielded q then Some (None, e)
       else case get_task q of (t, q') \<Rightarrow>
         Some (t, (queue_upd i q' e)\<lparr>eq_this_loop := eq_this_loop e + (case t of None \<Rightarrow> 0 | Some _ \<Rightarrow> 1)\<rparr>)))"

definition reset_vruntimes :: "exec_queues \<Rightarrow> exec_queues" where
  "reset_vruntimes e = e\<lparr>eq_available := (\<lambda>j. map_option (\<lambda>q. q\<lparr>tq_vruntime := 0\<rparr>) (eq_available e j))\<rparr>"

definition queue_run_end :: "nat \<Rightarrow> exec_queues \<Rightarrow> exec_queues option" where
  "queue_run_end runtime e =
     Option.bind (eq_executing e) (\<lambda>i. Option.bind (eq_available e i) (\<lambda>q.
       let (last, q1) = account_vruntime runtime q;
           e1 = (queue_upd i q1 e)\<lparr>eq_executing := None, eq_runtime := eq_runtime e + runtime,
             eq_tasks_executed := eq_tasks_executed e + eq_this_loop e\<rparr>;
           (v, e2) = (case last of
               Some x \<Rightarrow> (x, e1)
             | None \<Rightarrow> (0, reset_vruntimes e1));
           e3 = (if tq_active q1 then e2\<lparr>eq_active := i # eq_active e2\<rparr> else reevaluate_preempt_timer e2)
       in Some (e3\<lparr>eq_default_vruntime := min_list_or v (map (vruntime_of e3) (eq_active e3))\<rparr>)))"

subsection \<open>An executor in use\<close>

datatype qop =
    QCreate nat shares latency | QRemove nat | QSchedule nat nat nat nat | QSpawnInto nat nat nat nat | QSpawn | QYield | QStats nat
  | QIdle | QStart nat nat | QTask | QEnd nat

fun q_exec :: "qop \<Rightarrow> exec_queues \<Rightarrow> exec_queues option" where
  "q_exec (QCreate now sh lat) e = Some (snd (create_task_queue now sh lat e))"
| "q_exec (QRemove i) e = Some (snd (remove_task_queue i e))"
| "q_exec (QSchedule now other i t) e = scheduler_schedule now other i t e"
| "q_exec (QSpawnInto now other t i) e = map_option snd (ctx_spawn_into now other t i e)"
| "q_exec QSpawn e = map_option (\<lambda>_. e) (spawn_internal e)"
| "q_exec QYield e = mark_me_for_yield e"
| "q_exec (QStats i) e = Some (snd (task_queue_stats i e))"
| "q_exec QIdle e = Some (queue_run_idle e)"
| "q_exec (QStart now i) e = queue_run_start now i e"
| "q_exec QTask e = map_option snd (queue_run_task e)"
| "q_exec (QEnd r) e = queue_run_end r e"

definition some_available :: "exec_queues \<Rightarrow> bool" where
  "some_available e = list_ex (\<lambda>j. eq_available e j \<noteq> None) [0..<eq_index e]"

text \<open>The scheduler chooses a queue when none is executing, and the heap yields one with the least virtual runtime.\<close>

fun q_enabled :: "qop \<Rightarrow> exec_queues \<Rightarrow> bool" where
  "q_enabled (QSchedule now other i t) e =
     (some_available e \<and> eq_available e 0 = None \<and> eq_available e i = None \<longrightarrow> eq_available e other \<noteq> None)"
| "q_enabled QYield e = (eq_executing e \<noteq> None)"
| "q_enabled QIdle e = (eq_executing e = None \<and> eq_active e = [])"
| "q_enabled (QStart now i) e = (eq_executing e = None \<and> least_active i e)"
| "q_enabled QTask e = (eq_executing e \<noteq> None)"
| "q_enabled (QEnd r) e = (eq_executing e \<noteq> None)"
| "q_enabled _ e = True"

inductive q_step :: "exec_queues \<Rightarrow> exec_queues \<Rightarrow> bool" where
  "q_enabled op e \<Longrightarrow> q_exec op e = Some e' \<Longrightarrow> q_step e e'"

inductive_cases q_stepE: "q_step e e'"

definition q_init :: "exec_queues \<Rightarrow> bool" where
  "q_init e \<longleftrightarrow> (\<exists>preempt now. e = exec_init now (exec_queues_new preempt))"

subsection \<open>No queue with work is forgotten\<close>

definition qactive :: "exec_queues \<Rightarrow> nat \<Rightarrow> bool" where
  "qactive e i = (case eq_available e i of None \<Rightarrow> False | Some q \<Rightarrow> tq_active q)"

definition qwork :: "exec_queues \<Rightarrow> nat \<Rightarrow> bool" where
  "qwork e i = (case eq_available e i of None \<Rightarrow> False | Some q \<Rightarrow> tq_runnables q \<noteq> [])"

definition q_inv :: "exec_queues \<Rightarrow> bool" where
  "q_inv e \<longleftrightarrow> distinct (eq_active e) \<and> (\<forall>i. i \<in> set (eq_active e) \<longleftrightarrow> qactive e i \<and> eq_executing e \<noteq> Some i) \<and>
     (\<forall>i. eq_executing e = Some i \<longrightarrow> qactive e i) \<and> (\<forall>i. qwork e i \<longrightarrow> qactive e i) \<and>
     (\<forall>i. eq_index e \<le> i \<longrightarrow> eq_available e i = None)"

lemma queue_upd_views [simp]:
  "qactive (queue_upd i q e) j = (if j = i then tq_active q else qactive e j)"
  "qwork (queue_upd i q e) j = (if j = i then tq_runnables q \<noteq> [] else qwork e j)"
  "eq_available (queue_upd i q e) = (eq_available e)(i \<mapsto> q)"
  "eq_active (queue_upd i q e) = eq_active e" "eq_executing (queue_upd i q e) = eq_executing e"
  "eq_index (queue_upd i q e) = eq_index e" "eq_default_vruntime (queue_upd i q e) = eq_default_vruntime e"
  "vruntime_of (queue_upd i q e) j = (if j = i then tq_vruntime q else vruntime_of e j)"
  by (simp_all add: queue_upd_def qactive_def qwork_def vruntime_of_def)

lemma view_frames [simp]:
  "qactive (e\<lparr>eq_active := a\<rparr>) = qactive e" "qactive (e\<lparr>eq_executing := x\<rparr>) = qactive e" "qactive (e\<lparr>eq_index := n\<rparr>) = qactive e"
  "qactive (e\<lparr>eq_preempt := p\<rparr>) = qactive e" "qactive (e\<lparr>eq_default_vruntime := p\<rparr>) = qactive e" "qactive (e\<lparr>eq_scheduler_runs := p\<rparr>) = qactive e"
  "qactive (e\<lparr>eq_tasks_executed := p\<rparr>) = qactive e" "qactive (e\<lparr>eq_this_loop := p\<rparr>) = qactive e" "qactive (e\<lparr>eq_runtime := p\<rparr>) = qactive e"
  "qwork (e\<lparr>eq_active := a\<rparr>) = qwork e" "qwork (e\<lparr>eq_executing := x\<rparr>) = qwork e" "qwork (e\<lparr>eq_index := n\<rparr>) = qwork e"
  "qwork (e\<lparr>eq_preempt := p\<rparr>) = qwork e" "qwork (e\<lparr>eq_default_vruntime := p\<rparr>) = qwork e" "qwork (e\<lparr>eq_scheduler_runs := p\<rparr>) = qwork e"
  "qwork (e\<lparr>eq_tasks_executed := p\<rparr>) = qwork e" "qwork (e\<lparr>eq_this_loop := p\<rparr>) = qwork e" "qwork (e\<lparr>eq_runtime := p\<rparr>) = qwork e"
  "vruntime_of (e\<lparr>eq_active := a\<rparr>) = vruntime_of e" "vruntime_of (e\<lparr>eq_executing := x\<rparr>) = vruntime_of e"
  "vruntime_of (e\<lparr>eq_index := n\<rparr>) = vruntime_of e" "vruntime_of (e\<lparr>eq_preempt := p\<rparr>) = vruntime_of e"
  "vruntime_of (e\<lparr>eq_default_vruntime := p\<rparr>) = vruntime_of e" "vruntime_of (e\<lparr>eq_scheduler_runs := p\<rparr>) = vruntime_of e"
  "vruntime_of (e\<lparr>eq_tasks_executed := p\<rparr>) = vruntime_of e" "vruntime_of (e\<lparr>eq_this_loop := p\<rparr>) = vruntime_of e"
  "vruntime_of (e\<lparr>eq_runtime := p\<rparr>) = vruntime_of e"
  by (simp_all add: qactive_def qwork_def vruntime_of_def fun_eq_iff)

lemma reevaluate_views [simp]:
  "qactive (reevaluate_preempt_timer e) = qactive e" "qwork (reevaluate_preempt_timer e) = qwork e"
  "eq_available (reevaluate_preempt_timer e) = eq_available e" "eq_active (reevaluate_preempt_timer e) = eq_active e"
  "eq_executing (reevaluate_preempt_timer e) = eq_executing e" "eq_index (reevaluate_preempt_timer e) = eq_index e"
  "eq_default_vruntime (reevaluate_preempt_timer e) = eq_default_vruntime e" "vruntime_of (reevaluate_preempt_timer e) = vruntime_of e"
  by (simp_all add: reevaluate_preempt_timer_def)

lemma qactive_iff: "qactive e i \<longleftrightarrow> (\<exists>q. eq_available e i = Some q \<and> tq_active q)"
  by (auto simp: qactive_def split: option.splits)

lemma q_invD:
  assumes "q_inv e"
  shows "distinct (eq_active e)" "i \<in> set (eq_active e) \<longleftrightarrow> qactive e i \<and> eq_executing e \<noteq> Some i" "eq_executing e = Some i \<Longrightarrow> qactive e i"
    "qwork e i \<Longrightarrow> qactive e i" "eq_index e \<le> i \<Longrightarrow> eq_available e i = None"
  using assms by (auto simp: q_inv_def)

lemma activate_ok:
  assumes "q_inv e" "eq_available e i = Some q" "tq_active q' = tq_active q"
  shows "\<exists>e'. maybe_activate i (queue_upd i q' e) = Some e' \<and> q_inv e'"
proof (cases "tq_active q")
  case True
  then have "q_inv (queue_upd i q' e)" using assms by (auto simp: q_inv_def qactive_def)
  then show ?thesis using True assms(3) by (simp add: maybe_activate_def)
next
  case False
  then have "\<not> qactive e i" using assms(2) by (simp add: qactive_def)
  then show ?thesis using False assms q_invD [OF assms(1)] by (auto simp: maybe_activate_def q_inv_def)
qed

lemma ctx_schedule_ok:
  assumes "q_inv e" "eq_available e i \<noteq> None"
  shows "\<exists>e'. ctx_schedule i t e = Some e' \<and> q_inv e'"
proof -
  obtain q where q: "eq_available e i = Some q" using assms(2) by blast
  then show ?thesis using activate_ok [OF assms(1) q, of "q\<lparr>tq_runnables := tq_runnables q @ [t]\<rparr>"] by (simp add: ctx_schedule_def)
qed

lemma create_ok:
  assumes "q_inv e" "create_task_queue now sh lat e = (i, e')"
  shows "q_inv e' \<and> eq_available e' i \<noteq> None"
proof -
  have "eq_available e (eq_index e) = None" using q_invD(5) [OF assms(1)] by simp
  then have "\<not> qactive e (eq_index e)" by (simp add: qactive_def)
  then show ?thesis
    using assms(2) q_invD [OF assms(1)] by (auto simp: q_inv_def create_task_queue_def Let_def task_queue_new_def split: if_splits)
qed

lemma cleanup_ok:
  assumes "q_inv e" "cleanup_queue now other e = (j, e')"
  shows "q_inv e' \<and> eq_available e' j \<noteq> None"
  using assms create_ok [OF assms(1)] by (auto simp: cleanup_queue_def split: if_splits)

lemma scheduler_ok:
  assumes "q_inv e"
  shows "\<exists>e'. scheduler_schedule now other i t e = Some e' \<and> q_inv e'"
proof (cases "eq_available e i")
  case None
  obtain j e1 where "cleanup_queue now other e = (j, e1)" by fastforce
  then show ?thesis using None cleanup_ok [OF assms] ctx_schedule_ok [of e1 j t] by (simp add: scheduler_schedule_def)
qed (use ctx_schedule_ok [OF assms] in \<open>simp add: scheduler_schedule_def\<close>)

lemma prepare_sel [simp]:
  "tq_active (prepare_to_run now q) = tq_active q" "tq_runnables (prepare_to_run now q) = tq_runnables q"
  "tq_vruntime (prepare_to_run now q) = tq_vruntime q" "tq_latency (prepare_to_run now q) = tq_latency q"
  by (simp_all add: prepare_to_run_def Let_def split: shares.splits)

lemma q_inv_upd:
  assumes "q_inv e" "eq_available e i = Some q" "tq_active q' = tq_active q" "tq_runnables q' \<noteq> [] \<Longrightarrow> tq_active q'"
  shows "q_inv (queue_upd i q' e)"
  using assms by (auto simp: q_inv_def qactive_def)

lemma queue_run_start_ok:
  assumes "q_inv e" "eq_executing e = None" "i \<in> set (eq_active e)"
  shows "\<exists>e'. queue_run_start now i e = Some e' \<and> q_inv e'"
proof -
  obtain q where q: "eq_available e i = Some q" "tq_active q" using q_invD(2) [OF assms(1)] assms(3) by (auto simp: qactive_iff)
  then show ?thesis using q_invD [OF assms(1)] assms(2,3) by (auto simp: queue_run_start_def q_inv_def)
qed

lemma queue_run_task_ok:
  assumes "q_inv e" "eq_executing e = Some i"
  shows "\<exists>t e'. queue_run_task e = Some (t, e') \<and> q_inv e'"
proof -
  obtain q where q: "eq_available e i = Some q" "tq_active q" using q_invD(3) [OF assms] by (auto simp: qactive_iff)
  have "q_inv (queue_upd i q' e)" if "tq_active q'" for q' using q_inv_upd [OF assms(1) q(1)] q(2) that by simp
  then show ?thesis using assms q by (auto simp: queue_run_task_def get_task_def q_inv_def split: list.splits)
qed

lemma reset_views [simp]:
  "qactive (reset_vruntimes e) = qactive e" "qwork (reset_vruntimes e) = qwork e" "vruntime_of (reset_vruntimes e) j = 0"
  "eq_active (reset_vruntimes e) = eq_active e" "eq_executing (reset_vruntimes e) = eq_executing e"
  "eq_index (reset_vruntimes e) = eq_index e" "(eq_available (reset_vruntimes e) j = None) = (eq_available e j = None)"
  by (auto simp: reset_vruntimes_def qactive_def qwork_def vruntime_of_def fun_eq_iff split: option.splits)

text \<open>What remains to be seen of the end of a run.\<close>

definition ended :: "nat \<Rightarrow> nat \<Rightarrow> exec_queues \<Rightarrow> exec_queues \<Rightarrow> bool" where
  "ended i d e e' \<longleftrightarrow> eq_executing e' = None \<and> eq_active e' = (if qwork e i then i # eq_active e else eq_active e) \<and>
     (\<forall>j. qactive e' j = (if j = i then qwork e i else qactive e j)) \<and> (\<forall>j. qwork e' j = qwork e j) \<and> eq_index e' = eq_index e \<and>
     (\<forall>j. (eq_available e' j = None) = (eq_available e j = None)) \<and>
     (\<forall>j. vruntime_of e' j = (if vruntime_of e i + d < 2 ^ 64 then (if j = i then vruntime_of e i + d else vruntime_of e j) else 0)) \<and>
     eq_default_vruntime e' = min_list_or (vruntime_of e' i) (map (vruntime_of e') (eq_active e'))"

lemma run_end_ended:
  assumes "eq_executing e = Some i" "eq_available e i = Some q"
  shows "\<exists>e'. queue_run_end r e = Some e' \<and> ended i (delta_scaled r q) e e'"
proof -
  have v: "vruntime_of e i = tq_vruntime q" "qwork e i = (tq_runnables q \<noteq> [])" using assms(2) by (auto simp: vruntime_of_def qwork_def)
  show ?thesis
  proof (cases "tq_vruntime q + delta_scaled r q < 2 ^ 64")
    case True
    then show ?thesis using assms v by (auto simp: queue_run_end_def account_vruntime_def Let_def ended_def)
  next
    case False
    then show ?thesis using assms v by (auto simp: queue_run_end_def account_vruntime_def Let_def ended_def)
  qed
qed

lemma ended_inv:
  assumes "q_inv e" "eq_executing e = Some i" "ended i d e e'"
  shows "q_inv e'"
  using q_invD [OF assms(1)] assms(2,3) by (auto simp: q_inv_def ended_def split: if_splits)

lemma queue_run_end_ok:
  assumes "q_inv e" "eq_executing e = Some i"
  shows "\<exists>e'. queue_run_end r e = Some e' \<and> q_inv e'"
proof -
  obtain q where "eq_available e i = Some q" using q_invD(3) [OF assms] by (auto simp: qactive_iff)
  then show ?thesis using run_end_ended [OF assms(2)] ended_inv [OF assms] by blast
qed

lemma q_exec_ok:
  assumes "q_inv e" "q_enabled op e" "op = QSpawn \<Longrightarrow> spawn_internal e \<noteq> None"
  shows "\<exists>e'. q_exec op e = Some e' \<and> q_inv e'"
proof (cases op)
  case QSpawn
  then show ?thesis using assms(1,3) by auto
next
  case (QCreate now sh lat)
  then show ?thesis using create_ok [OF assms(1), of now sh lat] by (cases "create_task_queue now sh lat e") auto
next
  case (QRemove i)
  have "q_inv (e\<lparr>eq_available := (eq_available e)(i := None)\<rparr>)" if "eq_executing e \<noteq> Some i" "\<not> qactive e i"
    using that q_invD [OF assms(1)] by (auto simp: q_inv_def qactive_def qwork_def)
  then show ?thesis using QRemove assms(1) by (auto simp: remove_task_queue_def qactive_def split: option.splits)
next
  case (QSchedule now other i t)
  then show ?thesis using scheduler_ok [OF assms(1)] by simp
next
  case (QSpawnInto now other t i)
  then show ?thesis using scheduler_ok [OF assms(1), of now other i t] assms(1) by (auto simp: ctx_spawn_into_def split: option.splits)
next
  case QYield
  then obtain i where i: "eq_executing e = Some i" using assms(2) by auto
  then obtain q where q: "eq_available e i = Some q" "tq_active q" using q_invD(3) [OF assms(1)] by (auto simp: qactive_iff)
  then show ?thesis using QYield i q_inv_upd [OF assms(1) q(1)] by (simp add: mark_me_for_yield_def)
next
  case (QStats i)
  have "q_inv (queue_upd i (q\<lparr>tq_stats_of := st\<rparr>) e)" if "eq_available e i = Some q" for q st
    using q_inv_upd [OF assms(1) that, of "q\<lparr>tq_stats_of := st\<rparr>"] q_invD(4) [OF assms(1), of i] that by (simp add: qwork_def qactive_def)
  then show ?thesis using QStats assms(1) by (auto simp: task_queue_stats_def tq_stats_take_def split: option.splits)
next
  case QIdle
  then show ?thesis using assms(1) by (simp add: queue_run_idle_def q_inv_def)
next
  case (QStart now i)
  then show ?thesis using assms queue_run_start_ok [OF assms(1)] by (auto simp: least_active_def)
next
  case QTask
  then show ?thesis using assms(2) queue_run_task_ok [OF assms(1)] by fastforce
next
  case (QEnd r)
  then show ?thesis using assms(2) queue_run_end_ok [OF assms(1)] by fastforce
qed

lemma q_init_inv: "q_init e \<Longrightarrow> q_inv e"
  by (auto simp: q_init_def q_inv_def exec_init_def exec_queues_new_def qactive_def qwork_def task_queue_new_def split: if_splits)

interpretation tqs: transition_inv q_init q_step q_inv
proof unfold_locales
  show "q_inv e'" if inv: "q_inv e" and st: "q_step e e'" for e e'
  proof -
    obtain op where op: "q_enabled op e" "q_exec op e = Some e'" using st by (rule q_stepE)
    then show ?thesis using q_exec_ok [OF inv op(1)] by (cases "op = QSpawn") auto
  qed
qed (rule q_init_inv)

subsection \<open>The scheduler is fair\<close>

text \<open>
  A step that charges at most \<open>D\<close> to the virtual runtime of the queue that ran. A queue that wakes up gets one more than the least
  virtual runtime; at \<open>2^64 - 1\<close>, this wraps around.
\<close>

definition charged :: "qop \<Rightarrow> exec_queues \<Rightarrow> nat" where
  "charged op e =
     (case (op, eq_executing e) of
        (QEnd r, Some i) \<Rightarrow> (case eq_available e i of Some q \<Rightarrow> delta_scaled r q | None \<Rightarrow> 0)
      | _ \<Rightarrow> 0)"

definition no_wrap :: "exec_queues \<Rightarrow> bool" where
  "no_wrap e \<longleftrightarrow> eq_default_vruntime e + 1 < 2 ^ 64"

inductive fair_step :: "nat \<Rightarrow> exec_queues \<Rightarrow> exec_queues \<Rightarrow> bool" for D where
  "q_enabled op e \<Longrightarrow> charged op e \<le> D \<Longrightarrow> q_exec op e = Some e' \<Longrightarrow> fair_step D e e'"

abbreviation fair_upto_wrap :: "nat \<Rightarrow> exec_queues \<Rightarrow> exec_queues \<Rightarrow> bool" where
  "fair_upto_wrap D e e' \<equiv> fair_step D e e' \<and> no_wrap e"

definition f_inv :: "nat \<Rightarrow> exec_queues \<Rightarrow> bool" where
  "f_inv D e \<longleftrightarrow>
     (\<forall>j. qactive e j \<longrightarrow> eq_default_vruntime e \<le> vruntime_of e j \<and> vruntime_of e j \<le> eq_default_vruntime e + max 1 D) \<and>
     (eq_executing e = None \<longrightarrow> (\<exists>j. qactive e j) \<longrightarrow> (\<exists>j. qactive e j \<and> vruntime_of e j \<le> eq_default_vruntime e + 1)) \<and>
     (\<forall>c. eq_executing e = Some c \<longrightarrow> vruntime_of e c \<le> eq_default_vruntime e + 1 \<and> (\<forall>j. qactive e j \<longrightarrow> vruntime_of e c \<le> vruntime_of e j))"

text \<open>
  All operations but the start and the end of a run only wake queues up: the active queues stay as they are
  and those that join them start just above the least virtual runtime.
\<close>

definition calm :: "exec_queues \<Rightarrow> exec_queues \<Rightarrow> bool" where
  "calm e e' \<longleftrightarrow> eq_executing e' = eq_executing e \<and> eq_default_vruntime e' = eq_default_vruntime e \<and>
     (\<forall>j. qactive e j \<longrightarrow> qactive e' j \<and> vruntime_of e' j = vruntime_of e j) \<and>
     (\<forall>j. qactive e' j \<and> \<not> qactive e j \<longrightarrow> vruntime_of e' j = (eq_default_vruntime e + 1) mod 2 ^ 64)"

lemma calm_refl [simp]: "calm e e"
  by (simp add: calm_def)

lemma calm_trans: "calm e e1 \<Longrightarrow> calm e1 e2 \<Longrightarrow> calm e e2"
  unfolding calm_def by metis

lemma calm_fair:
  assumes "f_inv D e" "q_inv e" "calm e e'" "no_wrap e"
  shows "f_inv D e'"
proof -
  let ?d = "eq_default_vruntime e"
  have c: "eq_executing e' = eq_executing e" "eq_default_vruntime e' = ?d"
    "\<And>j. qactive e j \<Longrightarrow> qactive e' j \<and> vruntime_of e' j = vruntime_of e j"
    "\<And>j. qactive e' j \<Longrightarrow> \<not> qactive e j \<Longrightarrow> vruntime_of e' j = ?d + 1"
    using assms(3,4) by (auto simp: calm_def no_wrap_def)
  have f: "\<And>j. qactive e j \<Longrightarrow> ?d \<le> vruntime_of e j \<and> vruntime_of e j \<le> ?d + max 1 D"
    "eq_executing e = None \<Longrightarrow> qactive e j \<Longrightarrow> \<exists>j. qactive e j \<and> vruntime_of e j \<le> ?d + 1"
    "\<And>c. eq_executing e = Some c \<Longrightarrow> vruntime_of e c \<le> ?d + 1 \<and> (\<forall>j. qactive e j \<longrightarrow> vruntime_of e c \<le> vruntime_of e j)" for j
    using assms(1) unfolding f_inv_def by blast+
  have "?d \<le> vruntime_of e' j \<and> vruntime_of e' j \<le> ?d + max 1 D" if "qactive e' j" for j
    using c(3,4) [of j] f(1) [of j] that by (cases "qactive e j") auto
  moreover have "\<exists>j. qactive e' j \<and> vruntime_of e' j \<le> ?d + 1" if "eq_executing e = None" "qactive e' j" for j
    using c(3) c(4) [of j] f(2) [of j] that by (metis order_refl)
  moreover have "vruntime_of e' i \<le> ?d + 1 \<and> (\<forall>j. qactive e' j \<longrightarrow> vruntime_of e' i \<le> vruntime_of e' j)" if i: "eq_executing e = Some i" for i
    using c(3) c(4) f(3) [OF i] q_invD(3) [OF assms(2) i] by metis
  ultimately show ?thesis unfolding f_inv_def c(1,2) by blast
qed

lemma calm_upd: "eq_available e i = Some q \<Longrightarrow> tq_active q' = tq_active q \<Longrightarrow> tq_vruntime q' = tq_vruntime q \<Longrightarrow> calm e (queue_upd i q' e)"
  by (auto simp: calm_def qactive_def vruntime_of_def)

lemma calm_activate: "maybe_activate i e = Some e' \<Longrightarrow> calm e e'"
  by (auto simp: maybe_activate_def calm_def qactive_def split: if_splits)

lemma calm_ctx_schedule: "ctx_schedule i t e = Some e' \<Longrightarrow> calm e e'"
  by (auto simp: ctx_schedule_def bind_eq_Some_conv dest!: calm_activate elim!: calm_trans [rotated] intro: calm_upd)

lemma calm_create: "q_inv e \<Longrightarrow> create_task_queue now sh lat e = (i, e') \<Longrightarrow> calm e e'"
  using q_invD(5) [of e "eq_index e"]
  by (auto simp: create_task_queue_def Let_def calm_def task_queue_new_def qactive_def split: if_splits)

lemma calm_scheduler:
  assumes "q_inv e" "scheduler_schedule now other i t e = Some e'"
  shows "calm e e'"
proof (cases "eq_available e i")
  case None
  obtain j e1 where j: "cleanup_queue now other e = (j, e1)" by fastforce
  then have "calm e e1" using calm_create [OF assms(1)] by (auto simp: cleanup_queue_def split: if_splits)
  then show ?thesis using None assms(2) j calm_ctx_schedule [of j t e1 e'] by (auto simp: scheduler_schedule_def intro: calm_trans)
qed (use assms(2) calm_ctx_schedule in \<open>simp add: scheduler_schedule_def\<close>)

lemma calm_exec:
  assumes "q_inv e" "q_exec op e = Some e'" "\<And>now i. op \<noteq> QStart now i" "\<And>r. op \<noteq> QEnd r"
  shows "calm e e'"
proof (cases op)
  case (QCreate now sh lat)
  then show ?thesis using assms(2) calm_create [OF assms(1), of now sh lat] by (cases "create_task_queue now sh lat e") auto
next
  case (QRemove i)
  then show ?thesis using assms(2) by (auto simp: remove_task_queue_def calm_def qactive_def vruntime_of_def split: option.splits if_splits)
next
  case (QSchedule now other i t)
  then show ?thesis using assms(2) calm_scheduler [OF assms(1)] by simp
next
  case (QSpawnInto now other t i)
  then show ?thesis using assms(2) calm_scheduler [OF assms(1)] by (auto simp: ctx_spawn_into_def split: option.splits)
next
  case QSpawn
  then show ?thesis using assms(2) by auto
next
  case QYield
  then show ?thesis using assms(2) by (auto simp: mark_me_for_yield_def bind_eq_Some_conv intro: calm_upd)
next
  case (QStats i)
  then show ?thesis using assms(2) by (auto simp: task_queue_stats_def tq_stats_take_def intro: calm_upd split: option.splits)
next
  case QIdle
  then show ?thesis using assms(2) by (auto simp: queue_run_idle_def calm_def)
next
  case QTask
  have "calm e ((queue_upd i q' e)\<lparr>eq_this_loop := n\<rparr>)" if "calm e (queue_upd i q' e)" for i q' n using that by (auto simp: calm_def)
  then show ?thesis using QTask assms(2)
    by (auto simp: queue_run_task_def bind_eq_Some_conv get_task_def calm_upd split: if_splits list.splits)
qed (use assms(3,4) in blast)+

lemma f_inv_start:
  assumes "f_inv D e" "q_inv e" "eq_executing e = None" "least_active i e" "queue_run_start now i e = Some e'"
  shows "f_inv D e'"
proof -
  have i: "qactive e i" "\<And>j. qactive e j \<Longrightarrow> vruntime_of e i \<le> vruntime_of e j"
    using assms(3,4) q_invD(2) [OF assms(2)] by (auto simp: least_active_def list_all_iff)
  obtain q where q: "eq_available e i = Some q" "tq_active q" using i(1) by (auto simp: qactive_iff)
  then have "eq_default_vruntime e' = eq_default_vruntime e" "eq_executing e' = Some i"
    "\<And>j. qactive e' j = qactive e j" "\<And>j. vruntime_of e' j = vruntime_of e j"
    using assms(5) by (auto simp: queue_run_start_def qactive_def [of e] vruntime_of_def [of e] split: if_splits)
  moreover have "\<exists>j. qactive e j \<and> vruntime_of e j \<le> eq_default_vruntime e + 1" using assms(1,3) i(1) unfolding f_inv_def by blast
  then have "vruntime_of e i \<le> eq_default_vruntime e + 1" using i(2) by (meson le_trans)
  ultimately show ?thesis using assms(1) i(2) by (simp add: f_inv_def)
qed

lemma min_list_or_min:
  assumes "xs \<noteq> []"
  shows "min_list_or d xs \<in> set xs" "x \<in> set xs \<Longrightarrow> min_list_or d xs \<le> x"
proof -
  have "min_list_or d xs = Min (set xs)" using assms min_list_Min [of xs] by (cases xs) (simp_all only: min_list_or_def list.case simp_thms)
  then show "min_list_or d xs \<in> set xs" "x \<in> set xs \<Longrightarrow> min_list_or d xs \<le> x" using assms by (simp_all)
qed

lemma f_inv_end:
  assumes "f_inv D e" "q_inv e" "eq_executing e = Some i" "ended i \<delta> e e'" "\<delta> \<le> D"
  shows "f_inv D e'"
proof -
  let ?d = "eq_default_vruntime e" and ?d' = "eq_default_vruntime e'" and ?v = "vruntime_of e" and ?v' = "vruntime_of e'"
  have x: "eq_executing e' = None" "\<And>j. qactive e' j \<longleftrightarrow> j \<in> set (eq_active e')"
    using assms(4) q_invD(2) [OF ended_inv [OF assms(2,3,4)]] by (auto simp: ended_def)
  have min: "?d' \<in> ?v' ` set (eq_active e')" "\<And>j. j \<in> set (eq_active e') \<Longrightarrow> ?d' \<le> ?v' j" if "eq_active e' \<noteq> []"
  proof -
    have d': "?d' = min_list_or (?v' i) (map ?v' (eq_active e'))" using assms(4) by (simp only: ended_def)
    show "?d' \<in> ?v' ` set (eq_active e')" "\<And>j. j \<in> set (eq_active e') \<Longrightarrow> ?d' \<le> ?v' j"
      unfolding d' using min_list_or_min(1) [of "map ?v' (eq_active e')" "?v' i"] min_list_or_min(2) [of "map ?v' (eq_active e')" _ "?v' i"] that
      by simp_all
  qed
  have near: "?v' j \<le> ?d' + max 1 D" if j: "j \<in> set (eq_active e')" for j
  proof (cases "?v i + \<delta> < 2 ^ 64")
    case True
    have f: "?v i \<le> ?v k" "?v k \<le> ?d + max 1 D" "?d \<le> ?v i" if "qactive e k" for k
      using assms(1,3) that q_invD(3) [OF assms(2,3)] by (simp_all add: f_inv_def)
    have v': "?v' k = (if k = i then ?v i + \<delta> else ?v k)" "k \<in> set (eq_active e') \<Longrightarrow> k = i \<or> qactive e k" for k
      using assms(4) True q_invD(2) [OF assms(2)] by (auto simp: ended_def split: if_splits)
    obtain m where m: "m \<in> set (eq_active e')" "?d' = ?v' m" using min(1) j by (cases "eq_active e' = []") auto
    then have "?v i \<le> ?d'" using v'(1) [of m] v'(2) [of m] f(1) [of m] by auto
    then show ?thesis using v'(1) [of j] v'(2) [OF j] f(2,3) [of j] assms(5) by (auto split: if_splits)
  qed (use assms(4) in \<open>simp add: ended_def\<close>)
  show ?thesis using x min near by (cases "eq_active e' = []") (auto simp: f_inv_def)
qed

interpretation fair: transition_inv q_init "fair_upto_wrap D" "\<lambda>e. q_inv e \<and> f_inv D e" for D
proof unfold_locales
  show "q_inv e \<and> f_inv D e" if "q_init e" for e
    using q_init_inv [OF that] that by (auto simp: f_inv_def q_init_def exec_init_def exec_queues_new_def qactive_def task_queue_new_def split: if_splits)
  show "q_inv e' \<and> f_inv D e'" if inv: "q_inv e \<and> f_inv D e" and st: "fair_step D e e' \<and> no_wrap e" for e e'
  proof -
    obtain op where op: "q_enabled op e" "charged op e \<le> D" "no_wrap e" "q_exec op e = Some e'"
      using st by (auto elim: fair_step.cases)
    have "f_inv D e'"
    proof (cases op)
      case (QStart now i)
      then show ?thesis using op f_inv_start [of D e i now e'] inv by simp
    next
      case (QEnd r)
      then obtain i where i: "eq_executing e = Some i" using op(1) by auto
      then obtain q where q: "eq_available e i = Some q" using q_invD(3) [of e i] inv by (auto simp: qactive_iff)
      have "ended i (delta_scaled r q) e e'" using run_end_ended [OF i q, of r] op(4) QEnd by simp
      then show ?thesis using f_inv_end [of D e i] inv i q op(2) QEnd by (simp add: charged_def)
    qed (use calm_fair [of D e e'] calm_exec [of e op e'] inv op in auto)
    then show ?thesis using q_exec_ok [OF _ op(1)] inv op(4) by (cases "op = QSpawn") fastforce+
  qed
qed

subsection \<open>Removing queues\<close>

lemma remove_queue_result:
  assumes "reachable q_init q_step e"
  shows "fst (remove_task_queue i e) = Inr () \<longleftrightarrow> eq_available e i \<noteq> None \<and> i \<notin> set (eq_active e) \<and> eq_executing e \<noteq> Some i"
proof -
  have "i \<in> set (eq_active e) \<longleftrightarrow> qactive e i \<and> eq_executing e \<noteq> Some i" using q_invD(2) [OF tqs.reachable_inv [OF assms]] .
  then show ?thesis by (auto simp: remove_task_queue_def qactive_def split: option.splits)
qed

text \<open>A removed queue had nothing to run.\<close>

lemma remove_loses_nothing:
  assumes "reachable q_init q_step e" "remove_task_queue i e = (Inr (), e')"
  shows "\<not> qwork e i \<and> (\<forall>j. j \<noteq> i \<longrightarrow> eq_available e' j = eq_available e j) \<and> eq_available e' i = None"
  using q_invD(4) [OF tqs.reachable_inv [OF assms(1)], of i] assms(2)
  by (auto simp: remove_task_queue_def qwork_def qactive_def split: option.splits if_splits)

subsection \<open>Properties\<close>

text \<open>
  Claim C12. No runnable task is forgotten by the scheduler. In every state that an executor can reach,
  a queue that holds a runnable is marked active and is either in the heap or executing, it is in the heap at most once, an executor
  that finds the heap empty has no runnable in any queue, so it may sleep. No call panics (yielding being a call of the running task), with one exception: a spawn from
  outside the tasks panics exactly when the default queue was removed.
\<close>

theorem tasks_not_forgotten:
  assumes "reachable q_init q_step e"
  shows "(eq_available e i = Some q \<and> tq_runnables q \<noteq> [] \<longrightarrow> tq_active q \<and> (i \<in> set (eq_active e) \<or> eq_executing e = Some i)) \<and>
    distinct (eq_active e) \<and>
    (eq_executing e = None \<and> eq_active e = [] \<longrightarrow> (\<forall>j r. eq_available e j = Some r \<longrightarrow> tq_runnables r = [] \<and> \<not> tq_active r)) \<and>
    (q_enabled op e \<longrightarrow> (q_exec op e = None \<longleftrightarrow> op = QSpawn \<and> eq_executing e = None \<and> eq_available e 0 = None))"
proof -
  have inv: "q_inv e" using tqs.reachable_inv [OF assms] .
  have a: "qactive e j \<longleftrightarrow> j \<in> set (eq_active e) \<or> eq_executing e = Some j" for j using q_invD(2,3) [OF inv, of j] by auto
  have b: "eq_available e j = Some r \<Longrightarrow> (qactive e j \<longleftrightarrow> tq_active r) \<and> (tq_runnables r \<noteq> [] \<longrightarrow> tq_active r)" for j r
    using q_invD(4) [OF inv, of j] by (auto simp: qactive_def qwork_def)
  have c: "tq_runnables r = [] \<and> \<not> tq_active r" if "eq_executing e = None" "eq_active e = []" "eq_available e j = Some r" for j r
    using a [of j] b [OF that(3)] that(1,2) by auto
  have "q_exec op e = None \<longleftrightarrow> op = QSpawn \<and> eq_executing e = None \<and> eq_available e 0 = None" if "q_enabled op e"
    using q_exec_ok [OF inv that] by (cases "op = QSpawn") (auto simp: spawn_internal_def split: option.splits)
  then show ?thesis using a [of i] b [of i q] c q_invD(1) [OF inv] by blast
qed

text \<open>
  Claim C13. The scheduler is fair between queues. As long as no slice charges more than \<open>D\<close> to a
  virtual runtime, and the least virtual runtime from which queues wake up stays below \<open>2^64 - 1\<close> (where the increment of \<^verbatim>\<open>maybe_activate\<close> would wrap around), the virtual runtimes of any two active queues differ by at most \<open>D\<close> (or by 1, the head start of
  the others over a queue that wakes up), however they were woken up, run, yielded and preempted, and also after
  an overflow in the accounting of a slice has reset them all; and no active queue is below the virtual runtime from which a queue that wakes up starts.
\<close>

theorem queues_fair:
  assumes "reachable q_init (\<lambda>e e'. fair_step D e e' \<and> eq_default_vruntime e + 1 < 2 ^ 64) e" "eq_available e i = Some p" "tq_active p" "eq_available e j = Some q" "tq_active q"
  shows "tq_vruntime p \<le> tq_vruntime q + max 1 D \<and> eq_default_vruntime e \<le> tq_vruntime p"
proof -
  have "f_inv D e" using fair.reachable_inv [of D e] assms(1) unfolding no_wrap_def by blast
  then have "eq_default_vruntime e \<le> vruntime_of e k \<and> vruntime_of e k \<le> eq_default_vruntime e + max 1 D" if "qactive e k" for k
    using that unfolding f_inv_def by blast
  from this [of i] this [of j] show ?thesis using assms by (simp add: qactive_def vruntime_of_def)
qed

subsection \<open>Concrete runs\<close>

fun q_run :: "nat \<Rightarrow> qop list \<Rightarrow> exec_queues \<Rightarrow> exec_queues option" where
  "q_run D [] e = Some e"
| "q_run D (op # ops) e =
     (if q_enabled op e \<and> charged op e \<le> D \<and> no_wrap e then Option.bind (q_exec op e) (q_run D ops) else None)"

lemma q_run_fair: "q_run D ops e = Some e' \<Longrightarrow> reachable q_init (fair_upto_wrap D) e \<Longrightarrow> reachable q_init (fair_upto_wrap D) e'"
proof (induction ops arbitrary: e)
  case (Cons op ops)
  then obtain u where "fair_upto_wrap D e u" "q_run D ops u = Some e'"
    by (auto simp: bind_eq_Some_conv intro: fair_step.intros split: if_splits)
  then show ?case using Cons.IH [of u] reachable_step [OF Cons.prems(2)] by blast
qed simp

lemma fair_reachable: "reachable q_init (fair_upto_wrap D) e \<Longrightarrow> reachable q_init q_step e"
  unfolding reachable_def using rtranclp_mono [of "fair_upto_wrap D" q_step] by (auto elim!: fair_step.cases intro: q_step.intros)

text \<open>
  Queue 1 has a latency requirement of 5 where the default is 100; it has two tasks, and the
  first of them wakes the default queue up before the slice ends.
\<close>

definition queue_scene :: "qop list" where
  "queue_scene = [QCreate 0 (Static 1000) (Matters 5), QSchedule 0 0 1 7, QSchedule 0 0 1 8, QStart 0 1, QTask, QSchedule 0 0 0 9, QEnd 10]"

lemma queue_scene_run:
  "\<exists>e p q. q_run 10 queue_scene (exec_init 0 (exec_queues_new 100)) = Some e \<and> reachable q_init (fair_upto_wrap 10) e \<and>
     eq_active e = [1, 0] \<and> eq_executing e = None \<and> eq_available e 0 = Some p \<and> eq_available e 1 = Some q \<and> tq_active p \<and> tq_active q \<and>
     tq_vruntime p = 1 \<and> tq_vruntime q = 11 \<and> tq_runnables q = [8] \<and> tq_latency q = Matters 5 \<and> eq_preempt e = 100 \<and> eq_default_preempt e = 100"
proof -
  let ?s = "exec_init 0 (exec_queues_new 100)"
  have "reachable q_init (fair_upto_wrap 10) ?s" by (auto simp: reachable_def q_init_def)
  moreover have "\<exists>e p q. q_run 10 queue_scene ?s = Some e \<and>
     eq_active e = [1, 0] \<and> eq_executing e = None \<and> eq_available e 0 = Some p \<and> eq_available e 1 = Some q \<and> tq_active p \<and> tq_active q \<and>
     tq_vruntime p = 1 \<and> tq_vruntime q = 11 \<and> tq_runnables q = [8] \<and> tq_latency q = Matters 5 \<and> eq_preempt e = 100 \<and> eq_default_preempt e = 100"
    by (simp add: queue_scene_def exec_init_def exec_queues_new_def create_task_queue_def task_queue_new_def Let_def scheduler_schedule_def
      ctx_schedule_def maybe_activate_def reevaluate_preempt_timer_def queue_upd_def min_list_or_def preempt_of_def least_active_def
      vruntime_of_def charged_def no_wrap_def queue_run_start_def prepare_to_run_def queue_run_task_def get_task_def queue_run_end_def account_vruntime_def
      delta_scaled_def tq_stats_new_def reciprocal_shares_def some_available_def)
  ultimately show ?thesis using q_run_fair by blast
qed

text \<open>
  The preemption timer can forget a latency requirement. A queue that asked for a
  latency of 5 is active and in the heap, with a task to run, while the timer is still set to the default of 100: the timer
  was computed while that queue was executing and so was not in the heap, and
  it is not computed again when the queue is pushed back.
\<close>

lemma preempt_timer_stale:
  "\<exists>e q. reachable q_init q_step e \<and> eq_executing e = None \<and> 1 \<in> set (eq_active e) \<and> eq_available e 1 = Some q \<and>
     tq_latency q = Matters 5 \<and> tq_runnables q \<noteq> [] \<and> eq_preempt e = 100"
  using queue_scene_run fair_reachable by fastforce

text \<open>Removing the idle default queue is allowed, and then a spawn from outside the tasks panics.\<close>

lemma spawn_panics: "\<exists>e. reachable q_init q_step e \<and> q_enabled QSpawn e \<and> q_exec QSpawn e = None"
proof -
  let ?s = "exec_init 0 (exec_queues_new 100)"
  have "reachable q_init q_step ?s" by (auto simp: reachable_def q_init_def)
  moreover have "q_step ?s (snd (remove_task_queue 0 ?s))" by (rule q_step.intros [of "QRemove 0"]) simp_all
  moreover have "q_exec QSpawn (snd (remove_task_queue 0 ?s)) = None"
    by (simp add: remove_task_queue_def exec_init_def exec_queues_new_def task_queue_new_def spawn_internal_def)
  ultimately show ?thesis using reachable_step by fastforce
qed

theorem tasks_not_forgotten_witness:
  "\<exists>e. q_run 10 queue_scene (exec_init 0 (exec_queues_new 100)) = Some e \<and> 1 \<in> set (eq_active e) \<and> distinct (eq_active e) \<and> q_exec (QStart 20 0) e \<noteq> None"
proof -
  obtain e p q where e: "q_run 10 queue_scene (exec_init 0 (exec_queues_new 100)) = Some e" "reachable q_init (fair_upto_wrap 10) e"
    "eq_active e = [1, 0]" "eq_executing e = None" "eq_available e 0 = Some p" "eq_available e 1 = Some q" "tq_vruntime p = 1" "tq_vruntime q = 11"
    using queue_scene_run by blast
  have "q_enabled (QStart 20 0) e" using e by (simp add: least_active_def vruntime_of_def)
  then show ?thesis using tasks_not_forgotten [OF fair_reachable [OF e(2)], of 1 q "QStart 20 0"] e by auto
qed

theorem queues_fair_witness:
  "\<exists>e p q. q_run 10 queue_scene (exec_init 0 (exec_queues_new 100)) = Some e \<and> eq_available e 0 = Some p \<and> eq_available e 1 = Some q \<and>
     tq_vruntime p = 1 \<and> tq_vruntime q = 11 \<and> tq_vruntime q \<le> tq_vruntime p + max 1 10"
proof -
  obtain e p q where e: "q_run 10 queue_scene (exec_init 0 (exec_queues_new 100)) = Some e" "reachable q_init (fair_upto_wrap 10) e"
    "eq_available e 0 = Some p" "eq_available e 1 = Some q" "tq_active p" "tq_active q" "tq_vruntime p = 1" "tq_vruntime q = 11"
    using queue_scene_run by blast
  then show ?thesis using queues_fair [OF e(2) [unfolded no_wrap_def] e(4,6,3,5)] by auto
qed

end
