(* ===== verification/Latch.thy ===== *)
theory Latch
  imports Errors
begin

section \<open>The start of a pool of executors (glommio/src/executor/latch.rs, glommio/src/executor/mod.rs)\<close>

text \<open>
  A pool starts its threads one by one; a latch lets none of them create its executor
  before all of them were spawned, and lets all of them give up when one could not be spawned. The counter of the latch is atomic, its state is behind a
  mutex, and a condition variable holds those who sleep until the state changes. An operation that brings the counter to zero takes three steps (the counter, the
  state, the notification), and a thread that finds the latch pending goes to sleep and looks again only after it was notified, or after a spurious wake-up. The steps of the thread that starts the pool and
  of those that it spawned interleave in every order. That the system refuses a thread or an event file descriptor is an
  outcome of the step that asks for it. What a thread does after it has passed the latch is not modelled here, nor are the processors
  that it is bound to.
\<close>

subsection \<open>The latch\<close>

datatype latch_state = LPending | LReady | LCanceled

record latch =
  l_count :: nat
  l_state :: latch_state
  l_sleepers :: "nat list" \<comment> \<open>the threads asleep on the condition variable\<close>

definition latch_new :: "nat \<Rightarrow> latch" where
  "latch_new n = \<lparr>l_count = n, l_state = (if 0 < n then LPending else LReady), l_sleepers = []\<rparr>"

text \<open>\<^verbatim>\<open>set_state\<close> stores the state under the mutex and then notifies all sleepers.\<close>

definition store_state :: "latch_state \<Rightarrow> latch \<Rightarrow> latch" where
  "store_state s l = l\<lparr>l_state := s\<rparr>"

definition notify_all :: "latch \<Rightarrow> latch" where
  "notify_all l = l\<lparr>l_sleepers := []\<rparr>"

definition set_state :: "latch_state \<Rightarrow> latch \<Rightarrow> latch" where
  "set_state s l = notify_all (store_state s l)"

text \<open>The first half of an update, on the counter: the result, the new value if there is one, and the latch.\<close>

definition fetch_update :: "(nat \<Rightarrow> nat option) \<Rightarrow> latch \<Rightarrow> (nat, nat) result \<times> nat option \<times> latch" where
  "fetch_update f l =
     (case f (l_count l) of
        Some n \<Rightarrow> (Inr (l_count l), Some n, l\<lparr>l_count := n\<rparr>)
      | None \<Rightarrow> (Inl (l_count l), None, l))"

definition latch_update :: "latch_state \<Rightarrow> (nat \<Rightarrow> nat option) \<Rightarrow> latch \<Rightarrow> (nat, nat) result \<times> latch" where
  "latch_update s f l = (case fetch_update f l of (res, new, l1) \<Rightarrow> (res, if new = Some 0 then set_state s l1 else l1))"

definition down_by :: "nat \<Rightarrow> nat \<Rightarrow> nat option" where
  "down_by n v = (if n \<le> v then Some (v - n) else None)"

definition to_zero :: "nat \<Rightarrow> nat option" where
  "to_zero v = (if v \<noteq> 0 then Some 0 else None)"

definition count_down :: "nat \<Rightarrow> latch \<Rightarrow> (nat, nat) result \<times> latch" where
  "count_down n l = latch_update LReady (down_by n) l"

text \<open>What a waiting thread finds under the mutex: \<open>None\<close> while the latch is pending, when it goes to sleep.\<close>

definition latch_wait :: "latch \<Rightarrow> latch_state option" where
  "latch_wait l = (if l_state l = LPending then None else Some (l_state l))"

definition latch_cancel :: "latch \<Rightarrow> (nat, latch_state) result option \<times> latch" where
  "latch_cancel l =
     (case latch_update LCanceled to_zero l of
        (Inr v, l') \<Rightarrow> (Some (Inr v), l')
      | (Inl _, l') \<Rightarrow> (map_option Inl (latch_wait l'), l'))"

definition arrive_and_wait :: "latch \<Rightarrow> latch_state option \<times> latch" where
  "arrive_and_wait l = (let l' = snd (count_down 1 l) in (latch_wait l', l'))"

subsection \<open>The pool\<close>

datatype thread_phase = Arriving | Setting | Notifying | Waiting | Passed latch_state

datatype main_phase = Spawning | Canceling | CancelNotifying | CancelWaiting | Joining | StartFailed | Started

record pool =
  pl_shards :: nat
  pl_latch :: latch
  pl_threads :: "thread_phase list"
  pl_main :: main_phase

definition pool_start :: "nat \<Rightarrow> pool" where
  "pool_start n = \<lparr>pl_shards = n, pl_latch = latch_new n, pl_threads = [], pl_main = Spawning\<rparr>"

datatype spawn_outcome = Spawned | SpawnRefused | NotifierRefused

definition spawn_thread :: "spawn_outcome \<Rightarrow> pool \<Rightarrow> pool" where
  "spawn_thread out w =
     (case out of
        Spawned \<Rightarrow> w\<lparr>pl_threads := pl_threads w @ [Arriving]\<rparr>
      | NotifierRefused \<Rightarrow> w\<lparr>pl_main := Joining\<rparr>
      | SpawnRefused \<Rightarrow>
          (case fetch_update to_zero (pl_latch w) of
             (Inr _, _, l) \<Rightarrow> w\<lparr>pl_latch := l, pl_main := Canceling\<rparr>
           | (Inl _, _, l) \<Rightarrow> w\<lparr>pl_latch := l, pl_main := CancelWaiting\<rparr>))"

definition thread_arrive :: "nat \<Rightarrow> pool \<Rightarrow> pool" where
  "thread_arrive i w =
     (case fetch_update (down_by 1) (pl_latch w) of
        (_, new, l) \<Rightarrow> w\<lparr>pl_latch := l, pl_threads := (pl_threads w)[i := if new = Some 0 then Setting else Waiting]\<rparr>)"

definition thread_set :: "nat \<Rightarrow> pool \<Rightarrow> pool" where
  "thread_set i w = w\<lparr>pl_latch := store_state LReady (pl_latch w), pl_threads := (pl_threads w)[i := Notifying]\<rparr>"

definition thread_notify :: "nat \<Rightarrow> pool \<Rightarrow> pool" where
  "thread_notify i w = w\<lparr>pl_latch := notify_all (pl_latch w), pl_threads := (pl_threads w)[i := Waiting]\<rparr>"

text \<open>A turn of the loop of \<^verbatim>\<open>wait_while\<close>, which holds the mutex until it sleeps or returns.\<close>

definition thread_look :: "nat \<Rightarrow> pool \<Rightarrow> pool" where
  "thread_look i w =
     (case latch_wait (pl_latch w) of
        None \<Rightarrow> w\<lparr>pl_latch := (pl_latch w)\<lparr>l_sleepers := i # l_sleepers (pl_latch w)\<rparr>\<rparr>
      | Some s \<Rightarrow> w\<lparr>pl_threads := (pl_threads w)[i := Passed s]\<rparr>)"

text \<open>
  The operations: an attempt to spawn a thread, the second and third part of a cancellation, the wait of a cancellation that came
  too late (which then panics), the loop's end, the end of the join; the arrival of a thread, its second and third part,
  a look at the state by a thread that waits and is awake, and a spurious wake-up.
\<close>

datatype pool_op = PSpawn spawn_outcome | PSetCanceled | PNotifyCanceled | PCancelPanic | PReturn | PJoined
  | PArrive nat | PSetReady nat | PNotifyReady nat | PLook nat | PSpurious nat

definition phase_is :: "nat \<Rightarrow> thread_phase \<Rightarrow> thread_phase list \<Rightarrow> bool" where
  "phase_is i p ps \<longleftrightarrow> i < length ps \<and> ps ! i = p"

fun pool_enabled :: "pool_op \<Rightarrow> pool \<Rightarrow> bool" where
  "pool_enabled (PSpawn _) w = (pl_main w = Spawning \<and> length (pl_threads w) < pl_shards w)"
| "pool_enabled PSetCanceled w = (pl_main w = Canceling)"
| "pool_enabled PCancelPanic w = (pl_main w = CancelWaiting \<and> latch_wait (pl_latch w) \<noteq> None)"
| "pool_enabled PReturn w = (pl_main w = Spawning \<and> length (pl_threads w) = pl_shards w)"
| "pool_enabled PJoined w = (pl_main w = Joining \<and> list_all (\<lambda>p. p = Passed LCanceled \<or> p = Passed LReady) (pl_threads w))"
| "pool_enabled (PArrive i) w = phase_is i Arriving (pl_threads w)"
| "pool_enabled (PSetReady i) w = phase_is i Setting (pl_threads w)"
| "pool_enabled PNotifyCanceled w = (pl_main w = CancelNotifying)"
| "pool_enabled (PNotifyReady i) w = phase_is i Notifying (pl_threads w)"
| "pool_enabled (PLook i) w = (phase_is i Waiting (pl_threads w) \<and> i \<notin> set (l_sleepers (pl_latch w)))"
| "pool_enabled (PSpurious i) w = (i \<in> set (l_sleepers (pl_latch w)))"

fun pool_exec :: "pool_op \<Rightarrow> pool \<Rightarrow> pool option" where
  "pool_exec (PSpawn out) w = Some (spawn_thread out w)"
| "pool_exec PSetCanceled w = Some (w\<lparr>pl_latch := store_state LCanceled (pl_latch w), pl_main := CancelNotifying\<rparr>)"
| "pool_exec PNotifyCanceled w = Some (w\<lparr>pl_latch := notify_all (pl_latch w), pl_main := Joining\<rparr>)"
| "pool_exec PCancelPanic w = None"
| "pool_exec PReturn w = Some (w\<lparr>pl_main := Started\<rparr>)"
| "pool_exec PJoined w = Some (w\<lparr>pl_main := StartFailed\<rparr>)"
| "pool_exec (PArrive i) w = Some (thread_arrive i w)"
| "pool_exec (PSetReady i) w = Some (thread_set i w)"
| "pool_exec (PNotifyReady i) w = Some (thread_notify i w)"
| "pool_exec (PLook i) w = Some (thread_look i w)"
| "pool_exec (PSpurious i) w = Some (w\<lparr>pl_latch := (pl_latch w)\<lparr>l_sleepers := removeAll i (l_sleepers (pl_latch w))\<rparr>\<rparr>)"

inductive pool_step :: "pool_op \<Rightarrow> pool \<Rightarrow> pool \<Rightarrow> bool" where
  "pool_enabled op w \<Longrightarrow> pool_exec op w = Some w' \<Longrightarrow> pool_step op w w'"

inductive_cases pool_stepE: "pool_step op w w'"

definition pool_any :: "pool \<Rightarrow> pool \<Rightarrow> bool" where
  "pool_any w w' \<longleftrightarrow> (\<exists>op. pool_step op w w')"

subsection \<open>The latch alone\<close>

lemma fetch_then_set:
  assumes "fetch_update (down_by n) l = (r, new, l')"
  shows "count_down n l = (r, if new = Some 0 then set_state LReady l' else l')"
  using assms by (simp add: count_down_def latch_update_def)

text \<open>Counting down the whole count makes the latch ready, and a cancellation before that makes it canceled for all that follows.\<close>

lemma latch_opens:
  "0 < n \<Longrightarrow> k \<le> n \<Longrightarrow> count_down k (latch_new n) = (Inr n, \<lparr>l_count = n - k, l_state = (if k = n then LReady else LPending), l_sleepers = []\<rparr>)"
  by (auto simp: count_down_def latch_update_def fetch_update_def down_by_def latch_new_def set_state_def store_state_def notify_all_def)

lemma latch_cancel_sticks:
  assumes "0 < n" "latch_cancel (latch_new n) = (r, l)"
  shows "r = Some (Inr n) \<and> arrive_and_wait l = (Some LCanceled, l) \<and> latch_cancel l = (Some (Inl LCanceled), l)"
  using assms by (auto simp: latch_cancel_def arrive_and_wait_def latch_update_def fetch_update_def to_zero_def latch_new_def set_state_def store_state_def notify_all_def
    count_down_def down_by_def latch_wait_def)

text \<open>Looking at the counter of a canceled latch by counting down zero makes it ready.\<close>

lemma count_down_zero_revives:
  "0 < n \<Longrightarrow> latch_wait (snd (count_down 0 (snd (latch_cancel (latch_new n))))) = Some LReady"
  by (simp add: latch_cancel_def latch_update_def fetch_update_def to_zero_def latch_new_def set_state_def store_state_def notify_all_def count_down_def down_by_def latch_wait_def)

subsection \<open>What holds while a pool starts\<close>

definition arrived :: "thread_phase list \<Rightarrow> nat" where
  "arrived ps = length (filter (\<lambda>p. p \<noteq> Arriving) ps)"

text \<open>Who sleeps waits.\<close>

definition sleep_ok :: "pool \<Rightarrow> bool" where
  "sleep_ok w \<longleftrightarrow> list_all (\<lambda>i. phase_is i Waiting (pl_threads w)) (l_sleepers (pl_latch w))"

text \<open>Nobody has canceled the latch.\<close>

definition live_latch :: "nat \<Rightarrow> latch \<Rightarrow> thread_phase list \<Rightarrow> bool" where
  "live_latch n l ps \<longleftrightarrow> l_count l + arrived ps = n \<and> length ps \<le> n \<and> l_state l \<noteq> LCanceled \<and>
     (0 < l_count l \<longrightarrow> l_state l = LPending \<and> (\<forall>i. \<not> phase_is i Setting ps)) \<and>
     (l_count l = 0 \<longrightarrow> l_state l = LReady \<or> (\<exists>i. phase_is i Setting ps)) \<and>
     (\<forall>i. phase_is i Notifying ps \<longrightarrow> l_state l = LReady) \<and>
     (\<forall>i s. phase_is i (Passed s) ps \<longrightarrow> s = LReady \<and> l_state l = LReady) \<and>
     (l_state l = LReady \<and> l_sleepers l \<noteq> [] \<longrightarrow> (\<exists>i. phase_is i Notifying ps))"

definition live_main :: "pool \<Rightarrow> bool" where
  "live_main w \<longleftrightarrow> (pl_main w = Started \<longrightarrow> length (pl_threads w) = pl_shards w) \<and>
     (pl_main w = Joining \<longrightarrow> length (pl_threads w) < pl_shards w) \<and> (pl_main w = StartFailed \<longrightarrow> pl_threads w = [] \<and> 0 < pl_shards w) \<and>
     pl_main w \<noteq> Canceling \<and> pl_main w \<noteq> CancelNotifying \<and> pl_main w \<noteq> CancelWaiting"

definition pool_live :: "pool \<Rightarrow> bool" where
  "pool_live w \<longleftrightarrow> live_latch (pl_shards w) (pl_latch w) (pl_threads w) \<and> live_main w"

text \<open>The counter was set to zero by a cancellation.\<close>

definition pool_dead :: "pool \<Rightarrow> bool" where
  "pool_dead w \<longleftrightarrow> l_count (pl_latch w) = 0 \<and> length (pl_threads w) < pl_shards w \<and>
     (\<forall>i. \<not> phase_is i Setting (pl_threads w) \<and> \<not> phase_is i Notifying (pl_threads w)) \<and>
     (\<forall>i s. phase_is i (Passed s) (pl_threads w) \<longrightarrow> s = LCanceled \<and> l_state (pl_latch w) = LCanceled) \<and>
     (l_sleepers (pl_latch w) \<noteq> [] \<longrightarrow> pl_main w \<in> {Canceling, CancelNotifying}) \<and>
     (pl_main w = Canceling \<and> l_state (pl_latch w) = LPending \<or>
      pl_main w \<in> {CancelNotifying, Joining, StartFailed} \<and> l_state (pl_latch w) = LCanceled) \<and>
     (pl_main w = StartFailed \<longrightarrow> (\<forall>i. i < length (pl_threads w) \<longrightarrow> phase_is i (Passed LCanceled) (pl_threads w)))"

definition pool_core :: "pool \<Rightarrow> bool" where
  "pool_core w \<longleftrightarrow> pool_live w \<or> pool_dead w"

definition pool_inv :: "pool \<Rightarrow> bool" where
  "pool_inv w \<longleftrightarrow> sleep_ok w \<and> pool_core w"

lemmas live_defs = pool_live_def live_latch_def live_main_def

lemma arrived_upd:
  "i < length ps \<Longrightarrow> p \<noteq> Arriving \<Longrightarrow> arrived (ps[i := p]) = (if ps ! i = Arriving then Suc (arrived ps) else arrived ps)"
  by (induction ps arbitrary: i) (auto simp: arrived_def nth_Cons' split: nat.splits)

lemma arrived_simps [simp]: "arrived [] = 0" "arrived (ps @ [Arriving]) = arrived ps"
  by (simp_all add: arrived_def)

lemma arrived_le: "arrived ps \<le> length ps"
  by (simp add: arrived_def)

lemma arrived_less: "i < length ps \<Longrightarrow> ps ! i = Arriving \<Longrightarrow> arrived ps < length ps"
  unfolding arrived_def by (rule length_filter_less [of Arriving]) (auto simp: in_set_conv_nth)

lemma phase_is_simps [simp]:
  "phase_is j p (ps[i := q]) = (if j = i then i < length ps \<and> p = q else phase_is j p ps)"
  "phase_is j p (ps @ [q]) = (if j = length ps then p = q else phase_is j p ps)"
  by (auto simp: phase_is_def nth_append)

lemma phase_isD:
  assumes "phase_is i p ps"
  shows "i < length ps" "phase_is i q ps = (q = p)" "ps ! i = p"
  using assms by (auto simp: phase_is_def)

lemma live_count_zero:
  assumes "pool_live w" "l_count (pl_latch w) = 0"
  shows "length (pl_threads w) = pl_shards w" "\<not> phase_is i Arriving (pl_threads w)"
  using assms arrived_le [of "pl_threads w"] arrived_less [of i "pl_threads w"] by (auto simp: live_defs phase_is_def)

lemma pool_sleep_ok:
  assumes "sleep_ok w" "pool_enabled op w" "pool_exec op w = Some w'"
  shows "sleep_ok w'"
proof (cases "\<exists>i. op = PLook i")
  case True
  then obtain i where i: "op = PLook i" by blast
  then show ?thesis using assms
    by (auto simp: thread_look_def sleep_ok_def list_all_iff phase_is_def nth_list_update split: option.splits)
next
  case False
  have w: "phase_is j Waiting (ps[i := q])" if "phase_is j Waiting ps" "phase_is i p ps" "p \<noteq> Waiting" for i j p q and ps :: "thread_phase list"
    using that by (cases "j = i") (auto simp: phase_is_def)
  have "(\<forall>j. phase_is j Waiting (pl_threads w) \<longrightarrow> phase_is j Waiting (pl_threads w')) \<and> set (l_sleepers (pl_latch w')) \<subseteq> set (l_sleepers (pl_latch w))"
    using False assms(2,3) w
    by (cases op) (auto simp: spawn_thread_def thread_arrive_def thread_set_def thread_notify_def fetch_update_def store_state_def notify_all_def
      phase_is_def nth_append nth_list_update split: spawn_outcome.splits option.splits)
  then show ?thesis using assms(1) by (auto simp: sleep_ok_def list_all_iff)
qed

lemma pool_spawn_ok:
  assumes "pool_core w" "pool_enabled (PSpawn out) w"
  shows "pool_core (spawn_thread out w)"
proof -
  have live: "pool_live w" and len: "pl_main w = Spawning" "length (pl_threads w) < pl_shards w"
    using assms by (auto simp: pool_core_def pool_dead_def)
  then have c: "0 < l_count (pl_latch w)" using live_count_zero(1) [OF live] by auto
  have st: "l_state (pl_latch w) = LPending" using live c by (simp add: live_defs)
  show ?thesis
  proof (cases out)
    case Spawned
    then have "pool_live (spawn_thread out w)" using live len c st by (auto simp: live_defs spawn_thread_def)
    then show ?thesis by (simp add: pool_core_def)
  next
    case SpawnRefused
    then have "pool_dead (spawn_thread out w)" using live len c st by (auto simp: live_defs pool_dead_def spawn_thread_def fetch_update_def to_zero_def)
    then show ?thesis by (simp add: pool_core_def)
  next
    case NotifierRefused
    then have "pool_live (spawn_thread out w)" using live len c st by (auto simp: live_defs spawn_thread_def)
    then show ?thesis by (simp add: pool_core_def)
  qed
qed

lemma pool_arrive_ok:
  assumes "pool_core w" "phase_is i Arriving (pl_threads w)"
  shows "pool_core (thread_arrive i w)"
proof (cases "pool_live w")
  case True
  then have c: "0 < l_count (pl_latch w)" using live_count_zero(2) [OF True, of i] assms(2) by auto
  have st: "l_state (pl_latch w) = LPending" using True c by (simp add: live_defs)
  have a: "arrived ((pl_threads w)[i := p]) = Suc (arrived (pl_threads w))" if "p \<noteq> Arriving" for p
    using arrived_upd [of i "pl_threads w" p] that assms(2) by (simp add: phase_is_def)
  have "pool_live (thread_arrive i w)"
    using True c st a phase_isD [OF assms(2)] by (auto simp: live_defs thread_arrive_def fetch_update_def down_by_def)
  then show ?thesis by (simp add: pool_core_def)
next
  case False
  then have "pool_dead w" using assms(1) by (simp add: pool_core_def)
  then have "pool_dead (thread_arrive i w)" using phase_isD [OF assms(2)]
    by (auto simp: pool_dead_def thread_arrive_def fetch_update_def down_by_def)
  then show ?thesis by (simp add: pool_core_def)
qed

lemma pool_set_ok:
  assumes "pool_core w" "phase_is i Setting (pl_threads w)"
  shows "pool_live (thread_set i w)"
proof -
  have live: "pool_live w" using assms by (auto simp: pool_core_def pool_dead_def)
  then have c: "l_count (pl_latch w) = 0" using assms(2) by (auto simp: live_defs)
  have a: "arrived ((pl_threads w)[i := Notifying]) = arrived (pl_threads w)"
    using arrived_upd [of i "pl_threads w" Notifying] phase_isD [OF assms(2)] by simp
  have "phase_is i Notifying ((pl_threads w)[i := Notifying])" using phase_isD(1) [OF assms(2)] by simp
  then show ?thesis using live c a unfolding live_defs thread_set_def store_state_def by auto
qed

lemma pool_notify_ok:
  assumes "pool_core w" "phase_is i Notifying (pl_threads w)"
  shows "pool_live (thread_notify i w)"
proof -
  have live: "pool_live w" using assms by (auto simp: pool_core_def pool_dead_def)
  have st: "l_state (pl_latch w) = LReady" using live assms(2) unfolding live_defs by blast
  moreover have "0 < l_count (pl_latch w) \<longrightarrow> l_state (pl_latch w) = LPending" using live unfolding live_defs by blast
  ultimately have c: "l_count (pl_latch w) = 0" by simp
  have a: "arrived ((pl_threads w)[i := Waiting]) = arrived (pl_threads w)"
    using arrived_upd [of i "pl_threads w" Waiting] phase_isD [OF assms(2)] by simp
  show ?thesis using live c st a by (simp add: live_defs thread_notify_def notify_all_def)
qed

lemma pool_look_ok:
  assumes "pool_core w" "phase_is i Waiting (pl_threads w)"
  shows "pool_core (thread_look i w)"
proof (cases "l_state (pl_latch w) = LPending")
  case True
  then have "pool_live w \<Longrightarrow> pool_live (thread_look i w)" "pool_dead w \<Longrightarrow> pool_dead (thread_look i w)"
    by (auto simp: live_defs pool_dead_def thread_look_def latch_wait_def)
  then show ?thesis using assms(1) by (auto simp: pool_core_def)
next
  case False
  define s where "s = l_state (pl_latch w)"
  then have e: "thread_look i w = w\<lparr>pl_threads := (pl_threads w)[i := Passed s]\<rparr>" "s \<noteq> LPending" using False by (simp_all add: thread_look_def latch_wait_def)
  have a: "arrived ((pl_threads w)[i := Passed s]) = arrived (pl_threads w)"
    using arrived_upd [of i "pl_threads w" "Passed s"] phase_isD [OF assms(2)] by simp
  have n: "\<exists>k. phase_is k Notifying ((pl_threads w)[i := Passed s])" if "phase_is j Notifying (pl_threads w)" for j
    using that assms(2) by (cases "j = i") (auto simp: phase_is_def intro!: exI [of _ j])
  have "pool_live (w\<lparr>pl_threads := (pl_threads w)[i := Passed s]\<rparr>)" if live: "pool_live w"
  proof -
    have "l_state (pl_latch w) \<noteq> LCanceled" "0 < l_count (pl_latch w) \<longrightarrow> l_state (pl_latch w) = LPending"
      using live unfolding live_defs by blast+
    then have st: "s = LReady" "l_state (pl_latch w) = LReady" "l_count (pl_latch w) = 0" using s_def e(2) by (cases s; simp)+
    have "l_sleepers (pl_latch w) \<noteq> [] \<longrightarrow> (\<exists>k. phase_is k Notifying ((pl_threads w)[i := Passed s]))"
      using live st(2) n unfolding live_defs by blast
    then show ?thesis using live a st phase_isD [OF assms(2)] by (simp add: live_defs del: phase_is_simps)
      (auto simp: phase_is_simps)
  qed
  moreover have "pool_dead (w\<lparr>pl_threads := (pl_threads w)[i := Passed s]\<rparr>)" if "pool_dead w"
    using that s_def e(2) by (auto simp: pool_dead_def)
  ultimately show ?thesis using assms(1) e(1) by (auto simp: pool_core_def)
qed

lemma pool_joined_ok:
  assumes "pool_core w" "pool_enabled PJoined w"
  shows "pool_core (w\<lparr>pl_main := StartFailed\<rparr>)"
proof -
  have all: "phase_is i (Passed LCanceled) (pl_threads w) \<or> phase_is i (Passed LReady) (pl_threads w)" if "i < length (pl_threads w)" for i
    using assms(2) that by (auto simp: list_all_length phase_is_def)
  show ?thesis
  proof (cases "pool_live w")
    case True
    have "0 < l_count (pl_latch w)" using live_count_zero(1) [OF True] assms(2) True by (auto simp: live_defs)
    then have "\<not> phase_is 0 (Passed LCanceled) (pl_threads w) \<and> \<not> phase_is 0 (Passed LReady) (pl_threads w)" using True by (auto simp: live_defs)
    then have "pl_threads w = []" using all [of 0] by auto
    then have "pool_live (w\<lparr>pl_main := StartFailed\<rparr>)" using True assms(2) by (auto simp: pool_live_def live_main_def)
    then show ?thesis by (simp add: pool_core_def)
  next
    case False
    then have "pool_dead w" using assms(1) by (simp add: pool_core_def)
    then have "pool_dead (w\<lparr>pl_main := StartFailed\<rparr>)" using all assms(2) by (auto simp: pool_dead_def)
    then show ?thesis by (simp add: pool_core_def)
  qed
qed

lemma pool_main_ok:
  assumes "pool_core w"
  shows "pl_main w \<noteq> CancelWaiting"
    "pl_main w = Canceling \<Longrightarrow> pool_core (w\<lparr>pl_latch := store_state LCanceled (pl_latch w), pl_main := CancelNotifying\<rparr>)"
    "pl_main w = CancelNotifying \<Longrightarrow> pool_core (w\<lparr>pl_latch := notify_all (pl_latch w), pl_main := Joining\<rparr>)"
    "pool_enabled PReturn w \<Longrightarrow> pool_core (w\<lparr>pl_main := Started\<rparr>)"
proof -
  show "pl_main w \<noteq> CancelWaiting" using assms unfolding pool_core_def live_defs pool_dead_def by auto
  have dead: "pool_dead w" if "pl_main w \<in> {Canceling, CancelNotifying}" using that assms unfolding pool_core_def live_defs by auto
  show "pool_core (w\<lparr>pl_latch := store_state LCanceled (pl_latch w), pl_main := CancelNotifying\<rparr>)" if "pl_main w = Canceling"
    using dead that by (auto simp: pool_core_def pool_dead_def store_state_def)
  show "pool_core (w\<lparr>pl_latch := notify_all (pl_latch w), pl_main := Joining\<rparr>)" if "pl_main w = CancelNotifying"
    using dead that by (auto simp: pool_core_def pool_dead_def notify_all_def)
  show "pool_core (w\<lparr>pl_main := Started\<rparr>)" if en: "pool_enabled PReturn w"
  proof -
    have "pool_live w" using en assms by (auto simp: pool_core_def pool_dead_def)
    then have "pool_live (w\<lparr>pl_main := Started\<rparr>)" using en by (simp add: pool_live_def live_main_def)
    then show ?thesis by (simp add: pool_core_def)
  qed
qed

lemma live_latch_sleepers:
  assumes "live_latch n l ps" "xs \<noteq> [] \<Longrightarrow> l_sleepers l \<noteq> []"
  shows "live_latch n (l\<lparr>l_sleepers := xs\<rparr>) ps"
proof -
  have e: "l_count (l\<lparr>l_sleepers := xs\<rparr>) = l_count l" "l_state (l\<lparr>l_sleepers := xs\<rparr>) = l_state l" "l_sleepers (l\<lparr>l_sleepers := xs\<rparr>) = xs" by simp_all
  show ?thesis using assms unfolding live_latch_def e by blast
qed

lemma pool_spurious_ok:
  assumes "pool_core w"
  shows "pool_core (w\<lparr>pl_latch := (pl_latch w)\<lparr>l_sleepers := removeAll i (l_sleepers (pl_latch w))\<rparr>\<rparr>)" (is "pool_core ?w")
proof -
  have r: "removeAll i (l_sleepers (pl_latch w)) \<noteq> [] \<Longrightarrow> l_sleepers (pl_latch w) \<noteq> []" by auto
  have "pool_live ?w" if "pool_live w" using that live_latch_sleepers [OF _ r] by (simp add: pool_live_def live_main_def)
  moreover have "pool_dead ?w" if "pool_dead w" using that r by (auto simp: pool_dead_def)
  ultimately show ?thesis using assms unfolding pool_core_def by blast
qed

lemma pool_core_ok:
  assumes "pool_core w" "pool_enabled op w"
  shows "\<exists>w'. pool_exec op w = Some w' \<and> pool_core w'"
proof (cases op)
  case (PSetReady i)
  then show ?thesis using assms pool_set_ok [OF assms(1), of i] by (simp add: pool_core_def)
next
  case (PNotifyReady i)
  then show ?thesis using assms pool_notify_ok [OF assms(1), of i] by (simp add: pool_core_def)
next
  case (PLook i)
  then show ?thesis using assms(2) pool_look_ok [OF assms(1), of i] by auto
qed (use assms pool_spawn_ok [OF assms(1)] pool_main_ok [OF assms(1)] pool_joined_ok [OF assms(1)] pool_arrive_ok [OF assms(1)]
    pool_spurious_ok [OF assms(1)] in auto)

lemma pool_exec_ok:
  assumes "pool_inv w" "pool_enabled op w"
  shows "\<exists>w'. pool_exec op w = Some w' \<and> pool_inv w'"
  using pool_core_ok [OF _ assms(2)] pool_sleep_ok [OF _ assms(2)] assms(1) unfolding pool_inv_def by blast

definition pool_init :: "pool \<Rightarrow> bool" where
  "pool_init w \<longleftrightarrow> (\<exists>n. w = pool_start n)"

interpretation pls: transition_inv pool_init pool_any pool_inv
proof unfold_locales
  show "pool_inv w" if "pool_init w" for w
    using that by (auto simp: pool_init_def pool_start_def pool_inv_def pool_core_def sleep_ok_def live_defs latch_new_def phase_is_def split: if_splits)
  show "pool_inv w'" if inv: "pool_inv w" and st: "pool_any w w'" for w w'
    using pool_exec_ok [OF inv] st by (fastforce simp: pool_any_def elim: pool_stepE)
qed

subsection \<open>A pool that is not refused an event file descriptor starts or fails\<close>

text \<open>Steps without such a refusal, and those of them that are not spurious wake-ups.\<close>

definition pool_calm :: "pool \<Rightarrow> pool \<Rightarrow> bool" where
  "pool_calm w w' \<longleftrightarrow> (\<exists>op. op \<noteq> PSpawn NotifierRefused \<and> pool_step op w w')"

definition pool_quiet :: "pool \<Rightarrow> pool \<Rightarrow> bool" where
  "pool_quiet w w' \<longleftrightarrow> (\<exists>op. op \<noteq> PSpawn NotifierRefused \<and> (\<forall>i. op \<noteq> PSpurious i) \<and> pool_step op w w')"

fun thread_work :: "latch \<Rightarrow> nat \<Rightarrow> thread_phase \<Rightarrow> nat" where
  "thread_work l i Arriving = 4"
| "thread_work l i Setting = 3"
| "thread_work l i Notifying = 2"
| "thread_work l i Waiting = (if i \<in> set (l_sleepers l) then 2 else if l_state l = LPending then 3 else 1)"
| "thread_work l i (Passed _) = 0"

fun main_work :: "main_phase \<Rightarrow> nat" where
  "main_work Spawning = 4"
| "main_work Canceling = 3"
| "main_work CancelNotifying = 2"
| "main_work CancelWaiting = 2"
| "main_work Joining = 1"
| "main_work _ = 0"

definition threads_work :: "latch \<Rightarrow> thread_phase list \<Rightarrow> nat" where
  "threads_work l ps = (\<Sum>i<length ps. thread_work l i (ps ! i))"

text \<open>The steps that the start of a pool can still take.\<close>

definition pool_work :: "pool \<Rightarrow> nat" where
  "pool_work w = 5 * (pl_shards w - length (pl_threads w)) + threads_work (pl_latch w) (pl_threads w) + main_work (pl_main w)"

definition pool_final :: "pool \<Rightarrow> bool" where
  "pool_final w \<longleftrightarrow> pl_main w = Started \<and> (\<forall>i < length (pl_threads w). phase_is i (Passed LReady) (pl_threads w)) \<or>
     pl_main w = StartFailed \<and> (\<forall>i < length (pl_threads w). phase_is i (Passed LCanceled) (pl_threads w))"

lemma threads_work_append: "threads_work l (ps @ [p]) = threads_work l ps + thread_work l (length ps) p"
  by (simp add: threads_work_def nth_append)

lemma threads_work_le:
  assumes "\<And>j p. phase_is j p ps \<Longrightarrow> thread_work l' j p \<le> thread_work l j p"
  shows "threads_work l' ps \<le> threads_work l ps"
  unfolding threads_work_def using assms by (intro sum_mono) (simp add: phase_is_def)

lemma threads_work_less:
  assumes "phase_is i p ps" "thread_work l' i q < thread_work l i p" "\<And>j r. j \<noteq> i \<Longrightarrow> phase_is j r ps \<Longrightarrow> thread_work l' j r \<le> thread_work l j r"
  shows "threads_work l' (ps[i := q]) < threads_work l ps"
proof -
  have "(\<Sum>j<length ps. thread_work l' j (ps[i := q] ! j)) < (\<Sum>j<length ps. thread_work l j (ps ! j))"
  proof (rule sum_strict_mono_ex1)
    show "\<forall>j \<in> {..<length ps}. thread_work l' j (ps[i := q] ! j) \<le> thread_work l j (ps ! j)"
    proof
      fix j
      assume "j \<in> {..<length ps}"
      then show "thread_work l' j (ps[i := q] ! j) \<le> thread_work l j (ps ! j)" using assms by (cases "j = i") (auto simp: phase_is_def)
    qed
    show "\<exists>j \<in> {..<length ps}. thread_work l' j (ps[i := q] ! j) < thread_work l j (ps ! j)"
      using assms(1,2) by (intro bexI [of _ i]) (auto simp: phase_is_def)
  qed simp
  then show ?thesis by (simp add: threads_work_def)
qed

lemma thread_work_same:
  "l_sleepers l' = l_sleepers l \<Longrightarrow> l_state l' = l_state l \<Longrightarrow> thread_work l' j p = thread_work l j p"
  "thread_work (store_state LReady l) j p \<le> thread_work l j p" "thread_work (store_state LCanceled l) j p \<le> thread_work l j p"
  "l_state l \<noteq> LPending \<Longrightarrow> thread_work (notify_all l) j p \<le> thread_work l j p"
  by (cases p; simp add: store_state_def notify_all_def)+

lemma notifying_state:
  assumes "pool_core w"
  shows "phase_is i Notifying (pl_threads w) \<Longrightarrow> l_state (pl_latch w) = LReady" "pl_main w = CancelNotifying \<Longrightarrow> l_state (pl_latch w) = LCanceled"
proof -
  show "l_state (pl_latch w) = LReady" if n: "phase_is i Notifying (pl_threads w)"
  proof -
    have "\<not> pool_dead w" using n unfolding pool_dead_def by blast
    then have "live_latch (pl_shards w) (pl_latch w) (pl_threads w)" using assms by (simp add: pool_core_def pool_live_def)
    then show ?thesis using n unfolding live_latch_def by blast
  qed
  show "l_state (pl_latch w) = LCanceled" if "pl_main w = CancelNotifying"
    using assms that by (simp add: pool_core_def pool_live_def live_main_def pool_dead_def)
qed

lemma pool_thread_less:
  assumes "pool_inv w" "pool_enabled op w" "op = PArrive i \<or> op = PSetReady i \<or> op = PNotifyReady i \<or> op = PLook i" "pool_exec op w = Some w'"
  shows "threads_work (pl_latch w') (pl_threads w') < threads_work (pl_latch w) (pl_threads w) \<and>
    length (pl_threads w') = length (pl_threads w) \<and> pl_main w' = pl_main w \<and> pl_shards w' = pl_shards w"
  using assms(3)
proof (elim disjE)
  assume op: "op = PArrive i"
  have s: "i \<notin> set (l_sleepers (pl_latch w))" using assms(1,2) op by (auto simp: pool_inv_def sleep_ok_def list_all_iff phase_is_def)
  obtain r new l where f: "fetch_update (down_by 1) (pl_latch w) = (r, new, l)" by (cases "fetch_update (down_by 1) (pl_latch w)")
  then have l: "l_sleepers l = l_sleepers (pl_latch w)" "l_state l = l_state (pl_latch w)" by (auto simp: fetch_update_def split: option.splits)
  have "threads_work l ((pl_threads w)[i := q]) < threads_work (pl_latch w) (pl_threads w)" if "q = Setting \<or> q = Waiting" for q
    by (rule threads_work_less [of i Arriving]) (use op assms(2) s l that thread_work_same(1) [OF l] in auto)
  then show ?thesis using op assms(4) f by (auto simp: thread_arrive_def)
next
  assume op: "op = PSetReady i"
  have "threads_work (store_state LReady (pl_latch w)) ((pl_threads w)[i := Notifying]) < threads_work (pl_latch w) (pl_threads w)"
    by (rule threads_work_less [of i Setting]) (use op assms(2) thread_work_same(2) in auto)
  then show ?thesis using op assms(4) by (auto simp: thread_set_def)
next
  assume op: "op = PNotifyReady i"
  then have st: "l_state (pl_latch w) = LReady" using notifying_state(1) assms(1,2) by (auto simp: pool_inv_def)
  have "threads_work (notify_all (pl_latch w)) ((pl_threads w)[i := Waiting]) < threads_work (pl_latch w) (pl_threads w)"
  proof (rule threads_work_less [of i Notifying])
    show "thread_work (notify_all (pl_latch w)) i Waiting < thread_work (pl_latch w) i Notifying" using st by (simp add: notify_all_def)
  qed (use op assms(2) st thread_work_same(4) [of "pl_latch w"] in auto)
  then show ?thesis using op assms(4) by (auto simp: thread_notify_def)
next
  assume op: "op = PLook i"
  have e: "(pl_threads w)[i := Waiting] = pl_threads w" using op assms(2) by (auto simp: phase_is_def list_update_same_conv)
  have "threads_work ((pl_latch w)\<lparr>l_sleepers := i # l_sleepers (pl_latch w)\<rparr>) ((pl_threads w)[i := Waiting]) < threads_work (pl_latch w) (pl_threads w)"
    if "l_state (pl_latch w) = LPending"
  proof (rule threads_work_less)
    show "phase_is i Waiting (pl_threads w)" using op assms(2) by simp
    show "thread_work ((pl_latch w)\<lparr>l_sleepers := i # l_sleepers (pl_latch w)\<rparr>) j r \<le> thread_work (pl_latch w) j r" if "j \<noteq> i" for j r
      using that by (cases r) auto
  qed (use that op assms(2) in auto)
  moreover have "threads_work (pl_latch w) ((pl_threads w)[i := Passed st]) < threads_work (pl_latch w) (pl_threads w)" for st
    by (rule threads_work_less [of i Waiting]) (use op assms(2) in auto)
  ultimately show ?thesis using op assms(4) e by (auto simp: thread_look_def latch_wait_def split: if_splits)
qed

lemma pool_work_less:
  assumes "pool_inv w" "pool_step op w w'" "\<And>i. op \<noteq> PSpurious i"
  shows "pool_work w' < pool_work w"
proof -
  have en: "pool_enabled op w" "pool_exec op w = Some w'" using assms(2) by (auto elim: pool_stepE)
  have le: "threads_work l' (pl_threads w) \<le> threads_work l (pl_threads w)" if "\<And>j p. thread_work l' j p \<le> thread_work l j p" for l l'
    using that by (intro threads_work_le) blast
  have same: "threads_work ((pl_latch w)\<lparr>l_count := c\<rparr>) (pl_threads w) = threads_work (pl_latch w) (pl_threads w)" for c
    by (simp add: threads_work_def thread_work_same(1) [of "(pl_latch w)\<lparr>l_count := c\<rparr>" "pl_latch w"])
  show ?thesis
  proof (cases op)
    case (PSpawn out)
    then show ?thesis using en
      by (auto simp: pool_work_def spawn_thread_def fetch_update_def threads_work_append same split: spawn_outcome.splits option.splits)
  next
    case PSetCanceled
    then show ?thesis using en le [OF thread_work_same(3), of "pl_latch w"] by (auto simp: pool_work_def)
  next
    case PNotifyCanceled
    then have "l_state (pl_latch w) \<noteq> LPending" using notifying_state(2) assms(1) en(1) by (auto simp: pool_inv_def)
    then show ?thesis using PNotifyCanceled en le [OF thread_work_same(4), of "pl_latch w"] by (auto simp: pool_work_def)
  next
    case (PSpurious i)
    then show ?thesis using assms(3) by blast
  qed (use en pool_thread_less [OF assms(1) en(1) _ en(2)] in \<open>auto simp: pool_work_def\<close>)
qed

text \<open>A spurious wake-up costs one step.\<close>

lemma spurious_work:
  assumes "pool_inv w" "pool_step (PSpurious i) w w'"
  shows "pool_work w' \<le> pool_work w + 1"
proof -
  let ?l = "(pl_latch w)\<lparr>l_sleepers := removeAll i (l_sleepers (pl_latch w))\<rparr>"
  have en: "i \<in> set (l_sleepers (pl_latch w))" "w' = w\<lparr>pl_latch := ?l\<rparr>" using assms(2) by (auto elim: pool_stepE)
  have ph: "phase_is i Waiting (pl_threads w)" using assms(1) en(1) by (simp add: pool_inv_def sleep_ok_def list_all_iff)
  have "thread_work ?l j (pl_threads w ! j) \<le> thread_work (pl_latch w) j (pl_threads w ! j) + (if j = i then 1 else 0)" for j
    by (cases "pl_threads w ! j") auto
  then have "threads_work ?l (pl_threads w) \<le> (\<Sum>j<length (pl_threads w). thread_work (pl_latch w) j (pl_threads w ! j) + (if j = i then 1 else 0))"
    unfolding threads_work_def by (intro sum_mono) blast
  also have "\<dots> = threads_work (pl_latch w) (pl_threads w) + 1" using phase_isD(1) [OF ph] by (simp add: threads_work_def sum.distrib)
  finally show ?thesis using en(2) by (simp add: pool_work_def)
qed

definition quiet_inv :: "pool \<Rightarrow> bool" where
  "quiet_inv w \<longleftrightarrow> pool_inv w \<and> (pl_main w \<in> {Joining, StartFailed} \<longrightarrow> pool_dead w)"

lemma dead_stays:
  assumes "pool_dead w" "pool_step op w w'"
  shows "pool_dead w'"
proof -
  have en: "pool_enabled op w" "pool_exec op w = Some w'" using assms(2) by (auto elim: pool_stepE)
  have "pool_core w'" using pool_core_ok [OF _ en(1)] en(2) assms(1) by (auto simp: pool_core_def)
  moreover have "pl_main w' \<in> {Canceling, CancelNotifying} \<or> l_state (pl_latch w') = LCanceled"
    using assms(1) en by (cases op) (auto simp: pool_dead_def thread_arrive_def thread_look_def fetch_update_def store_state_def notify_all_def latch_wait_def
      split: option.splits if_splits)
  ultimately show ?thesis by (auto simp: pool_core_def pool_live_def live_main_def live_latch_def)
qed

interpretation quiet: transition_inv pool_init pool_calm quiet_inv
proof unfold_locales
  show "quiet_inv w" if "pool_init w" for w
    using pls.init_inv [OF that] that by (auto simp: quiet_inv_def pool_init_def pool_start_def)
  show "quiet_inv w'" if inv: "quiet_inv w" and st: "pool_calm w w'" for w w'
  proof -
    obtain op where op: "op \<noteq> PSpawn NotifierRefused" "pool_step op w w'" using st by (auto simp: pool_calm_def)
    have "pool_inv w'" using pls.step_inv op(2) inv by (auto simp: quiet_inv_def pool_any_def)
    moreover have "pool_dead w'" if m: "pl_main w' \<in> {Joining, StartFailed}"
    proof -
      have "pl_main w \<in> {Joining, StartFailed, CancelNotifying}"
        using op m by (auto elim!: pool_stepE pool_enabled.elims simp: spawn_thread_def thread_arrive_def thread_set_def thread_notify_def thread_look_def
          fetch_update_def split: spawn_outcome.splits option.splits)
      then have "pool_dead w" using inv by (auto simp: quiet_inv_def pool_inv_def pool_core_def pool_live_def live_main_def)
      then show ?thesis using dead_stays [OF _ op(2)] by blast
    qed
    ultimately show ?thesis by (simp add: quiet_inv_def)
  qed
qed

lemma enabled_quiet:
  "quiet_inv w \<Longrightarrow> pool_enabled op w \<Longrightarrow> op \<noteq> PSpawn NotifierRefused \<Longrightarrow> (\<And>i. op \<noteq> PSpurious i) \<Longrightarrow> \<exists>w'. pool_quiet w w'"
  using pool_exec_ok [of w op] unfolding quiet_inv_def pool_quiet_def by (blast intro: pool_step.intros)

text \<open>When no thread and not the starting thread can move without a spurious wake-up, the latch is open and everybody has passed it.\<close>

lemma stuck_open:
  assumes "quiet_inv w" "\<nexists>w'. pool_quiet w w'"
  shows "pl_main w \<in> {Joining, StartFailed, Started}" "l_state (pl_latch w) = (if pl_main w = Started then LReady else LCanceled)"
    and "\<not> phase_is i Arriving (pl_threads w)" "\<not> phase_is i Setting (pl_threads w)" "\<not> phase_is i Waiting (pl_threads w)" "\<not> phase_is i Notifying (pl_threads w)"
proof -
  have no: "\<not> pool_enabled op w" if "op \<noteq> PSpawn NotifierRefused" "\<And>i. op \<noteq> PSpurious i" for op using enabled_quiet [OF assms(1) _ that] assms(2) by blast
  have inv: "pool_core w" "pl_main w \<in> {Joining, StartFailed} \<Longrightarrow> pool_dead w" using assms(1) by (auto simp: quiet_inv_def pool_inv_def)
  have t: "\<not> phase_is i Arriving (pl_threads w)" "\<not> phase_is i Setting (pl_threads w)" "\<not> phase_is i Notifying (pl_threads w)"
    "phase_is i Waiting (pl_threads w) \<Longrightarrow> i \<in> set (l_sleepers (pl_latch w))" for i
    using no [of "PArrive i"] no [of "PSetReady i"] no [of "PNotifyReady i"] no [of "PLook i"] by auto
  show "\<not> phase_is i Arriving (pl_threads w)" "\<not> phase_is i Setting (pl_threads w)" "\<not> phase_is i Notifying (pl_threads w)" by (rule t)+
  show m: "pl_main w \<in> {Joining, StartFailed, Started}"
    using no [of "PSpawn Spawned"] no [of PReturn] no [of PSetCanceled] no [of PNotifyCanceled] pool_main_ok(1) [OF inv(1)] inv(1)
    by (cases "pl_main w") (auto simp: pool_core_def pool_live_def live_latch_def pool_dead_def)
  have "l_state (pl_latch w) = (if pl_main w = Started then LReady else LCanceled) \<and> l_sleepers (pl_latch w) = []"
  proof (cases "pl_main w = Started")
    case True
    then have live: "live_latch (pl_shards w) (pl_latch w) (pl_threads w)" "length (pl_threads w) = pl_shards w"
      using inv(1) by (auto simp: pool_core_def pool_dead_def pool_live_def live_main_def)
    have "arrived (pl_threads w) = length (pl_threads w)" unfolding arrived_def using t(1)
      by (metis (mono_tags, lifting) filter_True in_set_conv_nth phase_is_def)
    then have "l_count (pl_latch w) = 0" using live by (simp add: live_latch_def)
    then have "l_state (pl_latch w) = LReady" using live(1) t(2) unfolding live_latch_def by blast
    moreover from this have "l_sleepers (pl_latch w) = []" using live(1) t(3) unfolding live_latch_def by blast
    ultimately show ?thesis using True by simp
  qed (use m inv(2) in \<open>auto simp: pool_dead_def\<close>)
  then show "l_state (pl_latch w) = (if pl_main w = Started then LReady else LCanceled)" "\<not> phase_is i Waiting (pl_threads w)" using t(4) by auto
qed

lemma pool_progress:
  assumes "quiet_inv w" "\<nexists>w'. pool_quiet w w'"
  shows "pool_final w"
proof -
  note s = stuck_open [OF assms]
  have "phase_is i (Passed (if pl_main w = Started then LReady else LCanceled)) (pl_threads w)" if i: "i < length (pl_threads w)" for i
  proof -
    obtain st where st: "phase_is i (Passed st) (pl_threads w)"
      using s(3-6) [of i] i by (cases "pl_threads w ! i") (auto simp: phase_is_def)
    then have "st = l_state (pl_latch w)" using assms(1) by (auto simp: quiet_inv_def pool_inv_def pool_core_def pool_live_def live_latch_def pool_dead_def)
    then show ?thesis using st s(2) by simp
  qed
  moreover have "\<not> pool_enabled PJoined w" using enabled_quiet [OF assms(1), of PJoined] assms(2) by blast
  ultimately show ?thesis using s(1) by (auto simp: pool_final_def list_all_length phase_is_def)
qed

subsection \<open>Properties\<close>

text \<open>
  Claim C19. A pool starts completely or not at all. In every state that the start of a pool can
  reach, in every order of the steps of its threads: once a thread passes the latch to create its executor, all threads
  of the pool were spawned and have arrived, and the start of the pool cannot fail any more; when
  the start has failed, every thread that was spawned has given up; a thread never gives up while
  another goes ahead; and the cancellation never finds the latch already open.
\<close>

theorem pool_all_or_none:
  assumes "reachable pool_init pool_any w"
  shows "(phase_is i (Passed LReady) (pl_threads w) \<longrightarrow>
       length (pl_threads w) = pl_shards w \<and> pl_main w \<in> {Spawning, Started} \<and> \<not> phase_is j Arriving (pl_threads w) \<and>
       \<not> phase_is j (Passed LCanceled) (pl_threads w)) \<and>
    (pl_main w = StartFailed \<and> j < length (pl_threads w) \<longrightarrow> phase_is j (Passed LCanceled) (pl_threads w)) \<and>
    pl_main w \<noteq> CancelWaiting"
proof -
  have inv: "pool_core w" using pls.reachable_inv [OF assms] by (simp add: pool_inv_def)
  have "length (pl_threads w) = pl_shards w \<and> pl_main w \<in> {Spawning, Started} \<and> \<not> phase_is j Arriving (pl_threads w) \<and>
      \<not> phase_is j (Passed LCanceled) (pl_threads w)" if i: "phase_is i (Passed LReady) (pl_threads w)"
  proof -
    have live: "pool_live w" using inv i by (auto simp: pool_core_def pool_dead_def)
    have "l_state (pl_latch w) = LReady" "0 < l_count (pl_latch w) \<longrightarrow> l_state (pl_latch w) = LPending"
      using live i unfolding pool_live_def live_latch_def by blast+
    then have "l_count (pl_latch w) = 0" by simp
    moreover have "\<not> phase_is j (Passed LCanceled) (pl_threads w)" using live unfolding pool_live_def live_latch_def by blast
    ultimately show ?thesis using live live_count_zero [OF live] by (cases "pl_main w") (auto simp: pool_live_def live_main_def)
  qed
  moreover have "phase_is j (Passed LCanceled) (pl_threads w)" if "pl_main w = StartFailed" "j < length (pl_threads w)"
    using inv that by (auto simp: pool_core_def pool_live_def live_main_def pool_dead_def)
  ultimately show ?thesis using pool_main_ok(1) [OF inv] by blast
qed

text \<open>
  Claim C31. The start of a pool comes to an end, as long as no event file descriptor is refused, and does not rely on spurious wake-ups for it. From every state that
  can be reached, also with spurious wake-ups, there are at most \<open>pool_work\<close> further steps other than these (at the start, five for each thread and four), whoever takes them,
  and a spurious wake-up adds one at most. A state in which nobody can take
  a step without a spurious wake-up is one where the start has succeeded and all threads have passed the latch, or where it has
  failed and all threads that were spawned have given up; so no order of the steps leaves a thread asleep on the condition variable for ever.
\<close>

theorem pool_start_completes:
  assumes "reachable pool_init pool_calm w"
  shows "((pool_quiet ^^ k) w w' \<longrightarrow> k + pool_work w' \<le> pool_work w) \<and> (pool_step (PSpurious i) w w' \<longrightarrow> pool_work w' \<le> pool_work w + 1) \<and>
    ((\<nexists>w'. pool_quiet w w') \<longrightarrow> pool_final w) \<and> pool_work (pool_start n) = 5 * n + 4"
proof -
  have inv: "quiet_inv w" by (rule quiet.reachable_inv [OF assms])
  have "(pool_quiet ^^ k) w w' \<Longrightarrow> k + pool_work w' \<le> pool_work w \<and> pool_inv w'"
  proof (induction k arbitrary: w')
    case (Suc k)
    then obtain u where "(pool_quiet ^^ k) w u" "pool_quiet u w'" by auto
    then obtain op where u: "(pool_quiet ^^ k) w u" "\<And>i. op \<noteq> PSpurious i" "pool_step op u w'" unfolding pool_quiet_def by blast
    then have "pool_inv u" "k + pool_work u \<le> pool_work w" using Suc.IH by blast+
    then show ?case using pool_work_less [OF _ u(3,2)] pls.step_inv [of u w'] u(3) by (fastforce simp: pool_any_def)
  qed (use inv in \<open>simp add: quiet_inv_def\<close>)
  moreover have "pool_work (pool_start n) = 5 * n + 4" by (simp add: pool_work_def pool_start_def threads_work_def)
  ultimately show ?thesis using inv pool_progress [OF inv] spurious_work [of w i w'] unfolding quiet_inv_def by blast
qed

subsection \<open>A refused event file descriptor\<close>

text \<open>
  The starting thread then joins the threads that it spawned and has not canceled the latch,
  for which they wait.
\<close>

definition pool_stuck :: "pool \<Rightarrow> bool" where
  "pool_stuck w \<longleftrightarrow> pool_live w \<and> pl_main w = Joining \<and> pl_threads w \<noteq> []"

lemma pool_stuckD:
  assumes "pool_stuck w"
  shows "0 < l_count (pl_latch w)" "l_state (pl_latch w) = LPending" "\<not> phase_is i Setting (pl_threads w)" "\<not> phase_is i (Passed q) (pl_threads w)"
proof -
  have live: "pool_live w" "pl_main w = Joining" using assms by (auto simp: pool_stuck_def)
  then have "length (pl_threads w) < pl_shards w" by (simp add: pool_live_def live_main_def)
  then show c: "0 < l_count (pl_latch w)" using live_count_zero(1) [OF live(1)] by (cases "l_count (pl_latch w)") auto
  then show "l_state (pl_latch w) = LPending" "\<not> phase_is i Setting (pl_threads w)" "\<not> phase_is i (Passed q) (pl_threads w)"
    using live(1) unfolding pool_live_def live_latch_def by auto
qed

lemma stuck_stays:
  assumes "pool_stuck w" "pool_any w w'"
  shows "pool_stuck w'"
proof -
  obtain op where en: "pool_enabled op w" "pool_exec op w = Some w'" using assms(2) by (auto simp: pool_any_def elim: pool_stepE)
  have live: "pool_live w" "pl_main w = Joining" "pl_threads w \<noteq> []" using assms(1) by (auto simp: pool_stuck_def)
  note c = pool_stuckD(1) [OF assms(1)] and s = pool_stuckD(2-4) [OF assms(1)]
  have "\<not> pool_enabled PJoined w" using s(3) [of 0] live(3) by (auto simp: list_all_length phase_is_def)
  moreover have "\<not> phase_is i Notifying (pl_threads w)" for i using notifying_state(1) [of w i] live(1) s(1) by (auto simp: pool_core_def)
  ultimately obtain i where i: "op = PArrive i \<or> op = PLook i \<or> op = PSpurious i" using en(1) live(2) s by (cases op) auto
  have "pool_core w'" using pool_core_ok [OF _ en(1)] en(2) live(1) by (auto simp: pool_core_def)
  moreover have "pl_main w' = Joining" "pl_threads w' \<noteq> []" "l_state (pl_latch w') = LPending"
    using en(2) i live s(1) c by (auto simp: thread_arrive_def thread_look_def latch_wait_def fetch_update_def down_by_def)
  ultimately show ?thesis by (auto simp: pool_stuck_def pool_core_def pool_dead_def)
qed

text \<open>
  Claim C40. The start of a pool hangs when an event file descriptor is refused for a
  thread other than the first. Whatever happens afterwards, \<^verbatim>\<open>on_all_shards\<close> does not
  return: it joins the threads already spawned, all of which wait for a latch that nobody counts down or cancels.
\<close>

theorem pool_start_hangs:
  assumes "reachable pool_init pool_any w" "pool_enabled (PSpawn NotifierRefused) w" "pl_threads w \<noteq> []"
    and "pool_any\<^sup>*\<^sup>* (spawn_thread NotifierRefused w) w'"
  shows "pl_main w' = Joining \<and> l_state (pl_latch w') = LPending \<and> (\<forall>i s. \<not> phase_is i (Passed s) (pl_threads w'))"
proof -
  have core: "pool_core w" using pls.reachable_inv [OF assms(1)] by (simp add: pool_inv_def)
  have "pool_live w" using core assms(2) by (auto simp: pool_core_def pool_dead_def)
  then have "pool_live (spawn_thread NotifierRefused w)" using assms(2) by (simp add: pool_live_def live_main_def spawn_thread_def)
  then have "pool_stuck (spawn_thread NotifierRefused w)" using assms(3) by (simp add: pool_stuck_def spawn_thread_def)
  then have st: "pool_stuck w'" 
    by (rule rtranclp_induct [OF assms(4)]) (rule stuck_stays)
  then have "pl_main w' = Joining" by (simp add: pool_stuck_def)
  then show ?thesis using pool_stuckD(2,4) [OF st] by blast
qed

subsection \<open>Concrete runs\<close>

fun pool_run :: "pool_op list \<Rightarrow> pool \<Rightarrow> pool option" where
  "pool_run [] w = Some w"
| "pool_run (op # ops) w =
     (if pool_enabled op w \<and> op \<noteq> PSpawn NotifierRefused then Option.bind (pool_exec op w) (pool_run ops) else None)"

lemma pool_run_calm: "pool_run ops w = Some w' \<Longrightarrow> reachable pool_init pool_calm w \<Longrightarrow> reachable pool_init pool_calm w'"
proof (induction ops arbitrary: w)
  case (Cons op ops)
  then obtain u where "pool_calm w u" "pool_run ops u = Some w'"
    by (auto simp: bind_eq_Some_conv pool_calm_def intro: pool_step.intros split: if_splits)
  then show ?case using Cons.IH [of u] reachable_step [OF Cons.prems(2)] by blast
qed simp

lemma calm_reachable: "reachable pool_init pool_calm w \<Longrightarrow> reachable pool_init pool_any w"
  using rtranclp_mono [of pool_calm pool_any] unfolding reachable_def by (auto simp: pool_calm_def pool_any_def le_fun_def)

lemma pool_start_reachable: "pool_run ops (pool_start n) = Some w \<Longrightarrow> reachable pool_init pool_calm w"
  by (erule pool_run_calm) (rule reachable_init, auto simp: pool_init_def)

lemmas pool_eval = pool_start_def latch_new_def spawn_thread_def thread_arrive_def thread_set_def fetch_update_def down_by_def to_zero_def
  set_state_def store_state_def notify_all_def thread_notify_def thread_look_def latch_wait_def phase_is_def

text \<open>Two threads; the first goes to sleep, the second arrives last and notifies it, and the first passes.\<close>

definition pool_scene :: "pool_op list" where
  "pool_scene = [PSpawn Spawned, PArrive 0, PLook 0, PSpawn Spawned, PArrive 1, PSetReady 1, PNotifyReady 1, PLook 0]"

theorem pool_all_or_none_witness:
  "\<exists>w. pool_run pool_scene (pool_start 2) = Some w \<and> phase_is 0 (Passed LReady) (pl_threads w) \<and> length (pl_threads w) = pl_shards w \<and>
     \<not> phase_is 1 (Passed LCanceled) (pl_threads w)"
proof -
  obtain w where w: "pool_run pool_scene (pool_start 2) = Some w" "phase_is 0 (Passed LReady) (pl_threads w)"
    by (simp add: pool_scene_def pool_eval)
  then show ?thesis using pool_all_or_none [OF calm_reachable [OF pool_start_reachable [OF w(1)]], of 0 1] by blast
qed

theorem pool_start_completes_witness:
  "\<exists>w. pool_run (pool_scene @ [PLook 1, PReturn]) (pool_start 2) = Some w \<and> (\<nexists>w'. pool_quiet w w') \<and> pool_final w"
proof -
  obtain w where w: "pool_run (pool_scene @ [PLook 1, PReturn]) (pool_start 2) = Some w"
      "pl_threads w = [Passed LReady, Passed LReady]" "pl_main w = Started"
    by (simp add: pool_scene_def pool_eval)
  then have "\<nexists>w'. pool_quiet w w'"
    by (auto simp: pool_quiet_def phase_is_def nth_Cons' elim!: pool_stepE pool_enabled.elims split: if_splits)
  then show ?thesis using pool_start_completes [OF pool_start_reachable [OF w(1)]] w(1) by blast
qed

theorem pool_start_hangs_witness:
  "\<exists>w. pool_run [PSpawn Spawned, PArrive 0] (pool_start 2) = Some w \<and> pl_threads w = [Waiting] \<and>
     (\<forall>w'. pool_any\<^sup>*\<^sup>* (spawn_thread NotifierRefused w) w' \<longrightarrow> pl_main w' = Joining)"
proof -
  obtain w where w: "pool_run [PSpawn Spawned, PArrive 0] (pool_start 2) = Some w" "pl_threads w = [Waiting]" "pl_main w = Spawning" "pl_shards w = 2"
    by (simp add: pool_eval)
  then have en: "pool_enabled (PSpawn NotifierRefused) w" "pl_threads w \<noteq> []" by simp_all
  show ?thesis using pool_start_hangs [OF calm_reachable [OF pool_start_reachable [OF w(1)]] en] w(1,2) by blast
qed

end
