(* ===== verification/IoSched.thy ===== *)
theory IoSched
  imports Prelude
begin

section \<open>Sharing reads in flight (glommio/src/io/sched.rs)\<close>

text \<open>
  The scheduler of a file keeps the reads that are in flight, or whose buffers are still in use, ordered by where they
  start, so that a read of a range that one of them covers shares its buffer. A read is named by a number that stands for the address of its reference-counted
  cell; the ordered tree is the list of those numbers, and where it puts an element among those with the same key is an argument of
  the insertion. Offsets are natural numbers: nothing here adds to one. The accounting of reused reads is not modelled.
\<close>

subsection \<open>State\<close>

record sched_inner =
  si_start :: nat
  si_end :: nat
  si_handles :: nat \<comment> \<open>references besides that of the tree\<close>

record file_sched =
  fs_sources :: "nat list"
  fs_inner :: "nat \<Rightarrow> sched_inner option"
  fs_longest :: nat
  fs_next :: nat

record sched_source =
  ss_inner :: nat
  ss_start :: nat
  ss_end :: nat

definition file_sched_new :: file_sched where
  "file_sched_new = \<lparr>fs_sources = [], fs_inner = Map.empty, fs_longest = 0, fs_next = 0\<rparr>"

definition start_of :: "file_sched \<Rightarrow> nat \<Rightarrow> nat" where
  "start_of f i = (case fs_inner f i of Some s \<Rightarrow> si_start s | None \<Rightarrow> 0)"

definition end_of :: "file_sched \<Rightarrow> nat \<Rightarrow> nat" where
  "end_of f i = (case fs_inner f i of Some s \<Rightarrow> si_end s | None \<Rightarrow> 0)"

definition handles_of :: "file_sched \<Rightarrow> nat \<Rightarrow> nat" where
  "handles_of f i = (case fs_inner f i of Some s \<Rightarrow> si_handles s | None \<Rightarrow> 0)"

subsection \<open>Operations\<close>

text \<open>The loop of \<^verbatim>\<open>consume_scheduled\<close>: the cursor moves towards the front.\<close>

fun scan_back :: "file_sched \<Rightarrow> nat \<Rightarrow> nat \<Rightarrow> nat list \<Rightarrow> nat option" where
  "scan_back f earliest b [] = None"
| "scan_back f earliest b (x # xs) =
     (if earliest \<le> start_of f x then (if b \<le> end_of f x then Some x else scan_back f earliest b xs) else None)"

definition covering :: "nat \<Rightarrow> nat \<Rightarrow> file_sched \<Rightarrow> nat option" where
  "covering a b f = scan_back f (b - fs_longest f) b (rev (takeWhile (\<lambda>x. start_of f x \<le> a) (fs_sources f)))"

definition set_handles :: "nat \<Rightarrow> nat \<Rightarrow> file_sched \<Rightarrow> file_sched" where
  "set_handles i n f = f\<lparr>fs_inner := (fs_inner f)(i := map_option (\<lambda>s. s\<lparr>si_handles := n\<rparr>) (fs_inner f i))\<rparr>"

definition consume_scheduled :: "nat \<Rightarrow> nat \<Rightarrow> file_sched \<Rightarrow> sched_source option \<times> file_sched" where
  "consume_scheduled a b f =
     (case covering a b f of
        None \<Rightarrow> (None, f)
      | Some i \<Rightarrow> let off = a - start_of f i
                  in (Some \<lparr>ss_inner = i, ss_start = off, ss_end = off + (b - a)\<rparr>, set_handles i (handles_of f i + 1) f))"

definition schedule_source :: "nat \<Rightarrow> nat \<Rightarrow> nat \<Rightarrow> file_sched \<Rightarrow> sched_source \<times> file_sched" where
  "schedule_source k a b f =
     (let i = fs_next f
      in (\<lparr>ss_inner = i, ss_start = 0, ss_end = b - a\<rparr>,
          f\<lparr>fs_longest := max (fs_longest f) (b - a), fs_sources := take k (fs_sources f) @ i # drop k (fs_sources f),
            fs_inner := (fs_inner f)(i \<mapsto> \<lparr>si_start = a, si_end = b, si_handles = 1\<rparr>), fs_next := i + 1\<rparr>))"

definition sched_source_clone :: "sched_source \<Rightarrow> file_sched \<Rightarrow> sched_source \<times> file_sched" where
  "sched_source_clone h f = (h, set_handles (ss_inner h) (handles_of f (ss_inner h) + 1) f)"

text \<open>Removing an element that is not in the tree is undefined behaviour.\<close>

definition remove_source :: "nat \<Rightarrow> file_sched \<Rightarrow> file_sched option" where
  "remove_source i f = (if i \<in> set (fs_sources f) then Some (f\<lparr>fs_sources := remove1 i (fs_sources f)\<rparr>) else None)"

definition strong_count :: "nat \<Rightarrow> file_sched \<Rightarrow> nat" where
  "strong_count i f = handles_of f i + (if i \<in> set (fs_sources f) then 1 else 0)"

text \<open>After the body of the drop the reference itself goes, and with the last one the source.\<close>

definition sched_source_drop :: "sched_source \<Rightarrow> file_sched \<Rightarrow> file_sched option" where
  "sched_source_drop h f =
     (let i = ss_inner h
      in Option.bind (if strong_count i f \<le> 2 then remove_source i f else Some f)
           (\<lambda>f1. Some (if strong_count i f1 = 1 then f1\<lparr>fs_inner := (fs_inner f1)(i := None)\<rparr> else set_handles i (handles_of f1 i - 1) f1)))"

definition bytes_in_range :: "sched_source \<Rightarrow> nat \<Rightarrow> nat" where
  "bytes_in_range h n = min (n - ss_start h) (ss_end h - ss_start h)"

text \<open>The part of the buffer of its source that a handle stands for.\<close>

definition source_bytes :: "'b list \<Rightarrow> sched_source \<Rightarrow> 'b list" where
  "source_bytes buf h = take (ss_end h - ss_start h) (drop (ss_start h) buf)"

text \<open>A read of a file that has a scheduler (\<^verbatim>\<open>Reactor::read_dma\<close>).\<close>

definition read_dma :: "nat \<Rightarrow> nat \<Rightarrow> nat \<Rightarrow> file_sched \<Rightarrow> sched_source \<times> file_sched" where
  "read_dma k a b f =
     (case consume_scheduled a b f of
        (Some h, f1) \<Rightarrow> (h, f1)
      | (None, f1) \<Rightarrow> schedule_source k a b f1)"

subsection \<open>A file in use\<close>

record sworld =
  sw_file :: file_sched
  sw_handles :: "sched_source list"

datatype sop = SRead nat nat nat | SClone nat | SDrop nat

definition remove_nth :: "nat \<Rightarrow> 'a list \<Rightarrow> 'a list" where
  "remove_nth j xs = take j xs @ drop (Suc j) xs"

fun s_exec :: "sop \<Rightarrow> sworld \<Rightarrow> sworld option" where
  "s_exec (SRead k a b) w = (case read_dma k a b (sw_file w) of (h, f) \<Rightarrow> Some \<lparr>sw_file = f, sw_handles = h # sw_handles w\<rparr>)"
| "s_exec (SClone j) w = (case sched_source_clone (sw_handles w ! j) (sw_file w) of (h, f) \<Rightarrow> Some \<lparr>sw_file = f, sw_handles = h # sw_handles w\<rparr>)"
| "s_exec (SDrop j) w =
     map_option (\<lambda>f. \<lparr>sw_file = f, sw_handles = remove_nth j (sw_handles w)\<rparr>) (sched_source_drop (sw_handles w ! j) (sw_file w))"

definition fits_at :: "nat \<Rightarrow> nat \<Rightarrow> file_sched \<Rightarrow> bool" where
  "fits_at k a f \<longleftrightarrow> list_all (\<lambda>x. start_of f x \<le> a) (take k (fs_sources f)) \<and> list_all (\<lambda>x. a \<le> start_of f x) (drop k (fs_sources f))"

fun s_enabled :: "sop \<Rightarrow> sworld \<Rightarrow> bool" where
  "s_enabled (SRead k a b) w = (a \<le> b \<and> fits_at k a (sw_file w))"
| "s_enabled (SClone j) w = (j < length (sw_handles w))"
| "s_enabled (SDrop j) w = (j < length (sw_handles w))"

inductive s_step :: "sworld \<Rightarrow> sworld \<Rightarrow> bool" where
  "s_enabled op w \<Longrightarrow> s_exec op w = Some w' \<Longrightarrow> s_step w w'"

inductive_cases s_stepE: "s_step w w'"

definition s_start :: sworld where
  "s_start = \<lparr>sw_file = file_sched_new, sw_handles = []\<rparr>"

subsection \<open>What holds\<close>

definition held :: "nat \<Rightarrow> sched_source list \<Rightarrow> nat" where
  "held i hs = length (filter (\<lambda>h. ss_inner h = i) hs)"

definition s_inv :: "sworld \<Rightarrow> bool" where
  "s_inv w \<longleftrightarrow> (let f = sw_file w in
     distinct (fs_sources f) \<and> sorted (map (start_of f) (fs_sources f)) \<and>
     (\<forall>i. i \<in> set (fs_sources f) \<longleftrightarrow> fs_inner f i \<noteq> None) \<and>
     (\<forall>i s. fs_inner f i = Some s \<longrightarrow> i < fs_next f \<and> si_start s \<le> si_end s \<and> si_end s - si_start s \<le> fs_longest f \<and>
        0 < si_handles s \<and> si_handles s = held i (sw_handles w)) \<and>
     (\<forall>h \<in> set (sw_handles w). \<exists>s. fs_inner f (ss_inner h) = Some s \<and> ss_start h \<le> ss_end h \<and> ss_end h \<le> si_end s - si_start s))"

lemma scan_back_sound: "scan_back f e b xs = Some x \<Longrightarrow> x \<in> set xs \<and> b \<le> end_of f x"
  by (induction xs) (auto split: if_splits)

lemma scan_back_complete:
  "sorted_wrt (\<lambda>x y. start_of f y \<le> start_of f x) xs \<Longrightarrow> x \<in> set xs \<Longrightarrow> e \<le> start_of f x \<Longrightarrow> b \<le> end_of f x \<Longrightarrow> scan_back f e b xs \<noteq> None"
  by (induction xs) (auto intro: order_trans)

lemma takeWhile_sorted: "sorted (map g xs) \<Longrightarrow> x \<in> set (takeWhile (\<lambda>x. g x \<le> (a :: nat)) xs) \<longleftrightarrow> x \<in> set xs \<and> g x \<le> a"
  by (induction xs) (auto intro: order_trans)

lemma set_handles_sel [simp]:
  "start_of (set_handles i n f) = start_of f" "end_of (set_handles i n f) = end_of f" "fs_sources (set_handles i n f) = fs_sources f"
  "fs_longest (set_handles i n f) = fs_longest f" "fs_next (set_handles i n f) = fs_next f"
  "fs_inner (set_handles i n f) j = (if j = i then map_option (\<lambda>s. s\<lparr>si_handles := n\<rparr>) (fs_inner f i) else fs_inner f j)"
  by (auto simp: set_handles_def start_of_def end_of_def fun_eq_iff split: option.splits)

lemma held_simps [simp]: "held i [] = 0" "held i (h # hs) = (if ss_inner h = i then Suc (held i hs) else held i hs)"
  by (simp_all add: held_def)

lemma held_pos: "0 < held i hs \<longleftrightarrow> (\<exists>h \<in> set hs. ss_inner h = i)"
  by (induction hs) auto

lemma held_remove: "j < length hs \<Longrightarrow> held i hs = held i (remove_nth j hs) + (if ss_inner (hs ! j) = i then 1 else 0)"
proof (induction hs arbitrary: j)
  case (Cons h hs)
  then show ?case by (cases j) (auto simp: remove_nth_def)
qed simp

lemma set_remove_nth: "h \<in> set (remove_nth j hs) \<Longrightarrow> h \<in> set hs"
  by (auto simp: remove_nth_def dest: in_set_takeD in_set_dropD)

lemma s_invD:
  assumes "s_inv w"
  shows "distinct (fs_sources (sw_file w))" "sorted (map (start_of (sw_file w)) (fs_sources (sw_file w)))"
    "i \<in> set (fs_sources (sw_file w)) \<longleftrightarrow> fs_inner (sw_file w) i \<noteq> None"
    "fs_inner (sw_file w) i = Some s \<Longrightarrow> i < fs_next (sw_file w) \<and> si_start s \<le> si_end s \<and> si_end s - si_start s \<le> fs_longest (sw_file w) \<and>
       0 < si_handles s \<and> si_handles s = held i (sw_handles w)"
    "h \<in> set (sw_handles w) \<Longrightarrow> \<exists>s. fs_inner (sw_file w) (ss_inner h) = Some s \<and> ss_start h \<le> ss_end h \<and> ss_end h \<le> si_end s - si_start s"
  using assms unfolding s_inv_def Let_def by blast+

text \<open>The search bounded by the longest range finds a covering source whenever there is one.\<close>

lemma covering_sound:
  assumes "s_inv w" "covering a b (sw_file w) = Some i"
  shows "i \<in> set (fs_sources (sw_file w)) \<and> start_of (sw_file w) i \<le> a \<and> b \<le> end_of (sw_file w) i"
  using scan_back_sound [OF assms(2) [unfolded covering_def]] takeWhile_sorted [OF s_invD(2) [OF assms(1)]] by auto

lemma covering_complete:
  assumes "s_inv w" "i \<in> set (fs_sources (sw_file w))" "start_of (sw_file w) i \<le> a" "b \<le> end_of (sw_file w) i"
  shows "covering a b (sw_file w) \<noteq> None"
proof -
  let ?f = "sw_file w"
  obtain s where s: "fs_inner ?f i = Some s" using assms(2) s_invD(3) [OF assms(1)] by auto
  have "b - fs_longest ?f \<le> start_of ?f i" using s_invD(4) [OF assms(1) s] assms(4) s by (simp add: start_of_def end_of_def, linarith)
  moreover have "i \<in> set (rev (takeWhile (\<lambda>x. start_of ?f x \<le> a) (fs_sources ?f)))"
    using takeWhile_sorted [OF s_invD(2) [OF assms(1)]] assms(2,3) by simp
  moreover have "sorted_wrt (\<lambda>x y. start_of ?f y \<le> start_of ?f x) (rev (takeWhile (\<lambda>x. start_of ?f x \<le> a) (fs_sources ?f)))"
  proof -
    obtain zs where "fs_sources ?f = takeWhile (\<lambda>x. start_of ?f x \<le> a) (fs_sources ?f) @ zs" by (metis takeWhile_dropWhile_id)
    then have "sorted (map (start_of ?f) (takeWhile (\<lambda>x. start_of ?f x \<le> a) (fs_sources ?f)))"
      using s_invD(2) [OF assms(1)] by (metis map_append sorted_append)
    then show ?thesis by (simp add: sorted_wrt_rev sorted_wrt_map)
  qed
  ultimately show ?thesis unfolding covering_def using scan_back_complete assms(4) by blast
qed

lemma more_handles_ok:
  assumes "s_inv w" "fs_inner (sw_file w) i = Some s" "x \<le> y" "y \<le> si_end s - si_start s"
  shows "s_inv \<lparr>sw_file = set_handles i (handles_of (sw_file w) i + 1) (sw_file w), sw_handles = \<lparr>ss_inner = i, ss_start = x, ss_end = y\<rparr> # sw_handles w\<rparr>"
  using s_invD(1-3) [OF assms(1)] s_invD(4,5) [OF assms(1)] assms(2-4)
  by (fastforce simp: s_inv_def Let_def handles_of_def)

lemma schedule_source_ok:
  assumes "s_inv w" "a \<le> b" "fits_at k a (sw_file w)" "schedule_source k a b (sw_file w) = (h, f)"
  shows "s_inv \<lparr>sw_file = f, sw_handles = h # sw_handles w\<rparr>"
proof -
  let ?f = "sw_file w" let ?i = "fs_next ?f"
  have f: "f = ?f\<lparr>fs_longest := max (fs_longest ?f) (b - a), fs_sources := take k (fs_sources ?f) @ ?i # drop k (fs_sources ?f),
      fs_inner := (fs_inner ?f)(?i \<mapsto> \<lparr>si_start = a, si_end = b, si_handles = 1\<rparr>), fs_next := ?i + 1\<rparr>"
    and h: "h = \<lparr>ss_inner = ?i, ss_start = 0, ss_end = b - a\<rparr>"
    using assms(4) by (simp_all add: schedule_source_def Let_def)
  have new: "fs_inner ?f ?i = None" using s_invD(4) [OF assms(1), of ?i] by (cases "fs_inner ?f ?i") auto
  then have i: "?i \<notin> set (fs_sources ?f)" "held ?i (sw_handles w) = 0"
    using s_invD(3) [OF assms(1)] s_invD(5) [OF assms(1)] held_pos [of ?i "sw_handles w"] by fastforce+
  have st: "start_of f = (start_of ?f)(?i := a)" by (auto simp: f start_of_def)
  have src: "set (fs_sources f) = insert ?i (set (fs_sources ?f))" "distinct (fs_sources f)"
    using i(1) s_invD(1) [OF assms(1)] set_append [of "take k (fs_sources ?f)" "drop k (fs_sources ?f)"]
    by (auto simp: f distinct_append [symmetric] dest: in_set_takeD in_set_dropD set_take_disj_set_drop_if_distinct)
  let ?xs = "take k (fs_sources ?f)" and ?ys = "drop k (fs_sources ?f)"
  have "sorted (map (start_of ?f) ?xs @ map (start_of ?f) ?ys)" using s_invD(2) [OF assms(1)] by (metis append_take_drop_id map_append)
  moreover have "map (start_of f) ?xs = map (start_of ?f) ?xs" "map (start_of f) ?ys = map (start_of ?f) ?ys" "start_of f ?i = a"
    using i(1) by (auto simp: st dest: in_set_takeD in_set_dropD)
  moreover have "fs_sources f = ?xs @ ?i # ?ys" by (simp add: f)
  ultimately have sorted: "sorted (map (start_of f) (fs_sources f))"
    using assms(3) by (auto simp: fits_at_def list_all_iff sorted_append simp del: map_eq_conv)
  show ?thesis using src sorted i new h assms(2) s_invD(3) [OF assms(1)] s_invD(4,5) [OF assms(1)]
    by (fastforce simp: s_inv_def Let_def f)
qed

lemma consume_ok:
  assumes "s_inv w" "a \<le> b" "consume_scheduled a b (sw_file w) = (Some h, f)"
  shows "s_inv \<lparr>sw_file = f, sw_handles = h # sw_handles w\<rparr>"
proof -
  let ?f = "sw_file w"
  obtain i where i: "covering a b ?f = Some i" "h = \<lparr>ss_inner = i, ss_start = a - start_of ?f i, ss_end = a - start_of ?f i + (b - a)\<rparr>"
    "f = set_handles i (handles_of ?f i + 1) ?f"
    using assms(3) by (auto simp: consume_scheduled_def Let_def split: option.splits)
  have c: "i \<in> set (fs_sources ?f)" "start_of ?f i \<le> a" "b \<le> end_of ?f i" using covering_sound [OF assms(1) i(1)] by auto
  then obtain s where s: "fs_inner ?f i = Some s" using s_invD(3) [OF assms(1)] by auto
  then show ?thesis unfolding i using c assms(2) by (intro more_handles_ok [OF assms(1) s]) (auto simp: start_of_def end_of_def)
qed

lemma read_dma_ok:
  assumes "s_inv w" "a \<le> b" "fits_at k a (sw_file w)" "read_dma k a b (sw_file w) = (h, f)"
  shows "s_inv \<lparr>sw_file = f, sw_handles = h # sw_handles w\<rparr>"
proof (cases "covering a b (sw_file w)")
  case None
  then show ?thesis using assms schedule_source_ok [OF assms(1-3)] by (simp add: read_dma_def consume_scheduled_def)
next
  case (Some i)
  then show ?thesis using assms consume_ok [OF assms(1,2)] by (simp add: read_dma_def consume_scheduled_def Let_def)
qed

lemma clone_ok:
  assumes "s_inv w" "h \<in> set (sw_handles w)" "sched_source_clone h (sw_file w) = (h', f)"
  shows "s_inv \<lparr>sw_file = f, sw_handles = h' # sw_handles w\<rparr>"
proof -
  obtain s where s: "fs_inner (sw_file w) (ss_inner h) = Some s" "ss_start h \<le> ss_end h" "ss_end h \<le> si_end s - si_start s"
    using s_invD(5) [OF assms(1,2)] by blast
  then show ?thesis using more_handles_ok [OF assms(1) s] assms(3) by (cases h) (auto simp: sched_source_clone_def)
qed

lemma drop_last_ok:
  assumes "s_inv w" "j < length (sw_handles w)" "ss_inner (sw_handles w ! j) = i" "held i (sw_handles w) = 1"
  shows "s_inv \<lparr>sw_file = (sw_file w)\<lparr>fs_sources := remove1 i (fs_sources (sw_file w)), fs_inner := (fs_inner (sw_file w))(i := None)\<rparr>,
    sw_handles = remove_nth j (sw_handles w)\<rparr>"
proof -
  let ?f = "sw_file w" and ?hs = "remove_nth j (sw_handles w)"
  let ?g = "?f\<lparr>fs_sources := remove1 i (fs_sources ?f), fs_inner := (fs_inner ?f)(i := None)\<rparr>"
  have gone: "held i ?hs = 0" using held_remove [OF assms(2), of i] assms(3,4) by simp
  have other: "held k ?hs = held k (sw_handles w)" if "k \<noteq> i" for k using held_remove [OF assms(2), of k] assms(3) that by simp
  have "map (start_of ?g) (remove1 i (fs_sources ?f)) = map (start_of ?f) (remove1 i (fs_sources ?f))"
    using s_invD(1) [OF assms(1)] by (auto simp: start_of_def)
  then have "sorted (map (start_of ?g) (fs_sources ?g))" using sorted_map_remove1 [OF s_invD(2) [OF assms(1)]] by (simp del: map_eq_conv)
  moreover have "ss_inner h \<noteq> i" if "h \<in> set ?hs" for h using gone held_pos [of i ?hs] that by auto
  moreover have "0 < held k (sw_handles w)" if "fs_inner ?f k = Some s" for k s using s_invD(4) [OF assms(1) that] by simp
  ultimately show ?thesis using s_invD(1) [OF assms(1)] s_invD(3) [OF assms(1)] s_invD(4,5) [OF assms(1)] other set_remove_nth [of _ j "sw_handles w"]
    by (auto simp: s_inv_def Let_def)
qed

lemma drop_some_ok:
  assumes "s_inv w" "j < length (sw_handles w)" "ss_inner (sw_handles w ! j) = i" "1 < held i (sw_handles w)" "fs_inner (sw_file w) i = Some s"
  shows "s_inv \<lparr>sw_file = set_handles i (si_handles s - 1) (sw_file w), sw_handles = remove_nth j (sw_handles w)\<rparr>"
proof -
  have h: "held k (sw_handles w) = held k (remove_nth j (sw_handles w)) + (if k = i then 1 else 0)" for k
    using held_remove [OF assms(2), of k] assms(3) by simp
  have "si_handles s = held i (sw_handles w)" using s_invD(4) [OF assms(1,5)] by blast
  then show ?thesis using h [of i] h s_invD(1-3) [OF assms(1)] s_invD(4,5) [OF assms(1)] assms(4,5) set_remove_nth [of _ j "sw_handles w"]
    by (fastforce simp: s_inv_def Let_def)
qed

lemma source_drop_ok:
  assumes "s_inv w" "j < length (sw_handles w)"
  shows "\<exists>w'. s_exec (SDrop j) w = Some w' \<and> s_inv w'"
proof -
  let ?h = "sw_handles w ! j" let ?i = "ss_inner ?h"
  obtain s where s: "fs_inner (sw_file w) ?i = Some s" using s_invD(5) [OF assms(1), of ?h] assms(2) by auto
  have i: "?i \<in> set (fs_sources (sw_file w))" "si_handles s = held ?i (sw_handles w)" "0 < si_handles s" "distinct (fs_sources (sw_file w))"
    using s s_invD(1,3) [OF assms(1)] s_invD(4) [OF assms(1) s] by auto
  show ?thesis
  proof (cases "si_handles s = 1")
    case True
    then have "sched_source_drop ?h (sw_file w) = Some ((sw_file w)\<lparr>fs_sources := remove1 ?i (fs_sources (sw_file w)), fs_inner := (fs_inner (sw_file w))(?i := None)\<rparr>)"
      using s i by (simp add: sched_source_drop_def strong_count_def remove_source_def handles_of_def Let_def)
    then show ?thesis using drop_last_ok [OF assms refl] True i(2) by simp
  next
    case False
    then have "sched_source_drop ?h (sw_file w) = Some (set_handles ?i (si_handles s - 1) (sw_file w))"
      using s i by (simp add: sched_source_drop_def strong_count_def handles_of_def Let_def)
    then show ?thesis using drop_some_ok [OF assms refl _ s] False i(2,3) by simp
  qed
qed

lemma s_exec_ok:
  assumes "s_inv w" "s_enabled op w"
  shows "\<exists>w'. s_exec op w = Some w' \<and> s_inv w'"
proof (cases op)
  case (SRead k a b)
  then show ?thesis using assms read_dma_ok [OF assms(1), of a b k] by (auto split: prod.splits)
next
  case (SClone j)
  then show ?thesis using assms clone_ok [OF assms(1), of "sw_handles w ! j"] by (auto split: prod.splits)
qed (use assms source_drop_ok [OF assms(1)] in simp)

interpretation iosched: transition_inv "\<lambda>w. w = s_start" s_step s_inv
proof unfold_locales
  show "s_inv w" if "w = s_start" for w using that by (simp add: s_start_def file_sched_new_def s_inv_def)
  show "s_inv w'" if inv: "s_inv w" and st: "s_step w w'" for w w'
    using s_exec_ok [OF inv] st by (fastforce elim: s_stepE)
qed

subsection \<open>Properties\<close>

text \<open>
  Claim C28. A read shares another one exactly when it can. In every state that reads, clones and
  drops lead to, the search for a covering source, which starts at the last one that begins early enough and gives up at
  a distance of the longest range ever scheduled, finds one exactly when some source that is in use covers the range asked
  for; and what it returns stands for exactly that range of its source.
\<close>

theorem reuse_exact:
  assumes "reachable (\<lambda>w. w = s_start) s_step w" "a \<le> b"
  shows "(fst (consume_scheduled a b (sw_file w)) \<noteq> None \<longleftrightarrow>
      (\<exists>i s. i \<in> set (fs_sources (sw_file w)) \<and> fs_inner (sw_file w) i = Some s \<and> si_start s \<le> a \<and> b \<le> si_end s)) \<and>
    (\<forall>h. fst (consume_scheduled a b (sw_file w)) = Some h \<longrightarrow>
      (\<exists>s. fs_inner (sw_file w) (ss_inner h) = Some s \<and> si_start s + ss_start h = a \<and> si_start s + ss_end h = b \<and> b \<le> si_end s))"
proof -
  let ?f = "sw_file w"
  have inv: "s_inv w" using iosched.reachable_inv [OF assms(1)] .
  have sound: "\<exists>s. i \<in> set (fs_sources ?f) \<and> fs_inner ?f i = Some s \<and> si_start s \<le> a \<and> b \<le> si_end s \<and> start_of ?f i = si_start s"
    if "covering a b ?f = Some i" for i
    using covering_sound [OF inv that] s_invD(3) [OF inv, of i] by (auto simp: start_of_def end_of_def)
  have complete: "covering a b ?f \<noteq> None" if "i \<in> set (fs_sources ?f)" "fs_inner ?f i = Some s" "si_start s \<le> a" "b \<le> si_end s" for i s
    using covering_complete [OF inv that(1)] that(2-4) by (simp add: start_of_def end_of_def)
  show ?thesis
  proof (cases "covering a b ?f")
    case None
    then show ?thesis using complete by (auto simp: consume_scheduled_def)
  next
    case (Some i)
    then show ?thesis using sound [OF Some] assms(2) by (auto simp: consume_scheduled_def Let_def)
  qed
qed

text \<open>
  A buffer is shared exactly as long as it is used. In every reachable state the sources
  that a file's scheduler knows are those that some handle stands for, each handle stands for
  a range inside its source, and every drop of a handle succeeds: the count that it tests
  tells the last handle from the others, so it removes its source from the tree once, and never before.
\<close>

lemma sources_kept_while_used:
  assumes "reachable (\<lambda>w. w = s_start) s_step w"
  shows "set (fs_sources (sw_file w)) = ss_inner ` set (sw_handles w) \<and> distinct (fs_sources (sw_file w)) \<and>
    (h \<in> set (sw_handles w) \<longrightarrow> (\<exists>s. fs_inner (sw_file w) (ss_inner h) = Some s \<and> ss_start h \<le> ss_end h \<and> si_start s + ss_end h \<le> si_end s)) \<and>
    (s_enabled op w \<longrightarrow> s_exec op w \<noteq> None)"
proof -
  have inv: "s_inv w" using iosched.reachable_inv [OF assms] .
  have "i \<in> set (fs_sources (sw_file w)) \<longleftrightarrow> i \<in> ss_inner ` set (sw_handles w)" for i
    using s_invD(3) [OF inv, of i] s_invD(4) [OF inv, of i] s_invD(5) [OF inv] held_pos [of i "sw_handles w"] by fastforce
  then show ?thesis using s_invD(1) [OF inv] s_invD(4,5) [OF inv] s_exec_ok [OF inv, of op] by fastforce
qed

subsection \<open>Concrete runs\<close>

fun s_run :: "sop list \<Rightarrow> sworld \<Rightarrow> sworld option" where
  "s_run [] w = Some w"
| "s_run (op # ops) w = (if s_enabled op w then Option.bind (s_exec op w) (s_run ops) else None)"

lemma s_run_reachable: "s_run ops w = Some u \<Longrightarrow> reachable (\<lambda>w. w = s_start) s_step w \<Longrightarrow> reachable (\<lambda>w. w = s_start) s_step u"
proof (induction ops arbitrary: w)
  case (Cons op ops)
  then obtain v where "s_step w v" "s_run ops v = Some u" by (auto simp: bind_eq_Some_conv intro: s_step.intros split: if_splits)
  then show ?case using Cons.IH [of v] reachable_step [OF Cons.prems(2)] by blast
qed simp

text \<open>A wide read, and a narrow one that it does not cover; then the handle of the narrow one is dropped.\<close>

definition sched_scene :: "sop list" where
  "sched_scene = [SRead 0 0 16, SRead 1 12 20, SClone 0]"

lemma sched_scene_run:
  "\<exists>w. s_run sched_scene s_start = Some w \<and> reachable (\<lambda>w. w = s_start) s_step w \<and> length (sw_handles w) = 3 \<and>
     fst (consume_scheduled 4 16 (sw_file w)) = Some \<lparr>ss_inner = 0, ss_start = 4, ss_end = 16\<rparr>"
proof -
  have "\<exists>w. s_run sched_scene s_start = Some w \<and> length (sw_handles w) = 3 \<and>
     fst (consume_scheduled 4 16 (sw_file w)) = Some \<lparr>ss_inner = 0, ss_start = 4, ss_end = 16\<rparr>"
    by (simp add: sched_scene_def s_start_def file_sched_new_def read_dma_def consume_scheduled_def covering_def schedule_source_def Let_def
      fits_at_def start_of_def end_of_def handles_of_def set_handles_def sched_source_clone_def)
  then show ?thesis using s_run_reachable by blast
qed

theorem reuse_exact_witness:
  "\<exists>w s. s_run sched_scene s_start = Some w \<and> fs_inner (sw_file w) 0 = Some s \<and> si_start s + 4 = 4 \<and> si_start s + 16 = 16"
proof -
  obtain w where w: "s_run sched_scene s_start = Some w" "reachable (\<lambda>w. w = s_start) s_step w"
    "fst (consume_scheduled 4 16 (sw_file w)) = Some \<lparr>ss_inner = 0, ss_start = 4, ss_end = 16\<rparr>"
    using sched_scene_run by blast
  then show ?thesis using reuse_exact [OF w(2), of 4 16] by auto
qed

end
