(* ===== verification/DmaRead.thy ===== *)
theory DmaRead
  imports IoSched
begin

section \<open>Direct reads (glommio/src/io/bulk_io.rs, dma_file.rs, read_result.rs)\<close>

text \<open>
  Reads of a file opened for direct I/O: requests of any position and size are merged, aligned to the
  blocks of the device, deduplicated, issued in bulk and cut to what was asked for. Positions and sizes are 64-bit words.
  The stream of requests that the user supplies is the list of what its polls return, \<open>None\<close> for a poll that is pending,
  and it has ended after the last. What the device answers is a hypothesis on the buffer of a read that succeeded, which may have been cut short. Errors that the kernel reports
  and the statistics are not modelled.
\<close>

unbundle bit_operations_syntax

type_synonym iovec = "u64 \<times> usize"

subsection \<open>Alignment\<close>

definition align_up :: "u64 \<Rightarrow> u64 \<Rightarrow> u64" where
  "align_up v align = (v + align - 1) AND NOT (align - 1)"

definition align_down :: "u64 \<Rightarrow> u64 \<Rightarrow> u64" where
  "align_down v align = v AND NOT (align - 1)"

subsection \<open>Merging requests\<close>

datatype merged_buffer_limit = NoMerging | DeviceMaxSingleRequest | CustomBuffer usize

datatype read_amplification_limit = NoAmplification | CustomAmplification usize | NoLimit

record merged_iovecs =
  mi_user :: "iovec list"
  mi_pos :: u64
  mi_size :: usize

definition deduplicate :: "merged_iovecs \<Rightarrow> merged_iovecs \<Rightarrow> merged_iovecs option \<times> merged_iovecs" where
  "deduplicate x other =
     (if mi_pos x = mi_pos other \<and> mi_size x = mi_size other then (None, x\<lparr>mi_user := mi_user x @ mi_user other\<rparr>)
      else (Some x, other))"

record iovec_merger =
  mg_max :: usize
  mg_amp :: "usize option"
  mg_current :: "iovec option"
  mg_merged :: "iovec list"

definition saturating_sub :: "u64 \<Rightarrow> u64 \<Rightarrow> u64" where
  "saturating_sub a b = (if b \<le> a then a - b else 0)"

definition too_far :: "usize option \<Rightarrow> iovec \<Rightarrow> iovec \<Rightarrow> bool" where
  "too_far amp cur io =
     (case amp of
        None \<Rightarrow> False
      | Some gap \<Rightarrow> gap < saturating_sub (fst cur) (fst io + snd io) \<or> gap < saturating_sub (fst io) (fst cur + snd cur))"

definition merger_merge :: "iovec \<Rightarrow> iovec_merger \<Rightarrow> merged_iovecs option \<times> iovec_merger" where
  "merger_merge io m =
     (case mg_current m of
        None \<Rightarrow> (None, m\<lparr>mg_current := Some io, mg_merged := mg_merged m @ [io]\<rparr>)
      | Some cur \<Rightarrow>
          (let done = (Some \<lparr>mi_user = mg_merged m, mi_pos = fst cur, mi_size = snd cur\<rparr>, m\<lparr>mg_current := Some io, mg_merged := [io]\<rparr>);
               lo = min (fst cur) (fst io);
               hi = max (fst cur + snd cur) (fst io + snd io)
           in if too_far (mg_amp m) cur io then done
              else if mg_max m < hi - lo then done
              else (None, m\<lparr>mg_merged := mg_merged m @ [io], mg_current := Some (lo, hi - lo)\<rparr>)))"

definition merger_flush :: "iovec_merger \<Rightarrow> merged_iovecs option \<times> iovec_merger" where
  "merger_flush m =
     (case mg_current m of
        None \<Rightarrow> (None, m)
      | Some x \<Rightarrow> (Some \<lparr>mi_user = mg_merged m, mi_pos = fst x, mi_size = snd x\<rparr>, m\<lparr>mg_current := None, mg_merged := []\<rparr>))"

subsection \<open>The stream of merged requests\<close>

record coalesced_reads =
  co_iter :: "iovec option list"
  co_merger :: "iovec_merger option"
  co_alignment :: "u64 option"
  co_last :: "merged_iovecs option"

definition coalesced_new :: "usize \<Rightarrow> usize option \<Rightarrow> u64 option \<Rightarrow> iovec option list \<Rightarrow> coalesced_reads" where
  "coalesced_new mx amp al es =
     \<lparr>co_iter = es, co_merger = Some \<lparr>mg_max = mx, mg_amp = amp, mg_current = None, mg_merged = []\<rparr>, co_alignment = al, co_last = None\<rparr>"

definition align_merged :: "u64 option \<Rightarrow> merged_iovecs \<Rightarrow> merged_iovecs" where
  "align_merged al x =
     (case al of
        None \<Rightarrow> x
      | Some a \<Rightarrow> (let eff = align_down (mi_pos x) a; b = mi_pos x - eff in x\<lparr>mi_pos := eff, mi_size := align_up (mi_size x + b) a\<rparr>))"

fun next_inner :: "iovec option list \<Rightarrow> iovec_merger option \<Rightarrow>
    (merged_iovecs option poll \<times> iovec option list \<times> iovec_merger option) option" where
  "next_inner [] None = Some (Ready None, [], None)"
| "next_inner [] (Some m) = Some (Ready (fst (merger_flush m)), [], None)"
| "next_inner (e # es) None = None"
| "next_inner (None # es) (Some m) =
     (case merger_flush m of
        (Some x, m') \<Rightarrow> Some (Ready (Some x), es, Some m')
      | (None, m') \<Rightarrow> Some (Pending, es, Some m'))"
| "next_inner (Some io # es) (Some m) =
     (case merger_merge io m of
        (Some x, m') \<Rightarrow> Some (Ready (Some x), es, Some m')
      | (None, m') \<Rightarrow> next_inner es (Some m'))"

function coalesced_poll :: "coalesced_reads \<Rightarrow> (merged_iovecs option poll \<times> coalesced_reads) option" where
  "coalesced_poll c =
     (case next_inner (co_iter c) (co_merger c) of
        None \<Rightarrow> None
      | Some (Pending, es, m) \<Rightarrow> Some (Pending, c\<lparr>co_iter := es, co_merger := m\<rparr>)
      | Some (Ready None, es, m) \<Rightarrow> Some (Ready (co_last c), c\<lparr>co_iter := es, co_merger := m, co_last := None\<rparr>)
      | Some (Ready (Some x), es, m) \<Rightarrow>
          (let c1 = c\<lparr>co_iter := es, co_merger := m\<rparr>; y = align_merged (co_alignment c) x
           in case co_last c of
                None \<Rightarrow> coalesced_poll (c1\<lparr>co_last := Some y\<rparr>)
              | Some l \<Rightarrow>
                  (case deduplicate l y of
                     (Some l', n) \<Rightarrow> Some (Ready (Some l'), c1\<lparr>co_last := Some n\<rparr>)
                   | (None, n) \<Rightarrow> coalesced_poll (c1\<lparr>co_last := Some n\<rparr>))))"
  by pat_completeness auto
termination
proof -
  have shrinks: "length es' + (case m' of None \<Rightarrow> 0 | Some _ \<Rightarrow> 1) < length es + (case m of None \<Rightarrow> 0 | Some _ \<Rightarrow> (1 :: nat))"
    if "next_inner es m = Some (Ready (Some x), es', m')" for es m x es' m'
    using that by (induction es m rule: next_inner.induct) (auto split: prod.splits option.splits)
  show ?thesis
    by (relation "measure (\<lambda>c. length (co_iter c) + (case co_merger c of None \<Rightarrow> 0 | Some _ \<Rightarrow> 1))") (auto dest!: shrinks)
qed

text \<open>What a task that polls the stream until its end, at most \<open>n\<close> times, obtains.\<close>

fun coalesce :: "nat \<Rightarrow> coalesced_reads \<Rightarrow> merged_iovecs list option" where
  "coalesce 0 c = None"
| "coalesce (Suc n) c =
     (case coalesced_poll c of
        None \<Rightarrow> None
      | Some (Pending, c') \<Rightarrow> coalesce n c'
      | Some (Ready None, c') \<Rightarrow> Some []
      | Some (Ready (Some x), c') \<Rightarrow> map_option (Cons x) (coalesce n c'))"

subsection \<open>Alignment by a power of two\<close>

lemma not_mask: "NOT (2 ^ k - 1) = NOT (mask k :: u64)"
  by (simp add: mask_eq_decr_exp)

lemma unat_pow2_u64: "k < 64 \<Longrightarrow> unat (2 ^ k :: u64) = 2 ^ k"
  using unat_of_nat [of "2 ^ k", where 'a = 64] power_strict_increasing [of k 64 "2 :: nat"] by simp

lemma unat_align_down:
  assumes "k < 64"
  shows "unat (align_down v (2 ^ k)) = unat v div 2 ^ k * 2 ^ k"
proof -
  have "align_down v (2 ^ k) = push_bit k (drop_bit k v)"
    unfolding align_down_def not_mask by (rule bit_eqI) (auto simp: bit_simps)
  moreover have "unat (drop_bit k v) = unat v div 2 ^ k" 
    using unat_drop_bit_eq [of k v] drop_bit_eq_div [of k "unat v"] by simp
  moreover have "unat v div 2 ^ k * 2 ^ k < 2 ^ 64" using unat_u64_bound [of v] by (meson div_times_less_eq_dividend le_less_trans)
  ultimately show ?thesis using assms by (simp add: unat_word_ariths unat_pow2_u64 push_bit_eq_mult)
qed

lemma unat_align_up:
  assumes "k < 64" "unat v + 2 ^ k \<le> 2 ^ 64"
  shows "unat (align_up v (2 ^ k)) = (unat v + 2 ^ k - 1) div 2 ^ k * 2 ^ k"
proof -
  have "unat (v + (2 ^ k - 1)) = unat v + (2 ^ k - 1)"
  proof -
    have "unat (2 ^ k - 1 :: u64) = 2 ^ k - 1" using assms(1) by (simp add: unat_sub unat_pow2_u64 word_le_nat_alt)
    then show ?thesis using assms by (intro trans [OF unat_add_u64]) auto
  qed
  moreover have "align_up v (2 ^ k) = align_down (v + (2 ^ k - 1)) (2 ^ k)" by (simp add: align_up_def align_down_def algebra_simps)
  ultimately show ?thesis using unat_align_down [OF assms(1), of "v + (2 ^ k - 1)"] by simp
qed

text \<open>The aligned range that replaces a range contains it and is less than two blocks longer.\<close>

lemma align_range:
  assumes "k < 64" "unat p + unat n + 2 ^ k < 2 ^ 64" "p' = align_down p (2 ^ k)" "n' = align_up (n + (p - p')) (2 ^ k)"
  shows "2 ^ k dvd unat p'" "2 ^ k dvd unat n'" "unat p' \<le> unat p" "unat p + unat n \<le> unat p' + unat n'" "unat n' < unat n + 2 * 2 ^ k"
    "unat p' + unat n' < 2 ^ 64"
proof -
  let ?a = "2 ^ k :: nat"
  have p': "unat p' = unat p div ?a * ?a" using assms(1,3) by (simp add: unat_align_down)
  then have le: "unat p' \<le> unat p" "unat p - unat p' < ?a" by (auto simp: minus_div_mult_eq_mod)
  then have sub: "unat (p - p') = unat p - unat p'" by (simp add: unat_sub word_le_nat_alt)
  then have sum: "unat (n + (p - p')) = unat n + (unat p - unat p')" using assms(2) le by (intro trans [OF unat_add_u64]) auto
  then have n': "unat n' = (unat n + (unat p - unat p') + ?a - 1) div ?a * ?a" using assms(1,2,4) le by (subst assms(4), subst unat_align_up) auto
  define t where "t = unat n + (unat p - unat p')"
  have up: "t \<le> unat n'" "unat n' < t + ?a"
  proof -
    have q: "unat n' = (t + ?a - 1) div ?a * ?a" using n' t_def by simp
    have "(t + ?a - 1) div ?a * ?a \<le> t + ?a - 1" "t + ?a - 1 < ?a + (t + ?a - 1) div ?a * ?a" "0 < ?a"
      by (auto intro: div_times_less_eq_dividend dividend_less_div_times)
    then show "t \<le> unat n'" "unat n' < t + ?a" unfolding q by linarith+
  qed
  show "?a dvd unat p'" "?a dvd unat n'" "unat p' \<le> unat p" using p' n' le by simp_all
  show "unat p + unat n \<le> unat p' + unat n'" "unat n' < unat n + 2 * ?a" "unat p' + unat n' < 2 ^ 64" using up le assms(2) unfolding t_def by linarith+
qed

subsection \<open>Merged requests cover what they merge\<close>

definition io_end :: "iovec \<Rightarrow> nat" where
  "io_end io = unat (fst io) + unat (snd io)"

definition io_ok :: "nat \<Rightarrow> iovec \<Rightarrow> bool" where
  "io_ok k io \<longleftrightarrow> io_end io + 2 ^ k < 2 ^ 64"

definition covers :: "u64 \<Rightarrow> usize \<Rightarrow> iovec \<Rightarrow> bool" where
  "covers p n io \<longleftrightarrow> unat p \<le> unat (fst io) \<and> io_end io \<le> unat p + unat n"

text \<open>The limit holds up to \<open>d\<close> bytes of alignment, unless a single request is larger.\<close>

definition size_ok :: "usize \<Rightarrow> nat \<Rightarrow> iovec list \<Rightarrow> usize \<Rightarrow> bool" where
  "size_ok mx d us n \<longleftrightarrow> (\<exists>io \<in> set us. unat n \<le> max (unat mx) (unat (snd io)) + d)"

lemma size_ok_append: "size_ok mx d us n \<Longrightarrow> size_ok mx d (us @ vs) n"
  by (auto simp: size_ok_def)

definition within :: "nat \<Rightarrow> usize \<Rightarrow> iovec list \<Rightarrow> iovec \<Rightarrow> bool" where
  "within k mx us r \<longleftrightarrow> us \<noteq> [] \<and> (\<forall>io \<in> set us. covers (fst r) (snd r) io) \<and> io_ok k r \<and> size_ok mx 0 us (snd r)"

definition aligned_ok :: "nat \<Rightarrow> usize \<Rightarrow> merged_iovecs \<Rightarrow> bool" where
  "aligned_ok k mx x \<longleftrightarrow> mi_user x \<noteq> [] \<and> (\<forall>io \<in> set (mi_user x). covers (mi_pos x) (mi_size x) io) \<and>
     2 ^ k dvd unat (mi_pos x) \<and> 2 ^ k dvd unat (mi_size x) \<and> unat (mi_pos x) + unat (mi_size x) < 2 ^ 64 \<and>
     size_ok mx (2 * 2 ^ k - 1) (mi_user x) (mi_size x)"

definition mg_ok :: "nat \<Rightarrow> usize \<Rightarrow> iovec_merger \<Rightarrow> bool" where
  "mg_ok k mx m \<longleftrightarrow> mg_max m = mx \<and> (case mg_current m of None \<Rightarrow> mg_merged m = [] | Some r \<Rightarrow> within k mx (mg_merged m) r)"

definition out_ok :: "nat \<Rightarrow> usize \<Rightarrow> merged_iovecs \<Rightarrow> bool" where
  "out_ok k mx x \<longleftrightarrow> within k mx (mi_user x) (mi_pos x, mi_size x)"

lemma within_single: "io_ok k io \<Longrightarrow> within k mx [io] io"
  by (simp add: within_def covers_def io_end_def size_ok_def)

lemma within_extend:
  assumes "within k mx us cur" "io_ok k io"
    and lo: "lo = min (fst cur) (fst io)" and hi: "hi = max (fst cur + snd cur) (fst io + snd io)" and "\<not> mx < hi - lo"
  shows "within k mx (us @ [io]) (lo, hi - lo)"
proof -
  have c: "io_end cur + 2 ^ k < 2 ^ 64" "us \<noteq> []" "\<And>v. v \<in> set us \<Longrightarrow> covers (fst cur) (snd cur) v" using assms(1) by (auto simp: within_def io_ok_def)
  have ends: "unat (fst cur + snd cur) = io_end cur" "unat (fst io + snd io) = io_end io"
    using c(1) assms(2) by (auto simp: io_end_def io_ok_def intro!: unat_add_u64)
  then have u: "unat lo = min (unat (fst cur)) (unat (fst io))" "unat hi = max (io_end cur) (io_end io)"
    unfolding lo hi by (auto simp: min_def max_def word_le_nat_alt)
  then have "unat lo \<le> unat hi" by (auto simp: io_end_def)
  then have s: "unat (hi - lo) = unat hi - unat lo" by (simp add: unat_sub word_le_nat_alt)
  have "unat (hi - lo) \<le> unat mx" using assms(5) by (simp add: word_less_nat_alt)
  moreover have "covers lo (hi - lo) v" if "v = io \<or> v \<in> set us" for v
    using that c(3) [of v] u s \<open>unat lo \<le> unat hi\<close> by (auto simp: covers_def io_end_def)
  moreover have "io_ok k (lo, hi - lo)" using u s c(1) assms(2) \<open>unat lo \<le> unat hi\<close> by (auto simp: io_ok_def io_end_def)
  ultimately show ?thesis by (auto simp: within_def size_ok_def)
qed

lemma merge_ok:
  assumes "mg_ok k mx m" "io_ok k io" "merger_merge io m = (r, m')"
  shows "mg_ok k mx m' \<and> (case r of None \<Rightarrow> mg_merged m' = mg_merged m @ [io] | Some x \<Rightarrow> out_ok k mx x \<and> mi_user x = mg_merged m \<and> mg_merged m' = [io])"
proof (cases "mg_current m")
  case None
  then show ?thesis using assms within_single [OF assms(2)] by (auto simp: merger_merge_def mg_ok_def)
next
  case (Some cur)
  then have w: "within k mx (mg_merged m) cur" "mg_max m = mx" using assms(1) by (auto simp: mg_ok_def)
  then show ?thesis using Some assms(3) within_single [OF assms(2)] within_extend [OF w(1) assms(2) refl refl]
    by (auto simp: merger_merge_def mg_ok_def out_ok_def Let_def split: if_splits)
qed

lemma flush_ok:
  assumes "mg_ok k mx m" "merger_flush m = (r, m')"
  shows "mg_ok k mx m' \<and> mg_merged m' = [] \<and> (case r of None \<Rightarrow> mg_merged m = [] | Some x \<Rightarrow> out_ok k mx x \<and> mi_user x = mg_merged m)"
  using assms by (auto simp: merger_flush_def mg_ok_def out_ok_def split: option.splits)

lemma align_ok:
  assumes "k < 64" "out_ok k mx x"
  shows "aligned_ok k mx (align_merged (Some (2 ^ k)) x)" "mi_user (align_merged (Some (2 ^ k)) x) = mi_user x"
proof -
  obtain p' n' where e: "p' = align_down (mi_pos x) (2 ^ k)" "n' = align_up (mi_size x + (mi_pos x - p')) (2 ^ k)" by blast
  have w: "within k mx (mi_user x) (mi_pos x, mi_size x)" using assms(2) by (simp add: out_ok_def)
  then have "unat (mi_pos x) + unat (mi_size x) + 2 ^ k < 2 ^ 64" by (simp add: within_def io_ok_def io_end_def)
  note r = align_range [OF assms(1) this e]
  have eq: "align_merged (Some (2 ^ k)) x = x\<lparr>mi_pos := p', mi_size := n'\<rparr>" using e by (simp add: align_merged_def Let_def)
  have "covers p' n' io" if "covers (mi_pos x) (mi_size x) io" for io using that r(3,4) by (auto simp: covers_def)
  moreover have "size_ok mx (2 * 2 ^ k - 1) (mi_user x) n'"
  proof -
    obtain io where "io \<in> set (mi_user x)" "unat (mi_size x) \<le> max (unat mx) (unat (snd io))" using w by (auto simp: within_def size_ok_def)
    moreover from this(2) have "unat n' \<le> max (unat mx) (unat (snd io)) + (2 * 2 ^ k - 1)" using r(5) by linarith
    ultimately show ?thesis unfolding size_ok_def by blast
  qed
  ultimately show "aligned_ok k mx (align_merged (Some (2 ^ k)) x)" unfolding eq aligned_ok_def using w r by (auto simp: within_def)
  show "mi_user (align_merged (Some (2 ^ k)) x) = mi_user x" by (simp add: eq)
qed

lemma dedup_ok:
  assumes "aligned_ok k mx x" "aligned_ok k mx y" "deduplicate x y = (r, z)"
  shows "aligned_ok k mx z \<and> (case r of None \<Rightarrow> mi_user z = mi_user x @ mi_user y | Some x' \<Rightarrow> x' = x \<and> z = y)"
  using assms by (auto simp: deduplicate_def aligned_ok_def size_ok_append split: if_splits)

definition inputs :: "iovec option list \<Rightarrow> iovec list" where
  "inputs es = List.map_filter (\<lambda>e. e) es"

lemma inputs_simps [simp]: "inputs [] = []" "inputs (None # es) = inputs es" "inputs (Some io # es) = io # inputs es"
  by (simp_all add: inputs_def map_filter_simps)

definition merger_users :: "iovec_merger option \<Rightarrow> iovec list" where
  "merger_users m = (case m of None \<Rightarrow> [] | Some m \<Rightarrow> mg_merged m)"

lemma merger_users_simps [simp]: "merger_users None = []" "merger_users (Some m) = mg_merged m"
  by (simp_all add: merger_users_def)

definition out_users :: "merged_iovecs option poll \<Rightarrow> iovec list" where
  "out_users r = (case r of Ready (Some x) \<Rightarrow> mi_user x | _ \<Rightarrow> [])"

lemma out_users_simps [simp]: "out_users Pending = []" "out_users (Ready None) = []" "out_users (Ready (Some x)) = mi_user x"
  by (simp_all add: out_users_def)

definition feed_ok :: "nat \<Rightarrow> usize \<Rightarrow> iovec option list \<Rightarrow> iovec_merger option \<Rightarrow> bool" where
  "feed_ok k mx es m \<longleftrightarrow> (\<forall>io \<in> set (inputs es). io_ok k io) \<and> (case m of None \<Rightarrow> es = [] | Some m \<Rightarrow> mg_ok k mx m)"

lemma next_inner_ok:
  assumes "feed_ok k mx es m"
  shows "\<exists>r es' m'. next_inner es m = Some (r, es', m') \<and> feed_ok k mx es' m' \<and> out_users r @ merger_users m' @ inputs es' = merger_users m @ inputs es \<and>
    (\<forall>x. r = Ready (Some x) \<longrightarrow> out_ok k mx x) \<and> (r = Ready None \<longrightarrow> es' = [] \<and> m' = None) \<and>
    (r \<noteq> Ready None \<longrightarrow> length es' + (case m' of None \<Rightarrow> 0 | Some _ \<Rightarrow> 1) < length es + (case m of None \<Rightarrow> 0 | Some _ \<Rightarrow> (1 :: nat)))"
  using assms
proof (induction es m rule: next_inner.induct)
  case (2 m)
  obtain r m' where r: "merger_flush m = (r, m')" by fastforce
  then show ?case using flush_ok [OF _ r, of k mx] "2.prems" by (cases r) (auto simp: feed_ok_def)
next
  case (4 es m)
  obtain r m' where r: "merger_flush m = (r, m')" by fastforce
  then show ?case using flush_ok [OF _ r, of k mx] "4.prems" by (cases r) (auto simp: feed_ok_def)
next
  case (5 io es m)
  obtain r m' where r: "merger_merge io m = (r, m')" by fastforce
  have ok: "mg_ok k mx m" "io_ok k io" "\<forall>io \<in> set (inputs es). io_ok k io" using "5.prems" by (auto simp: feed_ok_def)
  show ?case
  proof (cases r)
    case None
    then have m': "mg_ok k mx m'" "mg_merged m' = mg_merged m @ [io]" using merge_ok [OF ok(1,2) r] by auto
    then show ?thesis using "5.IH" [OF r [symmetric]] None r ok(3) by (fastforce simp: feed_ok_def)
  next
    case (Some x)
    then show ?thesis using merge_ok [OF ok(1,2) r] r ok(3) by (auto simp: feed_ok_def)
  qed
qed (auto simp: feed_ok_def)

definition co_users :: "coalesced_reads \<Rightarrow> iovec list" where
  "co_users c = (case co_last c of None \<Rightarrow> [] | Some l \<Rightarrow> mi_user l) @ merger_users (co_merger c)"

definition co_ok :: "nat \<Rightarrow> usize \<Rightarrow> coalesced_reads \<Rightarrow> bool" where
  "co_ok k mx c \<longleftrightarrow> feed_ok k mx (co_iter c) (co_merger c) \<and> co_alignment c = Some (2 ^ k) \<and> (\<forall>l. co_last c = Some l \<longrightarrow> aligned_ok k mx l)"

definition co_work :: "coalesced_reads \<Rightarrow> nat" where
  "co_work c = 2 * (length (co_iter c) + (case co_merger c of None \<Rightarrow> 0 | Some _ \<Rightarrow> 1)) + (case co_last c of None \<Rightarrow> 0 | Some _ \<Rightarrow> 1)"

text \<open>What one poll of the stream of merged requests keeps: the requests, their order and the bounds.\<close>

definition polled :: "nat \<Rightarrow> usize \<Rightarrow> coalesced_reads \<Rightarrow> merged_iovecs option poll \<Rightarrow> coalesced_reads \<Rightarrow> bool" where
  "polled k mx c r c' \<longleftrightarrow> co_ok k mx c' \<and> out_users r @ co_users c' @ inputs (co_iter c') = co_users c @ inputs (co_iter c) \<and>
     (\<forall>x. r = Ready (Some x) \<longrightarrow> aligned_ok k mx x) \<and> (r = Ready None \<longrightarrow> co_users c' = [] \<and> co_iter c' = []) \<and>
     (r \<noteq> Ready None \<longrightarrow> co_work c' < co_work c)"

lemma polled_step:
  assumes "polled k mx c1 r c'" "co_users c1 @ inputs (co_iter c1) = co_users c @ inputs (co_iter c)" "co_work c1 < co_work c"
  shows "polled k mx c r c'"
  using assms by (auto simp: polled_def)

lemma coalesced_poll_ok:
  assumes "k < 64" "co_ok k mx c"
  shows "\<exists>r c'. coalesced_poll c = Some (r, c') \<and> polled k mx c r c'"
  using assms
proof (induction c rule: coalesced_poll.induct)
  case (1 c)
  obtain r es m where n: "next_inner (co_iter c) (co_merger c) = Some (r, es, m)" and f: "feed_ok k mx es m"
    and u: "out_users r @ merger_users m @ inputs es = merger_users (co_merger c) @ inputs (co_iter c)"
    and x: "\<And>x. r = Ready (Some x) \<Longrightarrow> out_ok k mx x" and e: "r = Ready None \<Longrightarrow> es = [] \<and> m = None"
    and w: "r \<noteq> Ready None \<Longrightarrow> length es + (case m of None \<Rightarrow> 0 | Some _ \<Rightarrow> 1) < length (co_iter c) + (case co_merger c of None \<Rightarrow> 0 | Some _ \<Rightarrow> 1)"
    using next_inner_ok [of k mx "co_iter c" "co_merger c"] "1.prems"(2) by (auto simp: co_ok_def)
  let ?c1 = "c\<lparr>co_iter := es, co_merger := m\<rparr>"
  have al: "co_alignment c = Some (2 ^ k)" and lastok: "\<And>l. co_last c = Some l \<Longrightarrow> aligned_ok k mx l" using "1.prems"(2) by (auto simp: co_ok_def)
  consider "r = Pending" | "r = Ready None" | y where "r = Ready (Some y)" by (metis option.exhaust poll.exhaust)
  then show ?case
  proof cases
    case 1
    then show ?thesis using n f u w al lastok by (auto simp: polled_def co_ok_def co_users_def co_work_def split: option.splits)
  next
    case 2
    then show ?thesis using n f u e al lastok by (auto simp: polled_def co_ok_def co_users_def co_work_def split: option.splits)
  next
    case (3 y)
    let ?y = "align_merged (co_alignment c) y"
    have y: "aligned_ok k mx ?y" "mi_user ?y = mi_user y" using align_ok [OF "1.prems"(1) x [OF 3]] al by simp_all
    have step: "\<exists>r c'. coalesced_poll c = Some (r, c') \<and> polled k mx c r c'"
      if z: "aligned_ok k mx z" "mi_user z = (case co_last c of None \<Rightarrow> [] | Some l \<Rightarrow> mi_user l) @ mi_user y"
        and eq: "coalesced_poll c = coalesced_poll (?c1\<lparr>co_last := Some z\<rparr>)"
        and ih: "co_ok k mx (?c1\<lparr>co_last := Some z\<rparr>) \<Longrightarrow> \<exists>r c'. coalesced_poll (?c1\<lparr>co_last := Some z\<rparr>) = Some (r, c') \<and> polled k mx (?c1\<lparr>co_last := Some z\<rparr>) r c'" for z
    proof -
      have "co_ok k mx (?c1\<lparr>co_last := Some z\<rparr>)" using z f al by (simp add: co_ok_def)
      moreover have "co_users (?c1\<lparr>co_last := Some z\<rparr>) @ inputs es = co_users c @ inputs (co_iter c)" using u 3 z(2) by (auto simp: co_users_def split: option.splits)
      moreover have "co_work (?c1\<lparr>co_last := Some z\<rparr>) < co_work c" using w 3 by (auto simp: co_work_def split: option.splits)
      ultimately show ?thesis using eq ih polled_step [of k mx "?c1\<lparr>co_last := Some z\<rparr>"] by fastforce
    qed
    show ?thesis
    proof (cases "co_last c")
      case None
      then show ?thesis using step [of ?y] y n 3 "1.IH"(1) [OF n _ _ _ _ refl refl] "1.prems"(1) by (simp add: Let_def)
    next
      case (Some l)
      obtain d z where d: "deduplicate l ?y = (d, z)" by fastforce
      note dd = dedup_ok [OF lastok [OF Some] y(1) d]
      show ?thesis
      proof (cases d)
        case None
        then show ?thesis using step [of z] dd d y n 3 Some "1.IH"(2) [OF n _ _ _ _ refl refl] "1.prems"(1) by (simp add: Let_def)
      next
        case (Some l')
        then show ?thesis using dd d y n 3 u f w al lastok \<open>co_last c = Some l\<close>
          by (auto simp: Let_def polled_def co_ok_def co_users_def co_work_def split: option.splits)
      qed
    qed
  qed
qed

lemma coalesce_ok:
  assumes "k < 64" "co_ok k mx c" "co_work c < n"
  shows "\<exists>xs. coalesce n c = Some xs \<and> concat (map mi_user xs) = co_users c @ inputs (co_iter c) \<and> (\<forall>x \<in> set xs. aligned_ok k mx x)"
  using assms
proof (induction n arbitrary: c)
  case (Suc n)
  obtain r c' where p: "coalesced_poll c = Some (r, c')" "polled k mx c r c'" using coalesced_poll_ok [OF Suc.prems(1,2)] by blast
  consider "r = Ready None" | "r = Pending" | x where "r = Ready (Some x)" by (metis option.exhaust poll.exhaust)
  then show ?case
  proof cases
    case 1
    then show ?thesis using p by (auto simp: polled_def simp del: coalesced_poll.simps)
  next
    case 2
    then have "co_ok k mx c'" "co_work c' < n" using p(2) Suc.prems(3) by (auto simp: polled_def)
    then show ?thesis using Suc.IH [OF Suc.prems(1)] p 2 by (fastforce simp: polled_def simp del: coalesced_poll.simps)
  next
    case (3 x)
    then have "co_ok k mx c'" "co_work c' < n" using p(2) Suc.prems(3) by (auto simp: polled_def)
    then obtain xs where "coalesce n c' = Some xs" "concat (map mi_user xs) = co_users c' @ inputs (co_iter c')" "\<forall>x \<in> set xs. aligned_ok k mx x"
      using Suc.IH [OF Suc.prems(1)] by blast
    then show ?thesis using p 3 by (auto simp: polled_def simp del: coalesced_poll.simps)
  qed
qed simp

lemma coalesced_new_ok:
  assumes "\<forall>io \<in> set (inputs es). io_ok k io"
  shows "co_ok k mx (coalesced_new mx amp (Some (2 ^ k)) es)" "co_users (coalesced_new mx amp (Some (2 ^ k)) es) = []"
    "co_work (coalesced_new mx amp (Some (2 ^ k)) es) < 2 * length es + 3"
  using assms by (auto simp: coalesced_new_def co_ok_def co_users_def co_work_def feed_ok_def mg_ok_def)

subsection \<open>Issuing many reads\<close>

text \<open>
  The reads in flight of \<^verbatim>\<open>OrderedBulkIo\<close>, the youngest in front. The stream that supplies them is its
  poll function and its state, and \<open>ready\<close> tells which reads have a result.
\<close>

record ('s, 'u) bulk_io =
  bk_iovs :: 's
  bk_inflight :: "'u list"
  bk_cap :: nat
  bk_memory :: nat
  bk_memory_cap :: nat
  bk_terminated :: bool

definition bulk_new :: "nat \<Rightarrow> 's \<Rightarrow> ('s, 'u) bulk_io option" where
  "bulk_new n s =
     (if 0 < n then Some \<lparr>bk_iovs = s, bk_inflight = [], bk_cap = n, bk_memory = 0, bk_memory_cap = 2 ^ 64 - 1, bk_terminated = False\<rparr> else None)"

definition set_concurrency_limit :: "nat \<Rightarrow> ('s, 'u) bulk_io \<Rightarrow> ('s, 'u) bulk_io option" where
  "set_concurrency_limit n b = (if 0 < n \<and> \<not> bk_terminated b \<and> bk_inflight b = [] then Some (b\<lparr>bk_cap := n\<rparr>) else None)"

definition set_memory_limit :: "nat option \<Rightarrow> ('s, 'u) bulk_io \<Rightarrow> ('s, 'u) bulk_io option" where
  "set_memory_limit l b =
     (let n = (case l of None \<Rightarrow> 2 ^ 64 - 1 | Some n \<Rightarrow> n)
      in if 0 < n \<and> \<not> bk_terminated b \<and> bk_inflight b = [] then Some (b\<lparr>bk_memory_cap := n\<rparr>) else None)"

definition bulk_full :: "('s, 'u) bulk_io \<Rightarrow> bool" where
  "bulk_full b \<longleftrightarrow> length (bk_inflight b) = bk_cap b \<or> bk_memory_cap b < bk_memory b"

definition poll_inner :: "('s \<Rightarrow> 'u option poll \<times> 's) \<Rightarrow> ('u \<Rightarrow> nat) \<Rightarrow> ('s, 'u) bulk_io \<Rightarrow> ('s, 'u) bulk_io" where
  "poll_inner p sz b =
     (case p (bk_iovs b) of
        (Ready (Some x), s) \<Rightarrow> b\<lparr>bk_iovs := s, bk_memory := bk_memory b + sz x, bk_inflight := x # bk_inflight b\<rparr>
      | (Ready None, s) \<Rightarrow> b\<lparr>bk_iovs := s, bk_terminated := True\<rparr>
      | (Pending, s) \<Rightarrow> b\<lparr>bk_iovs := s\<rparr>)"

definition poll_buffer :: "('s \<Rightarrow> 'u option poll \<times> 's) \<Rightarrow> ('u \<Rightarrow> nat) \<Rightarrow> ('u \<Rightarrow> bool) \<Rightarrow> ('s, 'u) bulk_io \<Rightarrow>
    ('u option poll \<times> ('s, 'u) bulk_io) option" where
  "poll_buffer p sz ready b =
     (if bk_inflight b = [] then None
      else let x = last (bk_inflight b)
           in if ready x
              then let b1 = b\<lparr>bk_inflight := butlast (bk_inflight b)\<rparr>;
                       b2 = (if bk_terminated b1 then b1 else poll_inner p sz b1)
                   in Some (Ready (Some x), b2\<lparr>bk_memory := bk_memory b2 - sz x\<rparr>)
              else Some (Pending, b))"

text \<open>The loop that fills the buffer need not end; then it has no value.\<close>

partial_function (option) bulk_fill :: "('s \<Rightarrow> 'u option poll \<times> 's) \<Rightarrow> ('u \<Rightarrow> nat) \<Rightarrow> ('s, 'u) bulk_io \<Rightarrow> ('s, 'u) bulk_io option" where
  "bulk_fill p sz b = (if \<not> bulk_full b \<and> \<not> bk_terminated b then bulk_fill p sz (poll_inner p sz b) else Some b)"

definition bulk_poll :: "('s \<Rightarrow> 'u option poll \<times> 's) \<Rightarrow> ('u \<Rightarrow> nat) \<Rightarrow> ('u \<Rightarrow> bool) \<Rightarrow> ('s, 'u) bulk_io \<Rightarrow>
    ('u option poll \<times> ('s, 'u) bulk_io) option" where
  "bulk_poll p sz ready b =
     (if bulk_full b \<or> bk_terminated b \<and> bk_inflight b \<noteq> [] then poll_buffer p sz ready b
      else Option.bind (bulk_fill p sz b) (\<lambda>b1.
        if \<not> bk_terminated b1 \<or> bk_inflight b1 \<noteq> [] then poll_buffer p sz ready b1 else Some (Ready None, b1)))"

text \<open>A stream that is never pending: the list of its items.\<close>

definition list_poll :: "'u list \<Rightarrow> 'u option poll \<times> 'u list" where
  "list_poll xs = (case xs of [] \<Rightarrow> (Ready None, []) | x # xs \<Rightarrow> (Ready (Some x), xs))"

definition bulk_ok :: "('u \<Rightarrow> nat) \<Rightarrow> ('u list, 'u) bulk_io \<Rightarrow> bool" where
  "bulk_ok sz b \<longleftrightarrow> 0 < bk_cap b \<and> length (bk_inflight b) \<le> bk_cap b \<and> bk_memory b = sum_list (map sz (bk_inflight b)) \<and>
     (bk_terminated b \<longrightarrow> bk_iovs b = [])"

definition bulk_left :: "('u list, 'u) bulk_io \<Rightarrow> 'u list" where
  "bulk_left b = rev (bk_inflight b) @ bk_iovs b"

lemma poll_inner_ok:
  assumes "bulk_ok sz b" "length (bk_inflight b) < bk_cap b" "\<not> bk_terminated b"
  shows "bulk_ok sz (poll_inner list_poll sz b) \<and> bulk_left (poll_inner list_poll sz b) = bulk_left b \<and> bk_cap (poll_inner list_poll sz b) = bk_cap b \<and>
    bk_memory_cap (poll_inner list_poll sz b) = bk_memory_cap b \<and>
    (bk_terminated (poll_inner list_poll sz b) \<or> length (bk_inflight (poll_inner list_poll sz b)) = Suc (length (bk_inflight b)))"
  using assms by (auto simp: poll_inner_def list_poll_def bulk_ok_def bulk_left_def split: list.splits)

lemma bulk_fill_ok:
  assumes "bulk_ok sz b"
  shows "\<exists>b'. bulk_fill list_poll sz b = Some b' \<and> bulk_ok sz b' \<and> bulk_left b' = bulk_left b \<and> bk_cap b' = bk_cap b \<and> bk_memory_cap b' = bk_memory_cap b \<and> (bulk_full b' \<or> bk_terminated b')"
  using assms
proof (induction "bk_cap b - length (bk_inflight b) + (if bk_terminated b then 0 else 1)" arbitrary: b rule: less_induct)
  case less
  show ?case
  proof (cases "\<not> bulk_full b \<and> \<not> bk_terminated b")
    case True
    then have l: "length (bk_inflight b) < bk_cap b" using less.prems by (auto simp: bulk_full_def bulk_ok_def)
    let ?b = "poll_inner list_poll sz b"
    note i = poll_inner_ok [OF less.prems l] and t = True
    have "bk_cap ?b - length (bk_inflight ?b) + (if bk_terminated ?b then 0 else 1) < bk_cap b - length (bk_inflight b) + (if bk_terminated b then 0 else (1::nat))"
      using i t l by (auto simp: poll_inner_def list_poll_def split: list.splits)
    then show ?thesis using less.hyps [of ?b] i t by (subst bulk_fill.simps) auto
  next
    case False
    then show ?thesis using less.prems by (subst bulk_fill.simps) auto
  qed
qed

lemma poll_buffer_ok:
  assumes "bulk_ok sz b" "bk_inflight b \<noteq> []"
  shows "\<exists>r b'. poll_buffer list_poll sz ready b = Some (r, b') \<and> bulk_ok sz b' \<and> bk_cap b' = bk_cap b \<and> r \<noteq> Ready None \<and>
    (case r of Ready (Some x) \<Rightarrow> ready x \<and> x # bulk_left b' = bulk_left b | _ \<Rightarrow> bulk_left b' = bulk_left b)"
proof -
  obtain xs x where x: "bk_inflight b = xs @ [x]" using assms(2) by (metis rev_exhaust)
  show ?thesis
  proof (cases "ready x \<and> \<not> bk_terminated b")
    case True
    then show ?thesis using assms(1) x by (cases "bk_iovs b") (auto simp: poll_buffer_def poll_inner_def list_poll_def bulk_ok_def bulk_left_def Let_def)
  next
    case False
    then show ?thesis using assms(1) x by (auto simp: poll_buffer_def bulk_ok_def bulk_left_def Let_def)
  qed
qed

text \<open>A task that polls repeatedly, with what is ready at each poll.\<close>

fun bulk_run :: "('s \<Rightarrow> 'u option poll \<times> 's) \<Rightarrow> ('u \<Rightarrow> nat) \<Rightarrow> ('u \<Rightarrow> bool) list \<Rightarrow> ('s, 'u) bulk_io \<Rightarrow> ('u list \<times> ('s, 'u) bulk_io) option" where
  "bulk_run p sz [] b = Some ([], b)"
| "bulk_run p sz (ready # rs) b =
     Option.bind (bulk_poll p sz ready b) (\<lambda>(r, b').
       map_option (\<lambda>(xs, b''). (case r of Ready (Some x) \<Rightarrow> x # xs | _ \<Rightarrow> xs, b'')) (bulk_run p sz rs b'))"

lemma bulk_poll_ok:
  assumes "bulk_ok sz b"
  shows "\<exists>r b'. bulk_poll list_poll sz ready b = Some (r, b') \<and> bulk_ok sz b' \<and> bk_cap b' = bk_cap b \<and>
    (case r of Ready (Some x) \<Rightarrow> ready x \<and> x # bulk_left b' = bulk_left b | Ready None \<Rightarrow> bulk_left b = [] \<and> bulk_left b' = [] | Pending \<Rightarrow> bulk_left b' = bulk_left b \<and> \<not> (\<forall>x. ready x))"
proof -
  have buf: "\<exists>r b'. poll_buffer list_poll sz ready c = Some (r, b') \<and> bulk_ok sz b' \<and> bk_cap b' = bk_cap c \<and>
      (case r of Ready (Some x) \<Rightarrow> ready x \<and> x # bulk_left b' = bulk_left c | Ready None \<Rightarrow> False | Pending \<Rightarrow> bulk_left b' = bulk_left c \<and> \<not> (\<forall>x. ready x))"
    if c: "bulk_ok sz c" "bk_inflight c \<noteq> []" for c
  proof -
    obtain r b' where rb: "poll_buffer list_poll sz ready c = Some (r, b')" "bulk_ok sz b'" "bk_cap b' = bk_cap c" "r \<noteq> Ready None"
      "case r of Ready (Some x) \<Rightarrow> ready x \<and> x # bulk_left b' = bulk_left c | _ \<Rightarrow> bulk_left b' = bulk_left c"
      using poll_buffer_ok [OF c, of ready] by blast
    moreover have "\<not> (\<forall>x. ready x)" if "r = Pending" using rb(1) that c(2) by (auto simp: poll_buffer_def Let_def split: if_splits)
    ultimately show ?thesis by (auto split: poll.splits option.splits)
  qed
  have nonempty: "bk_inflight c \<noteq> []" if "bulk_ok sz c" "bulk_full c" for c :: "('a list, 'a) bulk_io"
    using that by (auto simp: bulk_ok_def bulk_full_def)
  show ?thesis
  proof (cases "bulk_full b \<or> bk_terminated b \<and> bk_inflight b \<noteq> []")
    case True
    then have "bk_inflight b \<noteq> []" using nonempty [OF assms] by blast
    then show ?thesis using buf [OF assms] True by (auto simp: bulk_poll_def split: poll.splits option.splits)
  next
    case False
    obtain c where c: "bulk_fill list_poll sz b = Some c" "bulk_ok sz c" "bulk_left c = bulk_left b" "bk_cap c = bk_cap b" "bulk_full c \<or> bk_terminated c"
      using bulk_fill_ok [OF assms] by blast
    show ?thesis
    proof (cases "bk_inflight c = []")
      case True
      then have "bk_terminated c" "bulk_left c = []" using c nonempty [OF c(2)] by (auto simp: bulk_ok_def bulk_left_def)
      then show ?thesis using c False True by (auto simp: bulk_poll_def)
    next
      case nonempty: False
      then show ?thesis using c False buf [OF c(2) nonempty] by (auto simp: bulk_poll_def split: poll.splits option.splits)
    qed
  qed
qed

lemma bulk_run_ok:
  assumes "bulk_ok sz b"
  shows "\<exists>xs b'. bulk_run list_poll sz rs b = Some (xs, b') \<and> bulk_ok sz b' \<and> bk_cap b' = bk_cap b \<and> xs @ bulk_left b' = bulk_left b \<and>
    ((\<forall>r \<in> set rs. \<forall>x. r x) \<longrightarrow> length (bulk_left b) \<le> length rs \<longrightarrow> bulk_left b' = [])"
  using assms
proof (induction rs arbitrary: b)
  case (Cons ready rs)
  obtain r c where r: "bulk_poll list_poll sz ready b = Some (r, c)" "bulk_ok sz c" "bk_cap c = bk_cap b"
    and cr: "case r of Ready (Some x) \<Rightarrow> ready x \<and> x # bulk_left c = bulk_left b | Ready None \<Rightarrow> bulk_left b = [] \<and> bulk_left c = [] | Pending \<Rightarrow> bulk_left c = bulk_left b \<and> \<not> (\<forall>x. ready x)"
    using bulk_poll_ok [OF Cons.prems, of ready] by blast
  obtain xs b' where i: "bulk_run list_poll sz rs c = Some (xs, b')" "bulk_ok sz b'" "bk_cap b' = bk_cap c" "xs @ bulk_left b' = bulk_left c"
    "(\<forall>r \<in> set rs. \<forall>x. r x) \<longrightarrow> length (bulk_left c) \<le> length rs \<longrightarrow> bulk_left b' = []"
    using Cons.IH [OF r(2)] by blast
  consider "r = Pending" | "r = Ready None" | x where "r = Ready (Some x)" by (metis option.exhaust poll.exhaust)
  then show ?case using r i cr
  proof cases
    case (3 x)
    then have "length (bulk_left b) = Suc (length (bulk_left c))" "bulk_left b = x # bulk_left c" using cr by (auto dest: sym)
    then show ?thesis using r i 3 by auto
  qed auto
qed simp

lemma bulk_fill_stuck:
  assumes "bulk_fill p sz b = Some b'"
  shows "bulk_full b \<or> bk_terminated b \<or> p (bk_iovs b) \<noteq> (Pending, bk_iovs b)"
proof (rule bulk_fill.raw_induct [where P = "\<lambda>p sz b b'. bulk_full b \<or> bk_terminated b \<or> p (bk_iovs b) \<noteq> (Pending, bk_iovs b)", OF _ assms])
  show "bulk_full b \<or> bk_terminated b \<or> p (bk_iovs b) \<noteq> (Pending, bk_iovs b)"
    if IH: "\<And>p sz b y. fill p sz b = Some y \<Longrightarrow> bulk_full b \<or> bk_terminated b \<or> p (bk_iovs b) \<noteq> (Pending, bk_iovs b)"
      and body: "(if \<not> bulk_full b \<and> \<not> bk_terminated b then fill p sz (poll_inner p sz b) else Some b) = Some y" for fill p sz b y
  proof -
    have "poll_inner p sz b = b" if "p (bk_iovs b) = (Pending, bk_iovs b)" using that by (simp add: poll_inner_def)
    then show ?thesis using IH [of p sz b y] body by (auto split: if_splits)
  qed
qed

subsection \<open>Cutting a buffer to what was asked for\<close>

text \<open>\<^verbatim>\<open>ReadResult::from_sliced_buffer\<close>: the bytes that the result dereferences to.\<close>

definition from_sliced_buffer :: "'b list \<Rightarrow> nat \<Rightarrow> nat \<Rightarrow> 'b list" where
  "from_sliced_buffer bytes off len = (if len = 0 then [] else take len (drop off bytes))"

definition read_at_range :: "u64 \<Rightarrow> u64 \<Rightarrow> usize \<Rightarrow> u64 \<times> usize \<times> usize" where
  "read_at_range al pos len = (let eff = align_down pos al; b = pos - eff in (eff, align_up (len + b) al, b))"

definition read_at_result :: "usize \<Rightarrow> usize \<Rightarrow> sched_source \<Rightarrow> 'b list \<Rightarrow> nat \<Rightarrow> 'b list" where
  "read_at_result b len h buf n = from_sliced_buffer (source_bytes buf h) (unat b) (min (bytes_in_range h n - unat b) (unat len))"

definition read_at_aligned_result :: "sched_source \<Rightarrow> 'b list \<Rightarrow> nat \<Rightarrow> 'b list" where
  "read_at_aligned_result h buf n = from_sliced_buffer (source_bytes buf h) 0 (bytes_in_range h n)"

definition read_many_result :: "u64 \<Rightarrow> iovec \<Rightarrow> sched_source \<Rightarrow> 'b list \<Rightarrow> nat \<Rightarrow> 'b list" where
  "read_many_result sys io h buf n =
     (let offset = unat (fst io - sys); len = min (bytes_in_range h n - offset) (unat (snd io))
      in from_sliced_buffer (source_bytes buf h) offset len)"

definition merged_limit :: "merged_buffer_limit \<Rightarrow> u64 \<Rightarrow> usize \<Rightarrow> usize \<Rightarrow> usize" where
  "merged_limit l al max_sectors max_segment =
     (case l of NoMerging \<Rightarrow> 0 | DeviceMaxSingleRequest \<Rightarrow> max_sectors | CustomBuffer n \<Rightarrow> align_down (min n max_segment) al)"

definition amp_limit :: "read_amplification_limit \<Rightarrow> usize option" where
  "amp_limit l = (case l of NoAmplification \<Rightarrow> Some 0 | CustomAmplification n \<Rightarrow> Some n | NoLimit \<Rightarrow> None)"

text \<open>
  The length that the kernel is asked for is cut to 32 bits (\<^verbatim>\<open>len as u32\<close>).
\<close>

definition uring_len :: "nat \<Rightarrow> nat" where
  "uring_len n = n mod 2 ^ 32"

text \<open>
  What a read of a file that succeeded with \<^term>\<open>n\<close> leaves: the kernel may return fewer bytes than it was asked for, and returns none beyond the
  end of the file. The first \<^term>\<open>n\<close> bytes of the buffer are those of the file from where the read starts; the rest of
  the buffer is arbitrary. The read was whole when it stopped at its end or at the end of the file.
\<close>

definition completed :: "'b list \<Rightarrow> sched_inner \<Rightarrow> 'b list \<Rightarrow> nat \<Rightarrow> bool" where
  "completed file s buf n \<longleftrightarrow> length buf = si_end s - si_start s \<and> n \<le> uring_len (si_end s - si_start s) \<and> n \<le> length file - si_start s \<and>
     take n buf = take n (drop (si_start s) file)"

definition whole :: "'b list \<Rightarrow> sched_inner \<Rightarrow> nat \<Rightarrow> bool" where
  "whole file s n \<longleftrightarrow> min (si_end s) (length file) \<le> si_start s + n"

lemma read_dma_range:
  assumes "s_inv w" "a \<le> b" "read_dma j a b (sw_file w) = (h, f)" "fs_inner f (ss_inner h) = Some s"
  shows "si_start s + ss_start h = a \<and> si_start s + ss_end h = b \<and> b \<le> si_end s"
proof (cases "covering a b (sw_file w)")
  case None
  then show ?thesis using assms by (auto simp: read_dma_def consume_scheduled_def schedule_source_def Let_def)
next
  case (Some i)
  then show ?thesis using assms covering_sound [OF assms(1) Some]
    by (auto simp: read_dma_def consume_scheduled_def Let_def start_of_def end_of_def split: option.splits)
qed

lemma source_bytes_file:
  assumes "completed file s buf n" "si_start s + ss_start h = a" "si_start s + ss_end h = b"
  shows "take (bytes_in_range h n) (source_bytes buf h) = take (bytes_in_range h n) (drop a file)"
proof -
  define o' where "o' = ss_start h" define m where "m = bytes_in_range h n"
  have ab: "b - a = ss_end h - ss_start h" "a = si_start s + o'" using assms(2,3) by (auto simp: o'_def)
  have m: "m = min (n - o') (b - a)" unfolding m_def bytes_in_range_def o'_def using ab by simp
  have n: "take n buf = take n (drop (si_start s) file)" using assms(1) by (simp add: completed_def)
  have "take m (drop o' buf) = take m (drop a file)"
  proof (cases "m = 0")
    case False
    then have "m + o' \<le> n" using m by auto
    then have "take (m + o') buf = take (m + o') (drop (si_start s) file)" using n by (metis min.absorb1 take_take)
    then show ?thesis unfolding ab(2) by (metis add.commute drop_drop drop_take add_diff_cancel_right')
  qed simp
  moreover have "take m (source_bytes buf h) = take m (drop o' buf)" unfolding source_bytes_def o'_def [symmetric] ab(1) [symmetric]
    using m by (simp add: min.absorb1 o'_def ab(1))
  ultimately show ?thesis by (simp add: m_def)
qed

lemma slice_file:
  assumes "take m bytes = take m (drop a file)"
  shows "from_sliced_buffer bytes off (min (m - off) len) = take (min (m - off) len) (drop (a + off) file)"
proof -
  have "take (min (m - off) len) (drop off bytes) = take len (drop off (take m bytes))" by (simp add: drop_take min.commute)
  also have "\<dots> = take (min (m - off) len) (drop (a + off) file)" unfolding assms by (simp add: drop_take min.commute add.commute)
  finally show ?thesis by (auto simp: from_sliced_buffer_def)
qed

lemma take_whole:
  assumes "whole file s n" "q + len \<le> si_end s"
  shows "take (min (si_start s + n - q) len) (drop q file) = take len (drop q file)"
proof (cases "si_start s + n - q < len")
  case True
  then have "length file \<le> si_start s + n" using assms by (auto simp: whole_def)
  then show ?thesis using True by simp
qed (simp add: min.absorb2)

text \<open>What a read of the blocks around a request gives for the request.\<close>

definition cut_of :: "'b list \<Rightarrow> sched_inner \<Rightarrow> nat \<Rightarrow> iovec \<Rightarrow> 'b list \<Rightarrow> bool" where
  "cut_of file s got io bytes \<longleftrightarrow> bytes = take (min (si_start s + got - unat (fst io)) (unat (snd io))) (drop (unat (fst io)) file) \<and>
     (whole file s got \<longrightarrow> bytes = take (unat (snd io)) (drop (unat (fst io)) file))"

lemma read_cut_ok:
  assumes "s_inv w" "read_dma j (unat p) (unat p + unat n) (sw_file w) = (h, f)" "fs_inner f (ss_inner h) = Some s" "completed file s buf got"
    and "unat p \<le> unat q" "unat q + unat len \<le> unat p + unat n"
  shows "cut_of file s got (q, len) (from_sliced_buffer (source_bytes buf h) (unat (q - p)) (min (bytes_in_range h got - unat (q - p)) (unat len)))"
proof -
  have r: "si_start s + ss_start h = unat p" "si_start s + ss_end h = unat p + unat n" "unat p + unat n \<le> si_end s"
    using read_dma_range [OF assms(1) _ assms(2,3)] by auto
  have q: "unat (q - p) = unat q - unat p" using assms(5) by (simp add: unat_sub word_le_nat_alt)
  have m: "min (bytes_in_range h got - unat (q - p)) (unat len) = min (si_start s + got - unat q) (unat len)"
    unfolding bytes_in_range_def q using r(1,2) assms(5,6) by linarith
  show ?thesis using slice_file [OF source_bytes_file [OF assms(4) r(1,2)], of "unat (q - p)" "unat len"] take_whole [of "file" s got "unat q" "unat len"]
      assms(5,6) q r(3) unfolding m cut_of_def by simp
qed

subsection \<open>Properties\<close>


text \<open>
  Claim C14. A merged read returns exactly the bytes that were asked for. As long as no request ends within a block of the end of the 64-bit
  range, take any merged request that the stream yields, any request that it stands for, and any state of the scheduler of the
  file, so that the read may share the buffer of another one that is still in use. When the read succeeds, with as many bytes as were asked for or
  with fewer, what the user gets for the request is the contents of the file from the position of the request up to where the read stopped, and no
  more bytes than the request asked for; when the read was not cut short, it is as many bytes as the request asked for, or fewer at the end of the file.
\<close>

theorem read_many_exact:
  assumes "k < 64" "\<forall>io \<in> set (inputs es). io_ok k io"
    and "coalesce (2 * length es + 3) (coalesced_new mx amp (Some (2 ^ k)) es) = Some xs" "x \<in> set xs" "io \<in> set (mi_user x)"
    and "reachable (\<lambda>w. w = s_start) s_step w" "read_dma j (unat (mi_pos x)) (unat (mi_pos x) + unat (mi_size x)) (sw_file w) = (h, f)"
    and "fs_inner f (ss_inner h) = Some s" "completed file s buf got"
  shows "read_many_result (mi_pos x) io h buf got = take (min (si_start s + got - unat (fst io)) (unat (snd io))) (drop (unat (fst io)) file) \<and>
    (whole file s got \<longrightarrow> read_many_result (mi_pos x) io h buf got = take (unat (snd io)) (drop (unat (fst io)) file))"
proof -
  have "aligned_ok k mx x" 
    using coalesce_ok [OF assms(1) coalesced_new_ok(1,3) [OF assms(2), where mx = mx and amp = amp]] assms(3,4) by fastforce
  then have "covers (mi_pos x) (mi_size x) io" using assms(5) by (auto simp: aligned_ok_def)
  then have c: "unat (mi_pos x) \<le> unat (fst io)" "unat (fst io) + unat (snd io) \<le> unat (mi_pos x) + unat (mi_size x)" by (auto simp: covers_def io_end_def)
  show ?thesis using read_cut_ok [OF iosched.reachable_inv [OF assms(6)] assms(7-9) c] unfolding cut_of_def read_many_result_def Let_def fst_conv snd_conv .
qed

text \<open>
  Claim C29. A read returns exactly the bytes that were asked for, at any position and of any size such that the read ends at least a block before the end of
  the 64-bit range: the range that is read begins and ends at a block boundary, and whether the read is issued or shares the buffer of another one,
  when it succeeds the result is the contents of the file from the position up to where the read stopped, and no more bytes than were asked for; when the read was
  not cut short, it is as many bytes as were asked for, or fewer at the end of the file.
\<close>

theorem read_at_exact:
  assumes "k < 64" "io_ok k (pos, len)" "read_at_range (2 ^ k) pos len = (eff, effn, b)"
    and "reachable (\<lambda>w. w = s_start) s_step w" "read_dma j (unat eff) (unat eff + unat effn) (sw_file w) = (h, f)"
    and "fs_inner f (ss_inner h) = Some s" "completed file s buf got"
  shows "read_at_result b len h buf got = take (min (si_start s + got - unat pos) (unat len)) (drop (unat pos) file) \<and>
    (whole file s got \<longrightarrow> read_at_result b len h buf got = take (unat len) (drop (unat pos) file)) \<and> 2 ^ k dvd unat eff \<and> 2 ^ k dvd unat effn"
proof -
  have e: "eff = align_down pos (2 ^ k)" "effn = align_up (len + (pos - eff)) (2 ^ k)" "b = pos - eff"
    using assms(3) by (auto simp: read_at_range_def Let_def)
  have "unat pos + unat len + 2 ^ k < 2 ^ 64" using assms(2) by (simp add: io_ok_def io_end_def)
  note r = align_range [OF assms(1) this e(1,2)]
  show ?thesis using read_cut_ok [OF iosched.reachable_inv [OF assms(4)] assms(5-7) r(3,4)] r(1,2) unfolding cut_of_def read_at_result_def fst_conv snd_conv e(3) by blast
qed

text \<open>
  Claim C30. Reads issued in bulk are handed out in order and within the limit. With a stream of reads that
  is never pending, whichever reads have results when the task polls: no poll panics or runs
  for ever, at most as many reads are in flight as the limit allows, what was handed out
  followed by what is in flight and what is still to be issued is the given list, and once every read has its result as
  many polls as there are reads hand them all out.
\<close>

theorem bulk_in_order:
  assumes "bulk_new n xs = Some b"
  shows "\<exists>ys b'. bulk_run list_poll sz rs b = Some (ys, b') \<and> ys @ rev (bk_inflight b') @ bk_iovs b' = xs \<and> length (bk_inflight b') \<le> n \<and>
    bk_memory b' = sum_list (map sz (bk_inflight b')) \<and> ((\<forall>r \<in> set rs. \<forall>x. r x) \<and> length xs \<le> length rs \<longrightarrow> ys = xs)"
proof -
  have b: "bulk_ok sz b" "bulk_left b = xs" "bk_cap b = n" using assms by (auto simp: bulk_new_def bulk_ok_def bulk_left_def split: if_splits)
  obtain ys b' where r: "bulk_run list_poll sz rs b = Some (ys, b')" "bulk_ok sz b'" "bk_cap b' = n" "ys @ bulk_left b' = xs"
      "(\<forall>r \<in> set rs. \<forall>x. r x) \<longrightarrow> length xs \<le> length rs \<longrightarrow> bulk_left b' = []"
    using bulk_run_ok [OF b(1), of rs] b(2,3) by auto
  moreover have "ys = xs" if "\<forall>r \<in> set rs. \<forall>x. r x" "length xs \<le> length rs" using r(4,5) that by auto
  ultimately show ?thesis by (auto simp: bulk_ok_def bulk_left_def)
qed

text \<open>
  A poll of bulk reads never returns when the stream that supplies them is pending. Unless the buffer of reads in flight
  is full or the stream has ended, the loop that fills the buffer polls the stream again and again within a
  single poll, and a stream that waits for something to happen on the same thread stays pending.
\<close>

lemma bulk_poll_hangs:
  assumes "p (bk_iovs b) = (Pending, bk_iovs b)" "\<not> bulk_full b" "\<not> bk_terminated b"
  shows "bulk_fill p sz b = None \<and> bulk_poll p sz ready b = None"
  using bulk_fill_stuck [of p sz b] assms by (cases "bulk_fill p sz b") (auto simp: bulk_poll_def)

text \<open>
  A read of 4 GiB reads nothing. Its length, cut to 32 bits, is zero, the kernel is asked for no bytes, and the result is empty
  as if the position were beyond the end of the file.
\<close>

lemma read_4g_empty:
  assumes "completed file s buf got" "si_end s - si_start s = 2 ^ 32"
  shows "read_at_result b len h buf got = []"
  using assms by (simp add: completed_def uring_len_def read_at_result_def bytes_in_range_def from_sliced_buffer_def)

text \<open>
  A request is withheld while the stream of requests is pending. When the stream yields one request and is then
  pending, the merger is flushed, but the flushed request is kept back to be compared with the next one, and
  the poll returns pending without having handed it out.
\<close>

lemma coalescer_withholds:
  "\<exists>c. coalesced_poll (coalesced_new mx amp al (Some io # None # None # es)) = Some (Pending, c) \<and> co_users c = [io] \<and> co_iter c = es"
proof -
  let ?m = "\<lparr>mg_max = mx, mg_amp = amp, mg_current = None, mg_merged = []\<rparr>"
  let ?x = "align_merged al \<lparr>mi_user = [io], mi_pos = fst io, mi_size = snd io\<rparr>"
  let ?c = "\<lparr>co_iter = None # es, co_merger = Some ?m, co_alignment = al, co_last = Some ?x\<rparr>"
  have "coalesced_poll (coalesced_new mx amp al (Some io # None # None # es)) = coalesced_poll ?c"
    by (subst coalesced_poll.simps) (simp add: coalesced_new_def merger_merge_def merger_flush_def Let_def del: coalesced_poll.simps)
  also have "\<dots> = Some (Pending, ?c\<lparr>co_iter := es\<rparr>)"
    by (subst coalesced_poll.simps) (simp add: merger_flush_def del: coalesced_poll.simps)
  finally show ?thesis by (auto simp: co_users_def align_merged_def Let_def split: option.splits)
qed

subsection \<open>Concrete reads\<close>

definition sample_file :: "nat list" where
  "sample_file = [0..<2000]"

lemma completed_exists:
  assumes "si_start s \<le> si_end s" "si_end s - si_start s < 2 ^ 32"
  shows "\<exists>buf n. completed (file :: nat list) s buf n \<and> whole file s n"
proof -
  define n where "n = min (si_end s - si_start s) (length file - si_start s)"
  have "completed file s (take n (drop (si_start s) file) @ replicate (si_end s - si_start s - n) 0) n \<and> whole file s n"
    using assms unfolding completed_def whole_def uring_len_def n_def by (auto simp: min_def)
  then show ?thesis by blast
qed

lemma read_dma_start:
  assumes "a \<le> b" "b - a < 2 ^ 32"
  shows "\<exists>h f s buf n. read_dma 0 a b (sw_file s_start) = (h, f) \<and> fs_inner f (ss_inner h) = Some s \<and> completed (file :: nat list) s buf n \<and> whole file s n"
  using assms completed_exists [of "\<lparr>si_start = a, si_end = b, si_handles = 1\<rparr>"]
  by (simp add: s_start_def file_sched_new_def read_dma_def consume_scheduled_def covering_def schedule_source_def Let_def)


theorem read_many_exact_witness:
  "\<exists>xs x h f s buf got. coalesce 5 (coalesced_new 4096 None (Some (2 ^ 9)) [Some (100, 50)]) = Some xs \<and> x \<in> set xs \<and>
     read_dma 0 (unat (mi_pos x)) (unat (mi_pos x) + unat (mi_size x)) (sw_file s_start) = (h, f) \<and> fs_inner f (ss_inner h) = Some s \<and>
     completed sample_file s buf got \<and> whole sample_file s got \<and> read_many_result (mi_pos x) (100, 50) h buf got = take 50 (drop 100 sample_file)"
proof -
  let ?es = "[Some (100, 50)] :: iovec option list"
  have ok: "\<forall>io \<in> set (inputs ?es). io_ok 9 io" by (simp add: io_ok_def io_end_def)
  obtain xs where xs: "coalesce 5 (coalesced_new 4096 None (Some (2 ^ 9)) ?es) = Some xs" "concat (map mi_user xs) = [(100, 50)]"
      "\<forall>x \<in> set xs. aligned_ok 9 4096 x"
    using coalesce_ok [OF _ coalesced_new_ok(1,3) [OF ok, where mx = 4096 and amp = None]] coalesced_new_ok(2) [OF ok] by (auto simp: coalesced_new_def)
  have "(100, 50) \<in> set (concat (map mi_user xs))" unfolding xs(2) by simp
  then obtain x where x: "x \<in> set xs" "(100, 50) \<in> set (mi_user x)" by auto
  have "set (mi_user x) \<subseteq> set (concat (map mi_user xs))" using x(1) by auto
  then have "unat (mi_size x) < 2 ^ 32" using xs(3) x(1) unfolding xs(2) by (fastforce simp: aligned_ok_def size_ok_def)
  then obtain h f s buf got where r: "read_dma 0 (unat (mi_pos x)) (unat (mi_pos x) + unat (mi_size x)) (sw_file s_start) = (h, f)"
      "fs_inner f (ss_inner h) = Some s" "completed sample_file s buf got" and w: "whole sample_file s got"
    using read_dma_start [of "unat (mi_pos x)" "unat (mi_pos x) + unat (mi_size x)" sample_file] by auto
  have "reachable (\<lambda>w. w = s_start) s_step s_start" by auto
  then have "read_many_result (mi_pos x) (100, 50) h buf got = take (unat (50 :: u64)) (drop (unat (100 :: u64)) sample_file)"
    using read_many_exact [OF _ ok _ x _ r, where mx = 4096 and amp = None, THEN conjunct2, rule_format, OF _ _ _ w] xs(1) by (simp del: coalesce.simps)
  then show ?thesis using xs(1) x(1) r w by (intro exI conjI) (assumption | simp)+
qed

theorem read_at_exact_witness:
  "\<exists>eff effn b h f s buf got. read_at_range (2 ^ 9) 1000 100 = (eff, effn, b) \<and> read_dma 0 (unat eff) (unat eff + unat effn) (sw_file s_start) = (h, f) \<and>
     fs_inner f (ss_inner h) = Some s \<and> completed sample_file s buf got \<and> whole sample_file s got \<and> read_at_result b 100 h buf got = take 100 (drop 1000 sample_file)"
proof -
  obtain eff effn b where e: "read_at_range (2 ^ 9) 1000 100 = (eff, effn, b)" by (metis prod_cases3)
  then have "unat effn < 2 ^ 32" by (auto simp: read_at_range_def align_up_def align_down_def Let_def)
  then obtain h f s buf got where r: "read_dma 0 (unat eff) (unat eff + unat effn) (sw_file s_start) = (h, f)"
      "fs_inner f (ss_inner h) = Some s" "completed sample_file s buf got" and w: "whole sample_file s got"
    using read_dma_start [of "unat eff" "unat eff + unat effn" sample_file] by auto
  have "reachable (\<lambda>w. w = s_start) s_step s_start" "io_ok 9 (1000, 100)" by (auto simp: io_ok_def io_end_def)
  then have "read_at_result b 100 h buf got = take (unat (100 :: u64)) (drop (unat (1000 :: u64)) sample_file)"
    using read_at_exact [OF _ _ e _ r, THEN conjunct2, THEN conjunct1, rule_format, OF _ _ _ w] by simp
  then show ?thesis using e r w by (intro exI conjI) (assumption | simp)+
qed

theorem bulk_in_order_witness:
  "\<exists>b ys b'. bulk_new 2 [5, 6, 7 :: nat] = Some b \<and> bulk_run list_poll id [\<lambda>x. True, \<lambda>x. True, \<lambda>x. True] b = Some (ys, b') \<and> ys = [5, 6, 7]"
proof -
  obtain b :: "(nat list, nat) bulk_io" where b: "bulk_new 2 [5, 6, 7 :: nat] = Some b" by (simp add: bulk_new_def)
  show ?thesis using bulk_in_order [OF b, of id "[\<lambda>x. True, \<lambda>x. True, \<lambda>x. True]"] b by auto
qed

end
