(* ===== verification/StreamWriter.thy ===== *)
theory StreamWriter
  imports Prelude
begin

section \<open>Writing a file as a stream (glommio/src/io/dma_file_stream.rs)\<close>

text \<open>
  A writer of a direct I/O file collects bytes in a buffer, writes full buffers behind the back of its user, can flush
  a partly filled buffer padded with zeros, and closes the file. The writes in flight
  reach the file in any order, and the tasks that wait for them see that at any later time; a write may also fail after some of its bytes have reached the file,
  or be cut short and succeed with the bytes that fit.
  Positions are natural numbers. What an allocated buffer holds is unspecified and an argument, \<open>alloc\<close>. An error is only present or absent, a task is
  named by a number, and what the tasks do between two awaits is one operation. The file is new when the writer is made.
\<close>

subsection \<open>Buffers and files\<close>

text \<open>\<^verbatim>\<open>slice_write_at\<close> of byte_slice_ext.rs.\<close>

definition slice_write_at :: "u8 list \<Rightarrow> nat \<Rightarrow> u8 list \<Rightarrow> nat \<times> u8 list" where
  "slice_write_at dst off src =
     (if length dst < off then (0, dst)
      else let len = min (length src) (length dst - off) in (len, take off dst @ take len src @ drop (off + len) dst))"

text \<open>A write to a file; a hole reads as zeros.\<close>

definition file_write :: "nat \<Rightarrow> u8 list \<Rightarrow> u8 list \<Rightarrow> u8 list" where
  "file_write at xs file = (if xs = [] then file else take at file @ replicate (at - length file) 0 @ xs @ drop (at + length xs) file)"

subsection \<open>The flushes of a writer\<close>

datatype flush_status = FPending "nat option" | FComplete

record flush_state =
  fl_flushes :: "(nat \<times> flush_status) list"
  fl_pending :: nat
  fl_flushed :: nat

definition flush_state_new :: flush_state where
  "flush_state_new = \<lparr>fl_flushes = [], fl_pending = 0, fl_flushed = 0\<rparr>"

definition last_flush_pos :: "flush_state \<Rightarrow> nat" where
  "last_flush_pos f = (if fl_flushes f = [] then fl_flushed f else fst (last (fl_flushes f)))"

fun take_handles :: "(nat \<times> flush_status) list \<Rightarrow> nat list \<times> (nat \<times> flush_status) list" where
  "take_handles [] = ([], [])"
| "take_handles ((p, st) # xs) =
     (case take_handles xs of (hs, xs') \<Rightarrow>
       (case st of FPending (Some h) \<Rightarrow> (h # hs, (p, FPending None) # xs') | _ \<Rightarrow> (hs, (p, st) # xs')))"

definition take_pending_handles :: "flush_state \<Rightarrow> nat list \<times> flush_state" where
  "take_pending_handles f = (case take_handles (fl_flushes f) of (hs, xs) \<Rightarrow> (hs, f\<lparr>fl_flushes := xs\<rparr>))"

definition on_start :: "nat \<Rightarrow> nat \<Rightarrow> flush_state \<Rightarrow> flush_state option" where
  "on_start pos h f =
     (if last_flush_pos f < pos
      then Some (f\<lparr>fl_pending := fl_pending f + 1, fl_flushes := fl_flushes f @ [(pos, FPending (Some h))]\<rparr>)
      else None)"

text \<open>The loop of \<^verbatim>\<open>on_complete\<close>: what is left of the list, how much of it is drained, the flushed position.\<close>

fun complete_loop :: "nat \<Rightarrow> bool \<Rightarrow> nat \<Rightarrow> nat \<Rightarrow> (nat \<times> flush_status) list \<Rightarrow> (nat \<times> flush_status) list \<times> nat \<times> nat" where
  "complete_loop p counting n fl [] = ([], n, fl)"
| "complete_loop p counting n fl ((q, st) # xs) =
     (let st' = (if q = p then FComplete else st)
      in if counting
         then (if st' = FComplete then (case complete_loop p True (n + 1) q xs of (ys, r) \<Rightarrow> ((q, st') # ys, r))
               else (case complete_loop p False n fl xs of (ys, r) \<Rightarrow> ((q, st') # ys, r)))
         else if p \<le> q then ((q, st') # xs, n, fl)
         else (case complete_loop p False n fl xs of (ys, r) \<Rightarrow> ((q, st') # ys, r)))"

definition on_complete :: "nat \<Rightarrow> flush_state \<Rightarrow> flush_state option" where
  "on_complete p f =
     (if fl_pending f = 0 then None
      else case complete_loop p True 0 (fl_flushed f) (fl_flushes f) of
             (xs, n, fl) \<Rightarrow> Some (f\<lparr>fl_pending := fl_pending f - 1, fl_flushes := drop n xs, fl_flushed := fl\<rparr>))"

subsection \<open>The writer\<close>

datatype file_status = FileOpen | FileClosing | FileClosed

text \<open>A write in flight: where, what, the position it flushes, its task, and whether it has reached the file.\<close>

record flight =
  f_at :: nat
  f_data :: "u8 list"
  f_pos :: nat
  f_task :: nat
  f_landed :: bool

record writer =
  sw_buffer_size :: nat
  sw_write_behind :: nat
  sw_sync_on_close :: bool
  sw_waker :: "waker option"
  sw_status :: file_status
  sw_error :: bool
  sw_flush :: flush_state
  sw_buffer :: "u8 list option"
  sw_aligned :: nat
  sw_synced :: nat
  sw_pos :: nat
  sw_flights :: "flight list"
  sw_next_task :: nat
  sw_wakes :: "waker list"

definition writer_new :: "nat \<Rightarrow> nat \<Rightarrow> bool \<Rightarrow> writer" where
  "writer_new bs wb sync =
     \<lparr>sw_buffer_size = bs, sw_write_behind = wb, sw_sync_on_close = sync, sw_waker = None, sw_status = FileOpen, sw_error = False,
      sw_flush = flush_state_new, sw_buffer = None, sw_aligned = 0, sw_synced = 0, sw_pos = 0, sw_flights = [], sw_next_task = 0, sw_wakes = []\<rparr>"

definition sw_current :: "writer \<Rightarrow> nat" where
  "sw_current s = sw_aligned s + sw_pos s"

definition sw_flushed :: "writer \<Rightarrow> nat" where
  "sw_flushed s = fl_flushed (sw_flush s)"

definition must_truncate :: "writer \<Rightarrow> bool" where
  "must_truncate s \<longleftrightarrow> sw_status s \<noteq> FileClosed \<and> sw_aligned s < sw_flushed s"

definition flush_one_buffer :: "u8 list \<Rightarrow> writer \<Rightarrow> writer option" where
  "flush_one_buffer buf s =
     map_option (\<lambda>f. s\<lparr>sw_flush := f, sw_next_task := sw_next_task s + 1,
         sw_flights := sw_flights s @ [\<lparr>f_at = sw_aligned s, f_data = buf, f_pos = sw_current s, f_task = sw_next_task s, f_landed = False\<rparr>]\<rparr>)
       (on_start (sw_current s) (sw_next_task s) (sw_flush s))"

definition flush_padded :: "(nat \<Rightarrow> u8 list) \<Rightarrow> writer \<Rightarrow> (bool \<times> writer) option" where
  "flush_padded alloc s =
     (if sw_pos s = 0 then Some (False, s)
      else if \<not> sw_pos s < sw_buffer_size s then None
      else if last_flush_pos (sw_flush s) = sw_current s then Some (False, s)
      else if \<not> last_flush_pos (sw_flush s) < sw_current s then None
      else case sw_buffer s of
             None \<Rightarrow> None
           | Some b \<Rightarrow>
               (let data = take (sw_pos s) b @ replicate (length b - sw_pos s) 0;
                    copy = take (sw_pos s) data @ drop (sw_pos s) (alloc (sw_buffer_size s));
                    s1 = s\<lparr>sw_buffer := (if sw_status s = FileOpen then Some copy else None)\<rparr>
                in map_option (Pair True) (flush_one_buffer data s1)))"

text \<open>The loop of a write, on the bytes still to be written; a loop that does not end has no value.\<close>

partial_function (option) write_loop :: "(nat \<Rightarrow> u8 list) \<Rightarrow> u8 list \<Rightarrow> writer \<Rightarrow> (u8 list \<times> writer) option" where
  "write_loop alloc buf s =
     (if buf = [] then Some (buf, s)
      else case sw_buffer s of
             None \<Rightarrow>
               (if fl_pending (sw_flush s) < sw_write_behind s then write_loop alloc buf (s\<lparr>sw_buffer := Some (alloc (sw_buffer_size s))\<rparr>)
                else Some (buf, s))
           | Some b \<Rightarrow>
               (case slice_write_at b (sw_pos s) buf of (n, b') \<Rightarrow>
                 let s1 = s\<lparr>sw_buffer := None, sw_pos := sw_pos s + n\<rparr>
                 in if sw_pos s1 = sw_buffer_size s
                    then Option.bind (flush_one_buffer b' s1)
                           (\<lambda>s2. write_loop alloc (drop n buf) (s2\<lparr>sw_aligned := sw_aligned s2 + sw_buffer_size s2, sw_pos := 0\<rparr>))
                    else write_loop alloc (drop n buf) (s1\<lparr>sw_buffer := Some b'\<rparr>)))"

declare write_loop.simps [code]

definition poll_write :: "(nat \<Rightarrow> u8 list) \<Rightarrow> waker \<Rightarrow> u8 list \<Rightarrow> writer \<Rightarrow> ((nat, unit) result poll \<times> writer) option" where
  "poll_write alloc wk buf s =
     (let s1 = s\<lparr>sw_waker := None\<rparr>
      in if sw_error s1 then Some (Ready (Inl ()), s1\<lparr>sw_error := False\<rparr>)
         else if sw_waker s \<noteq> None then Some (Pending, s1\<lparr>sw_waker := Some wk\<rparr>)
         else Option.bind (write_loop alloc buf s1) (\<lambda>(rest, s2).
                let written = length buf - length rest
                in if written = 0 then Some (Pending, s2\<lparr>sw_waker := Some wk\<rparr>) else Some (Ready (Inr written), s2)))"

definition poll_flush :: "(nat \<Rightarrow> u8 list) \<Rightarrow> waker \<Rightarrow> writer \<Rightarrow> ((unit, unit) result poll \<times> writer) option" where
  "poll_flush alloc wk s =
     (let s1 = s\<lparr>sw_waker := None\<rparr>
      in if sw_error s1 then Some (Ready (Inl ()), s1\<lparr>sw_error := False\<rparr>)
         else if sw_flushed s1 = sw_current s1 then Some (Ready (Inr ()), s1)
         else let s2 = s1\<lparr>sw_waker := Some wk\<rparr>
              in if sw_waker s = None then map_option (\<lambda>(_, s3). (Pending, s3)) (flush_padded alloc s2) else Some (Pending, s2))"

text \<open>\<^verbatim>\<open>flush_inner\<close> up to its awaits (the position it must reach and the tasks it awaits), and after them.\<close>

definition flush_inner_start :: "(nat \<Rightarrow> u8 list) \<Rightarrow> bool \<Rightarrow> writer \<Rightarrow> ((nat \<times> nat list) \<times> writer) option" where
  "flush_inner_start alloc partial s =
     (let finish = (\<lambda>pos s. case take_pending_handles (sw_flush s) of (hs, f) \<Rightarrow> Some ((pos, hs), s\<lparr>sw_flush := f\<rparr>))
      in if partial \<and> 0 < sw_pos s then Option.bind (flush_padded alloc s) (\<lambda>(_, s1). finish (sw_current s1) s1)
         else finish (sw_aligned s) s)"

definition flush_inner_end :: "nat \<Rightarrow> writer \<Rightarrow> ((nat, unit) result \<times> writer) option" where
  "flush_inner_end target s =
     (if sw_error s then Some (Inl (), s\<lparr>sw_error := False\<rparr>)
      else if target \<le> sw_flushed s then Some (Inr (sw_flushed s), s)
      else None)"

text \<open>\<^verbatim>\<open>initiate_close\<close>: the final position and the tasks that the closing task awaits.\<close>

definition initiate_close :: "(nat \<Rightarrow> u8 list) \<Rightarrow> writer \<Rightarrow> ((nat \<times> nat list) \<times> writer) option" where
  "initiate_close alloc s =
     (let s1 = s\<lparr>sw_status := FileClosing\<rparr>
      in Option.bind (flush_padded alloc s1) (\<lambda>(_, s2).
           case take_pending_handles (sw_flush s2) of (hs, f) \<Rightarrow> Some ((sw_current s, hs), s2\<lparr>sw_flush := f\<rparr>)))"

definition wake_writer :: "writer \<Rightarrow> writer" where
  "wake_writer s = (case sw_waker s of None \<Rightarrow> s | Some w \<Rightarrow> s\<lparr>sw_waker := None, sw_wakes := sw_wakes s @ [w]\<rparr>)"

text \<open>
  The rest of the closing task, with what the synchronisation, the truncation and the closing of the file return (true for an error);
  the second component is the file.
\<close>

definition close_task :: "nat \<Rightarrow> bool \<Rightarrow> bool \<Rightarrow> bool \<Rightarrow> writer \<Rightarrow> u8 list \<Rightarrow> (writer \<times> u8 list) option" where
  "close_task final e_sync e_trunc e_close s file =
     (if sw_error s then Some (wake_writer s, file)
      else if sw_flushed s \<noteq> final then None
      else let must_adjust = sw_sync_on_close s \<and> sw_synced s < final
           in if must_adjust \<and> e_sync then Some (wake_writer (s\<lparr>sw_error := True\<rparr>), file)
              else let s1 = (if must_adjust then s\<lparr>sw_synced := final\<rparr> else s)
                   in if must_truncate s1 \<and> e_trunc then Some (wake_writer (s1\<lparr>sw_error := True\<rparr>), file)
                      else Some (wake_writer (if e_close then s1\<lparr>sw_error := True\<rparr> else s1),
                                 if must_truncate s1 then take final file else file))"

definition poll_close :: "(nat \<Rightarrow> u8 list) \<Rightarrow> waker \<Rightarrow> writer \<Rightarrow> ((unit, unit) result poll \<times> (nat \<times> nat list) option \<times> writer) option" where
  "poll_close alloc wk s =
     (let s1 = s\<lparr>sw_waker := None\<rparr>
      in case sw_status s of
           FileOpen \<Rightarrow>
             (if sw_waker s \<noteq> None then None
              else map_option (\<lambda>(c, s2). (Pending, Some c, s2)) (initiate_close alloc (s1\<lparr>sw_waker := Some wk\<rparr>)))
         | FileClosing \<Rightarrow>
             (if sw_waker s \<noteq> None then Some (Pending, None, s1\<lparr>sw_waker := Some wk\<rparr>)
              else let s2 = s1\<lparr>sw_status := FileClosed\<rparr>
                   in Some (Ready (if sw_error s2 then Inl () else Inr ()), None, s2\<lparr>sw_error := False\<rparr>))
         | FileClosed \<Rightarrow> Some (Ready (Inl ()), None, s1))"

text \<open>The task of a flush, once its write has returned. The number of bytes that the write reports is not looked at.\<close>

definition flush_task_end :: "(nat, unit) result \<Rightarrow> nat \<Rightarrow> writer \<Rightarrow> writer option" where
  "flush_task_end res pos s =
     map_option (\<lambda>s1. if sw_status s1 = FileOpen then wake_writer s1 else s1)
       (case res of Inl _ \<Rightarrow> Some (s\<lparr>sw_error := True\<rparr>) | Inr _ \<Rightarrow> map_option (\<lambda>f. s\<lparr>sw_flush := f\<rparr>) (on_complete pos (sw_flush s)))"

text \<open>\<^verbatim>\<open>sync_inner\<close> up to its await (the flushed position and whether it synchronises the file), and after it.\<close>

definition sync_inner_start :: "writer \<Rightarrow> (nat \<times> bool) option" where
  "sync_inner_start s =
     (if sw_synced s < sw_flushed s then Some (sw_flushed s, True)
      else if sw_synced s = sw_flushed s then Some (sw_flushed s, False)
      else None)"

definition sync_inner_end :: "nat \<times> bool \<Rightarrow> bool \<Rightarrow> writer \<Rightarrow> (nat, unit) result \<times> writer" where
  "sync_inner_end p failed s =
     (if snd p then (if failed then (Inl (), s) else (Inr (fst p), s\<lparr>sw_synced := fst p\<rparr>)) else (Inr (fst p), s))"

subsection \<open>A writer in use\<close>

text \<open>
  The writer, the file, the bytes that were accepted, the flushes that are awaited by a user, the
  synchronisations under way and the closing task. A writer is used until it is closed. An allocated buffer holds what a list says, and zeros after it.
\<close>

record wworld =
  ww_writer :: writer
  ww_file :: "u8 list"
  ww_accepted :: "u8 list"
  ww_syncs :: "(nat \<times> nat list) list"
  ww_fsyncs :: "(nat \<times> bool) list"
  ww_close :: "(nat \<times> nat list) option"

definition dirty :: "u8 list \<Rightarrow> nat \<Rightarrow> u8 list" where
  "dirty g n = take n g @ replicate (n - length g) 0"

datatype wop = WWrite "u8 list" waker "u8 list" | WFlush "u8 list" waker | WSync "u8 list" bool | WSyncEnd nat | WSyncDrop nat | WSyncInner | WSyncInnerEnd nat bool
  | WLand nat | WDone nat | WShort nat nat | WFail nat nat | WClose "u8 list" waker | WCloseTask bool bool bool

definition remove_at :: "nat \<Rightarrow> 'a list \<Rightarrow> 'a list" where
  "remove_at i xs = take i xs @ drop (Suc i) xs"

fun w_exec :: "wop \<Rightarrow> wworld \<Rightarrow> wworld option" where
  "w_exec (WWrite g wk buf) w =
     map_option (\<lambda>(r, s). w\<lparr>ww_writer := s, ww_accepted := ww_accepted w @ (case r of Ready (Inr n) \<Rightarrow> take n buf | _ \<Rightarrow> [])\<rparr>)
       (poll_write (dirty g) wk buf (ww_writer w))"
| "w_exec (WFlush g wk) w = map_option (\<lambda>(r, s). w\<lparr>ww_writer := s\<rparr>) (poll_flush (dirty g) wk (ww_writer w))"
| "w_exec (WSync g partial) w =
     map_option (\<lambda>(c, s). w\<lparr>ww_writer := s, ww_syncs := ww_syncs w @ [c]\<rparr>) (flush_inner_start (dirty g) partial (ww_writer w))"
| "w_exec (WSyncEnd k) w =
     map_option (\<lambda>(r, s). w\<lparr>ww_writer := s, ww_syncs := remove_at k (ww_syncs w)\<rparr>) (flush_inner_end (fst (ww_syncs w ! k)) (ww_writer w))"
| "w_exec (WSyncDrop k) w = Some (w\<lparr>ww_syncs := remove_at k (ww_syncs w)\<rparr>)"
| "w_exec WSyncInner w = map_option (\<lambda>p. w\<lparr>ww_fsyncs := ww_fsyncs w @ [p]\<rparr>) (sync_inner_start (ww_writer w))"
| "w_exec (WSyncInnerEnd k e) w =
     Some (w\<lparr>ww_writer := snd (sync_inner_end (ww_fsyncs w ! k) e (ww_writer w)), ww_fsyncs := remove_at k (ww_fsyncs w)\<rparr>)"
| "w_exec (WLand i) w =
     (let s = ww_writer w; f = sw_flights s ! i
      in Some (w\<lparr>ww_writer := s\<lparr>sw_flights := (sw_flights s)[i := f\<lparr>f_landed := True\<rparr>]\<rparr>, ww_file := file_write (f_at f) (f_data f) (ww_file w)\<rparr>))"
| "w_exec (WDone i) w =
     (let s = ww_writer w; f = sw_flights s ! i
      in map_option (\<lambda>s. w\<lparr>ww_writer := s\<rparr>) (flush_task_end (Inr (length (f_data f))) (f_pos f) (s\<lparr>sw_flights := remove_at i (sw_flights s)\<rparr>)))"
| "w_exec (WShort i n) w =
     (let s = ww_writer w; f = sw_flights s ! i
      in map_option (\<lambda>s. w\<lparr>ww_writer := s, ww_file := file_write (f_at f) (take n (f_data f)) (ww_file w)\<rparr>)
           (flush_task_end (Inr n) (f_pos f) (s\<lparr>sw_flights := remove_at i (sw_flights s)\<rparr>)))"
| "w_exec (WFail i n) w =
     (let s = ww_writer w; f = sw_flights s ! i
      in map_option (\<lambda>s. w\<lparr>ww_writer := s, ww_file := file_write (f_at f) (take n (f_data f)) (ww_file w)\<rparr>)
           (flush_task_end (Inl ()) (f_pos f) (s\<lparr>sw_flights := remove_at i (sw_flights s)\<rparr>)))"
| "w_exec (WClose g wk) w =
     map_option (\<lambda>(r, c, s). w\<lparr>ww_writer := s, ww_close := (if c = None then ww_close w else c)\<rparr>) (poll_close (dirty g) wk (ww_writer w))"
| "w_exec (WCloseTask es et ec) w =
     map_option (\<lambda>(s, file). w\<lparr>ww_writer := s, ww_file := file, ww_close := None\<rparr>)
       (close_task (fst (the (ww_close w))) es et ec (ww_writer w) (ww_file w))"

definition finished :: "nat list \<Rightarrow> writer \<Rightarrow> bool" where
  "finished hs s \<longleftrightarrow> list_all (\<lambda>f. f_task f \<notin> set hs) (sw_flights s)"

fun w_enabled :: "wop \<Rightarrow> wworld \<Rightarrow> bool" where
  "w_enabled (WWrite g wk buf) w = (sw_status (ww_writer w) = FileOpen)"
| "w_enabled (WFlush g wk) w = (sw_status (ww_writer w) = FileOpen)"
| "w_enabled (WSync g partial) w = (sw_status (ww_writer w) = FileOpen)"
| "w_enabled (WSyncEnd k) w = (k < length (ww_syncs w) \<and> finished (snd (ww_syncs w ! k)) (ww_writer w))"
| "w_enabled (WSyncDrop k) w = (k < length (ww_syncs w))"
| "w_enabled WSyncInner w = (sw_status (ww_writer w) = FileOpen)"
| "w_enabled (WSyncInnerEnd k e) w = (k < length (ww_fsyncs w))"
| "w_enabled (WLand i) w = (i < length (sw_flights (ww_writer w)) \<and> \<not> f_landed (sw_flights (ww_writer w) ! i))"
| "w_enabled (WDone i) w = (i < length (sw_flights (ww_writer w)) \<and> f_landed (sw_flights (ww_writer w) ! i))"
| "w_enabled (WShort i n) w = (i < length (sw_flights (ww_writer w)) \<and> \<not> f_landed (sw_flights (ww_writer w) ! i) \<and> n < length (f_data (sw_flights (ww_writer w) ! i)))"
| "w_enabled (WFail i n) w = (i < length (sw_flights (ww_writer w)) \<and> \<not> f_landed (sw_flights (ww_writer w) ! i))"
| "w_enabled (WClose g wk) w = True"
| "w_enabled (WCloseTask es et ec) w = (case ww_close w of None \<Rightarrow> False | Some (final, hs) \<Rightarrow> finished hs (ww_writer w))"

inductive w_step :: "wworld \<Rightarrow> wworld \<Rightarrow> bool" where
  "w_enabled op w \<Longrightarrow> w_exec op w = Some w' \<Longrightarrow> w_step w w'"

definition w_init :: "wworld \<Rightarrow> bool" where
  "w_init w \<longleftrightarrow> (\<exists>bs wb sync. 0 < bs \<and> 0 < wb \<and>
     w = \<lparr>ww_writer = writer_new bs wb sync, ww_file = [], ww_accepted = [], ww_syncs = [], ww_fsyncs = [], ww_close = None\<rparr>)"

text \<open>
  A write that finds the block that it continues in flight, because it was flushed before it was full, overlaps with that flush. A device
  that is full may cut a write short. A step is careful when it is neither.
\<close>

definition careful :: "wop \<Rightarrow> wworld \<Rightarrow> bool" where
  "careful op w = (case op of WWrite _ _ _ \<Rightarrow> list_all (\<lambda>f. f_pos f \<le> sw_aligned (ww_writer w)) (sw_flights (ww_writer w)) | WShort _ _ \<Rightarrow> False | _ \<Rightarrow> True)"

inductive c_step :: "wworld \<Rightarrow> wworld \<Rightarrow> bool" where
  "w_enabled op w \<Longrightarrow> careful op w \<Longrightarrow> w_exec op w = Some w' \<Longrightarrow> c_step w w'"

inductive_cases c_stepE: "c_step w w'"

subsection \<open>What the flushed position means\<close>

definition good :: "u8 list \<Rightarrow> u8 list \<Rightarrow> nat \<Rightarrow> bool" where
  "good file acc i \<longleftrightarrow> i < length file \<and> file ! i = acc ! i"

text \<open>
  The flushes from position \<open>p\<close> on: they grow, none skips a block, and what a completed one covers is in the file.
\<close>

fun flush_chain :: "nat \<Rightarrow> (nat \<Rightarrow> bool) \<Rightarrow> nat \<Rightarrow> (nat \<times> flush_status) list \<Rightarrow> bool" where
  "flush_chain bs P p [] = True"
| "flush_chain bs P p ((q, st) # xs) \<longleftrightarrow> p < q \<and> (q - 1) div bs = p div bs \<and> (st = FComplete \<longrightarrow> (\<forall>i. p \<le> i \<and> i < q \<longrightarrow> P i)) \<and> flush_chain bs P q xs"

definition pendings :: "flush_state \<Rightarrow> nat list" where
  "pendings f = map fst (filter (\<lambda>e. snd e \<noteq> FComplete) (fl_flushes f))"

definition fs_ok :: "nat \<Rightarrow> (nat \<Rightarrow> bool) \<Rightarrow> flush_state \<Rightarrow> bool" where
  "fs_ok bs P f \<longleftrightarrow> flush_chain bs P (fl_flushed f) (fl_flushes f) \<and> (\<forall>i < fl_flushed f. P i) \<and> fl_pending f = length (pendings f) \<and>
     (fl_flushes f \<noteq> [] \<longrightarrow> snd (hd (fl_flushes f)) \<noteq> FComplete)"

lemma flush_chain_mono:
  "flush_chain bs P p xs \<Longrightarrow> (\<And>i. i < last (p # map fst xs) \<Longrightarrow> P i \<Longrightarrow> Q i) \<Longrightarrow> flush_chain bs Q p xs \<and> p \<le> last (p # map fst xs)"
proof (induction xs arbitrary: p)
  case (Cons e xs)
  obtain q st where e: "e = (q, st)" by fastforce
  have "flush_chain bs Q q xs \<and> q \<le> last (q # map fst xs)" using Cons e by auto
  moreover have "last (p # map fst (e # xs)) = last (q # map fst xs)" using e by simp
  ultimately show ?case using Cons.prems e by fastforce
qed simp

lemma flush_chain_append:
  "flush_chain bs P p (xs @ [(q, st)]) \<longleftrightarrow> flush_chain bs P p xs \<and> last (p # map fst xs) < q \<and> (q - 1) div bs = last (p # map fst xs) div bs \<and>
     (st = FComplete \<longrightarrow> (\<forall>i. last (p # map fst xs) \<le> i \<and> i < q \<longrightarrow> P i))"
  by (induction xs arbitrary: p) (auto split: if_splits)

lemma last_flush_pos_alt: "last_flush_pos f = last (fl_flushed f # map fst (fl_flushes f))"
  by (simp add: last_flush_pos_def last_map)

lemma flush_chain_sorted: "flush_chain bs P p xs \<Longrightarrow> sorted_wrt (<) (map fst xs) \<and> (\<forall>q \<in> set (map fst xs). p < q)"
  by (induction bs P p xs rule: flush_chain.induct) (auto intro: less_trans)

text \<open>The loop equals its specification: mark the flush as complete, and drain the complete ones at the front.\<close>

definition mark_complete :: "nat \<Rightarrow> (nat \<times> flush_status) list \<Rightarrow> (nat \<times> flush_status) list" where
  "mark_complete p xs = map (\<lambda>(q, st). (q, if q = p then FComplete else st)) xs"

definition complete_front :: "(nat \<times> flush_status) list \<Rightarrow> (nat \<times> flush_status) list" where
  "complete_front xs = takeWhile (\<lambda>e. snd e = FComplete) xs"

lemma mark_complete_simps [simp]:
  "mark_complete p [] = []" "mark_complete p ((q, st) # xs) = (q, if q = p then FComplete else st) # mark_complete p xs"
  "map fst (mark_complete p xs) = map fst xs"
  by (induction xs) (auto simp: mark_complete_def)

lemma mark_complete_id: "\<forall>q \<in> set (map fst xs). p < q \<Longrightarrow> mark_complete p xs = xs"
  by (induction xs) auto

lemma complete_loop_rest: "sorted_wrt (<) (map fst xs) \<Longrightarrow> complete_loop p False n fl xs = (mark_complete p xs, n, fl)"
proof (induction xs)
  case (Cons e xs)
  obtain q st where e: "e = (q, st)" by fastforce
  have "mark_complete p xs = xs" if "p \<le> q" using Cons.prems e that by (intro mark_complete_id) (auto intro: le_less_trans)
  then show ?case using Cons e by auto
qed simp

lemma complete_loop_spec:
  "sorted_wrt (<) (map fst xs) \<Longrightarrow> complete_loop p True n fl xs =
     (mark_complete p xs, n + length (complete_front (mark_complete p xs)), last (fl # map fst (complete_front (mark_complete p xs))))"
proof (induction xs arbitrary: n fl)
  case (Cons e xs)
  obtain q st where e: "e = (q, st)" by fastforce
  then show ?case using Cons complete_loop_rest [of xs p n fl] by (auto simp: complete_front_def Let_def)
qed (simp add: complete_front_def)

lemma on_complete_spec:
  assumes "sorted_wrt (<) (map fst (fl_flushes f))" "fl_pending f \<noteq> 0"
  shows "on_complete p f = Some (f\<lparr>fl_pending := fl_pending f - 1,
    fl_flushes := dropWhile (\<lambda>e. snd e = FComplete) (mark_complete p (fl_flushes f)),
    fl_flushed := last (fl_flushed f # map fst (complete_front (mark_complete p (fl_flushes f))))\<rparr>)"
  using assms complete_loop_spec [of "fl_flushes f" p 0 "fl_flushed f"] by (simp add: on_complete_def complete_front_def dropWhile_eq_drop)

lemma flush_chain_mark:
  "flush_chain bs P p xs \<Longrightarrow> (\<And>i. (q - 1) div bs * bs \<le> i \<Longrightarrow> i < q \<Longrightarrow> P i) \<Longrightarrow> flush_chain bs P p (mark_complete q xs)"
proof (induction xs arbitrary: p)
  case (Cons e xs)
  obtain r st where e: "e = (r, st)" by fastforce
  have "P i" if "r = q" "p \<le> i" "i < q" for i
  proof -
    have "(q - 1) div bs * bs \<le> p" using Cons.prems(1) e that(1) div_times_less_eq_dividend [of p bs] by simp
    then show ?thesis using Cons.prems(2) [of i] that by simp
  qed
  then show ?case using Cons e by auto
qed simp

lemma flush_chain_drain:
  "flush_chain bs P p xs \<Longrightarrow> (\<And>i. i < p \<Longrightarrow> P i) \<Longrightarrow>
     flush_chain bs P (last (p # map fst (complete_front xs))) (dropWhile (\<lambda>e. snd e = FComplete) xs) \<and> (\<forall>i < last (p # map fst (complete_front xs)). P i)"
proof (induction xs arbitrary: p)
  case (Cons e xs)
  obtain q st where e: "e = (q, st)" by fastforce
  show ?case
  proof (cases "st = FComplete")
    case True
    have c: "flush_chain bs P q xs" using Cons.prems(1) e by simp
    have "P i" if "i < q" for i
    proof (cases "i < p")
      case False
      then show ?thesis using Cons.prems(1) e True that by simp
    qed (rule Cons.prems(2))
    from Cons.IH [OF c this] show ?thesis using True e by (simp add: complete_front_def)
  next
    case False
    then show ?thesis using Cons.prems e by (simp add: complete_front_def)
  qed
qed (simp add: complete_front_def)

lemma pendings_drain: "filter (\<lambda>e. snd e \<noteq> FComplete) (dropWhile (\<lambda>e. snd e = FComplete) xs) = filter (\<lambda>e. snd e \<noteq> FComplete) xs"
  by (induction xs) auto

lemma pendings_mark:
  "map fst (filter (\<lambda>e. snd e \<noteq> FComplete) (mark_complete q xs)) = filter (\<lambda>p. p \<noteq> q) (map fst (filter (\<lambda>e. snd e \<noteq> FComplete) xs))"
  by (induction xs) auto

lemma length_filter_remove: "distinct xs \<Longrightarrow> q \<in> set xs \<Longrightarrow> length (filter (\<lambda>p. p \<noteq> q) xs) = length xs - 1"
proof -
  assume "distinct xs" "q \<in> set xs"
  moreover have "filter (\<lambda>p. p \<noteq> q) xs = removeAll q xs" by (induction xs) auto
  ultimately show ?thesis by (simp add: distinct_remove1_removeAll [symmetric] length_remove1)
qed

lemma last_append_map: "last (last (p # map fst xs) # map fst ys) = last (p # map fst (xs @ ys))"
  by (cases ys) auto

lemma fs_ok_pendings_distinct: "fs_ok bs P f \<Longrightarrow> distinct (pendings f)"
  using flush_chain_sorted [of bs P "fl_flushed f" "fl_flushes f"]
  by (auto simp: fs_ok_def pendings_def strict_sorted_iff intro!: distinct_map_filter)

lemma on_complete_ok:
  assumes "fs_ok bs P f" "q \<in> set (pendings f)" "\<And>i. (q - 1) div bs * bs \<le> i \<Longrightarrow> i < q \<Longrightarrow> P i"
  shows "\<exists>f'. on_complete q f = Some f' \<and> fs_ok bs P f' \<and> pendings f' = filter (\<lambda>p. p \<noteq> q) (pendings f) \<and> fl_flushed f \<le> fl_flushed f' \<and>
    last_flush_pos f' = last_flush_pos f"
proof -
  let ?xs = "mark_complete q (fl_flushes f)"
  let ?f = "f\<lparr>fl_pending := fl_pending f - 1, fl_flushes := dropWhile (\<lambda>e. snd e = FComplete) ?xs, fl_flushed := last (fl_flushed f # map fst (complete_front ?xs))\<rparr>"
  have c: "flush_chain bs P (fl_flushed f) (fl_flushes f)" "\<And>i. i < fl_flushed f \<Longrightarrow> P i" "fl_pending f = length (pendings f)"
    using assms(1) by (auto simp: fs_ok_def)
  have e: "on_complete q f = Some ?f" using on_complete_spec [of f q] flush_chain_sorted [OF c(1)] c(3) assms(2) by (cases "pendings f") auto
  have m: "flush_chain bs P (fl_flushed f) ?xs" using flush_chain_mark [OF c(1)] assms(3) by blast
  note d = flush_chain_drain [OF m c(2)]
  have p: "pendings ?f = filter (\<lambda>p. p \<noteq> q) (pendings f)" by (simp add: pendings_def pendings_drain pendings_mark)
  moreover have "fl_pending ?f = length (pendings ?f)"
    using length_filter_remove [OF fs_ok_pendings_distinct [OF assms(1)] assms(2)] p c(3) by simp
  moreover have "snd (hd (dropWhile (\<lambda>e. snd e = FComplete) ?xs)) \<noteq> FComplete" if "dropWhile (\<lambda>e. snd e = FComplete) ?xs \<noteq> []"
    using hd_dropWhile [OF that] by simp
  ultimately have ok: "fs_ok bs P ?f" using d by (simp add: fs_ok_def)
  have eq: "?xs = complete_front ?xs @ dropWhile (\<lambda>e. snd e = FComplete) ?xs" by (simp add: complete_front_def)
  have l: "last_flush_pos ?f = last (fl_flushed f # map fst ?xs)"
    using last_append_map [of "fl_flushed f" "complete_front ?xs" "dropWhile (\<lambda>e. snd e = FComplete) ?xs"] eq [symmetric] by (simp add: last_flush_pos_alt)
  have "fl_flushed f \<le> fl_flushed ?f"
  proof (cases "complete_front ?xs")
    case (Cons e es)
    have "last (fl_flushed f # map fst (complete_front ?xs)) \<in> fst ` set (complete_front ?xs)" using Cons by (auto simp: last_map)
    moreover have "set (complete_front ?xs) \<subseteq> set ?xs" by (auto simp: complete_front_def dest: set_takeWhileD)
    ultimately have "last (fl_flushed f # map fst (complete_front ?xs)) \<in> set (map fst ?xs)" unfolding set_map by blast
    then have "fl_flushed f < last (fl_flushed f # map fst (complete_front ?xs))" using flush_chain_sorted [OF m] by blast
    then show ?thesis by simp
  qed simp
  moreover have "last_flush_pos ?f = last_flush_pos f" by (rule trans [OF l]) (simp add: last_flush_pos_alt)
  ultimately show ?thesis using e ok p by (intro exI [of _ ?f]) blast
qed

lemma fs_ok_mono:
  assumes "fs_ok bs P f" "\<And>i. i < last_flush_pos f \<Longrightarrow> P i \<Longrightarrow> Q i"
  shows "fs_ok bs Q f"
proof -
  have "flush_chain bs Q (fl_flushed f) (fl_flushes f) \<and> fl_flushed f \<le> last_flush_pos f"
    unfolding last_flush_pos_alt by (rule flush_chain_mono [where P = P]) (use assms in \<open>auto simp: fs_ok_def last_flush_pos_alt\<close>)
  then show ?thesis using assms by (auto simp: fs_ok_def)
qed

lemma flushed_le_last: "fs_ok bs P f \<Longrightarrow> fl_flushed f \<le> last_flush_pos f"
  using flush_chain_mono [of bs P "fl_flushed f" "fl_flushes f" P] by (simp only: fs_ok_def last_flush_pos_alt)

lemma on_start_ok:
  assumes "fs_ok bs P f" "last_flush_pos f < q" "(q - 1) div bs = last_flush_pos f div bs"
  shows "\<exists>f'. on_start q h f = Some f' \<and> fs_ok bs P f' \<and> pendings f' = pendings f @ [q] \<and> last_flush_pos f' = q \<and> fl_flushed f' = fl_flushed f"
proof -
  let ?f = "f\<lparr>fl_pending := fl_pending f + 1, fl_flushes := fl_flushes f @ [(q, FPending (Some h))]\<rparr>"
  have "fs_ok bs P ?f" using assms by (auto simp: fs_ok_def flush_chain_append pendings_def last_flush_pos_alt hd_append)
  then show ?thesis using assms(2) by (intro exI [of _ ?f]) (auto simp: on_start_def pendings_def last_flush_pos_def)
qed

lemma take_handles_ok:
  "take_handles xs = (hs, ys) \<Longrightarrow> map fst ys = map fst xs \<and> map (\<lambda>e. snd e = FComplete) ys = map (\<lambda>e. snd e = FComplete) xs \<and> (flush_chain bs P p xs \<longrightarrow> flush_chain bs P p ys)"
proof (induction xs arbitrary: hs ys p)
  case (Cons e xs)
  obtain q st where e: "e = (q, st)" by fastforce
  obtain hs' ys' where t: "take_handles xs = (hs', ys')" by fastforce
  show ?case using Cons.IH [OF t, of q] Cons.prems e t by (auto split: flush_status.splits option.splits)
qed simp

lemma pendings_alt: "map fst xs = map fst ys \<Longrightarrow> map (\<lambda>e. snd e = FComplete) xs = map (\<lambda>e. snd e = FComplete) ys \<Longrightarrow>
    map fst (filter (\<lambda>e. snd e \<noteq> FComplete) xs) = map fst (filter (\<lambda>e. snd e \<noteq> FComplete) ys)"
proof (induction xs arbitrary: ys)
  case (Cons x xs)
  then show ?case by (cases ys) auto
qed simp

lemma take_pending_ok:
  assumes "fs_ok bs P f" "take_pending_handles f = (hs, f')"
  shows "fs_ok bs P f' \<and> pendings f' = pendings f \<and> last_flush_pos f' = last_flush_pos f \<and> fl_flushed f' = fl_flushed f \<and> fl_pending f' = fl_pending f"
proof -
  obtain xs where t: "take_handles (fl_flushes f) = (hs, xs)" "f' = f\<lparr>fl_flushes := xs\<rparr>" using assms(2) by (auto simp: take_pending_handles_def split: prod.splits)
  note h = take_handles_ok [OF t(1), of bs P "fl_flushed f"]
  have p: "pendings f' = pendings f" using pendings_alt [of xs "fl_flushes f"] h t(2) by (simp add: pendings_def)
  have "snd (hd xs) \<noteq> FComplete" if "xs \<noteq> []"
  proof -
    have m: "map (\<lambda>e. snd e = FComplete) xs = map (\<lambda>e. snd e = FComplete) (fl_flushes f)" using h by blast
    have "fl_flushes f \<noteq> []" using arg_cong [OF m, of length] that by auto
    then have "(snd (hd xs) = FComplete) = (snd (hd (fl_flushes f)) = FComplete)" using arg_cong [OF m, of hd] that by (simp add: hd_map del: map_eq_conv)
    then show ?thesis using assms(1) \<open>fl_flushes f \<noteq> []\<close> by (simp add: fs_ok_def)
  qed
  moreover have "last_flush_pos f' = last_flush_pos f" using h t(2) by (simp add: last_flush_pos_alt)
  ultimately show ?thesis using assms(1) h p t(2) by (auto simp: fs_ok_def)
qed

subsection \<open>The invariant\<close>

definition flight_ok :: "nat \<Rightarrow> u8 list \<Rightarrow> u8 list \<Rightarrow> flight \<Rightarrow> bool" where
  "flight_ok bs file acc f \<longleftrightarrow> length (f_data f) = bs \<and> 0 < f_pos f \<and> f_at f = (f_pos f - 1) div bs * bs \<and> f_pos f \<le> length acc \<and>
     take (f_pos f - f_at f) (f_data f) = take (f_pos f - f_at f) (drop (f_at f) acc) \<and> (f_pos f = f_at f + bs \<or> f_pos f = length acc) \<and>
     (f_landed f \<longrightarrow> (\<forall>i. f_at f \<le> i \<and> i < f_pos f \<longrightarrow> good file acc i))"

definition buffer_ok :: "u8 list \<Rightarrow> writer \<Rightarrow> bool" where
  "buffer_ok acc s \<longleftrightarrow> (\<forall>b. sw_buffer s = Some b \<longrightarrow> length b = sw_buffer_size s \<and> take (sw_pos s) b = drop (sw_aligned s) acc) \<and>
     (0 < sw_pos s \<and> sw_buffer s = None \<longrightarrow> sw_status s \<noteq> FileOpen \<and> last_flush_pos (sw_flush s) = length acc)"

definition pos_ok :: "u8 list \<Rightarrow> u8 list \<Rightarrow> writer \<Rightarrow> bool" where
  "pos_ok file acc s \<longleftrightarrow> 0 < sw_buffer_size s \<and> sw_pos s < sw_buffer_size s \<and> length acc = sw_aligned s + sw_pos s \<and> sw_buffer_size s dvd sw_aligned s \<and>
     sw_aligned s \<le> last_flush_pos (sw_flush s) \<and> last_flush_pos (sw_flush s) \<le> length acc \<and>
     length file \<le> sw_aligned s + (if sw_aligned s < last_flush_pos (sw_flush s) then sw_buffer_size s else 0)"

definition flights_ok :: "u8 list \<Rightarrow> u8 list \<Rightarrow> writer \<Rightarrow> bool" where
  "flights_ok file acc s \<longleftrightarrow> (\<forall>f \<in> set (sw_flights s). flight_ok (sw_buffer_size s) file acc f) \<and>
     f_pos ` set (sw_flights s) \<subseteq> set (pendings (sw_flush s)) \<and> distinct (map f_pos (sw_flights s)) \<and>
     distinct (map f_task (sw_flights s)) \<and> (\<forall>f \<in> set (sw_flights s). f_task f < sw_next_task s)"

definition sw_ok :: "u8 list \<Rightarrow> u8 list \<Rightarrow> writer \<Rightarrow> bool" where
  "sw_ok file acc s \<longleftrightarrow> pos_ok file acc s \<and> buffer_ok acc s \<and> fs_ok (sw_buffer_size s) (good file acc) (sw_flush s) \<and> flights_ok file acc s"

lemma good_append: "i < length acc \<Longrightarrow> good file (acc @ xs) i = good file acc i"
  by (simp add: good_def nth_append)

lemma div_block:
  assumes "bs dvd a" "a \<le> x" "x < a + bs"
  shows "x div bs * bs = (a :: nat)" "x div bs = a div bs"
proof -
  obtain k where k: "a = k * bs" using assms(1) by (metis dvd_def mult.commute)
  have "x div bs = k"
  proof (rule div_nat_eqI)
    show "bs * k \<le> x" using assms(2) k by (simp add: mult.commute)
    show "x < bs * Suc k" using assms(3) k by (simp add: algebra_simps)
  qed
  then show "x div bs * bs = a" "x div bs = a div bs" using k assms(2,3) by auto
qed

text \<open>A flush of the buffer in the state where \<open>acc\<close> was accepted, up to its last byte.\<close>

lemma flush_one_ok:
  assumes "sw_buffer_size s dvd sw_aligned s" "0 < sw_pos s" "sw_pos s \<le> sw_buffer_size s" "length acc = sw_current s"
    and "sw_aligned s \<le> last_flush_pos (sw_flush s)" "last_flush_pos (sw_flush s) < sw_current s"
    and "fs_ok (sw_buffer_size s) (good file acc) (sw_flush s)" "flights_ok file acc s"
    and "length buf = sw_buffer_size s" "take (sw_pos s) buf = drop (sw_aligned s) acc"
  shows "\<exists>f fl. flush_one_buffer buf s = Some (s\<lparr>sw_flush := f, sw_next_task := sw_next_task s + 1, sw_flights := sw_flights s @ [fl]\<rparr>) \<and>
    fs_ok (sw_buffer_size s) (good file acc) f \<and> flights_ok file acc (s\<lparr>sw_flush := f, sw_next_task := sw_next_task s + 1, sw_flights := sw_flights s @ [fl]\<rparr>) \<and>
    last_flush_pos f = sw_current s \<and> f_pos fl = sw_current s \<and> fl_flushed f = fl_flushed (sw_flush s)"
proof -
  let ?bs = "sw_buffer_size s" and ?q = "sw_current s"
  define fl where "fl = \<lparr>f_at = sw_aligned s, f_data = buf, f_pos = ?q, f_task = sw_next_task s, f_landed = False\<rparr>"
  have q: "(?q - 1) div ?bs * ?bs = sw_aligned s" "(?q - 1) div ?bs = sw_aligned s div ?bs"
    using div_block [OF assms(1), of "?q - 1"] assms(2,3) by (auto simp: sw_current_def)
  have l: "last_flush_pos (sw_flush s) div ?bs = sw_aligned s div ?bs"
    using div_block(2) [OF assms(1,5)] assms(2,3,6) by (simp add: sw_current_def)
  obtain f where f: "on_start ?q (sw_next_task s) (sw_flush s) = Some f" "fs_ok ?bs (good file acc) f" "pendings f = pendings (sw_flush s) @ [?q]"
      "last_flush_pos f = ?q" "fl_flushed f = fl_flushed (sw_flush s)"
    using on_start_ok [OF assms(7,6), of "sw_next_task s"] q(2) l by auto
  have new: "?q \<notin> set (pendings (sw_flush s))"
    using fs_ok_pendings_distinct [OF f(2)] f(3) by simp
  have "flight_ok ?bs file acc fl" using q(1) assms(2-4,9,10) by (simp add: flight_ok_def fl_def sw_current_def)
  then have "flights_ok file acc (s\<lparr>sw_flush := f, sw_next_task := sw_next_task s + 1, sw_flights := sw_flights s @ [fl]\<rparr>)"
    using assms(8) f(3) new by (auto simp: flights_ok_def fl_def less_Suc_eq)
  then show ?thesis using f by (intro exI [of _ f] exI [of _ fl]) (auto simp: flush_one_buffer_def fl_def)
qed

subsection \<open>A write\<close>

definition full_flights :: "writer \<Rightarrow> bool" where
  "full_flights s \<longleftrightarrow> list_all (\<lambda>f. f_pos f \<le> sw_aligned s) (sw_flights s)"

text \<open>What no part of a write changes.\<close>

definition same_frame :: "writer \<Rightarrow> writer \<Rightarrow> bool" where
  "same_frame s s' \<longleftrightarrow> sw_buffer_size s' = sw_buffer_size s \<and> sw_write_behind s' = sw_write_behind s \<and> sw_sync_on_close s' = sw_sync_on_close s \<and>
     sw_waker s' = sw_waker s \<and> sw_status s' = sw_status s \<and> sw_error s' = sw_error s \<and> sw_synced s' = sw_synced s \<and> sw_flushed s' = sw_flushed s"

lemma same_frame_trans: "same_frame a b \<Longrightarrow> same_frame b c \<Longrightarrow> same_frame a c"
  by (simp add: same_frame_def)

lemma flight_ok_append:
  assumes "flight_ok bs file acc f" "pos_ok file acc s" "f_pos f \<le> sw_aligned s" "bs = sw_buffer_size s"
  shows "flight_ok bs file (acc @ xs) f"
proof -
  have full: "f_pos f = f_at f + bs"
  proof (cases "f_pos f = f_at f + bs")
    case False
    then have e: "f_pos f = sw_aligned s" "0 < f_pos f" using assms by (auto simp: flight_ok_def pos_ok_def)
    have d: "bs dvd sw_aligned s" "0 < bs" using assms(2,4) by (auto simp: pos_ok_def)
    then have le: "bs \<le> sw_aligned s" using e by (auto dest: dvd_imp_le)
    have "(sw_aligned s - 1) div bs * bs = sw_aligned s - bs"
      by (rule div_block(1)) (use d le in \<open>auto intro: dvd_diff_nat\<close>)
    then show ?thesis using assms(1) e le by (simp add: flight_ok_def)
  qed simp
  have "f_pos f \<le> length acc" using assms(1) by (simp add: flight_ok_def)
  then show ?thesis using assms(1) full by (auto simp: flight_ok_def good_append)
qed

lemma fs_ok_append:
  assumes "sw_ok file acc s"
  shows "fs_ok (sw_buffer_size s) (good file (acc @ xs)) (sw_flush s)"
  by (rule fs_ok_mono [where P = "good file acc"]) (use assms in \<open>auto simp: sw_ok_def pos_ok_def good_append\<close>)

lemma flights_ok_append:
  assumes "sw_ok file acc s" "full_flights s"
  shows "flights_ok file (acc @ xs) s"
  using assms flight_ok_append [where acc = acc and s = s and xs = xs] by (auto simp: sw_ok_def flights_ok_def full_flights_def list_all_iff)

lemma write_fits:
  assumes "sw_ok file acc s" "full_flights s" "sw_buffer s = Some b" "sw_pos s + length xs < sw_buffer_size s"
    and "b' = take (sw_pos s) b @ xs @ drop (sw_pos s + length xs) b"
  shows "sw_ok file (acc @ xs) (s\<lparr>sw_buffer := Some b', sw_pos := sw_pos s + length xs\<rparr>)"
proof -
  have b: "length b = sw_buffer_size s" "take (sw_pos s) b = drop (sw_aligned s) acc" "length acc = sw_aligned s + sw_pos s"
    using assms by (auto simp: sw_ok_def buffer_ok_def pos_ok_def)
  have "pos_ok file (acc @ xs) (s\<lparr>sw_buffer := Some b', sw_pos := sw_pos s + length xs\<rparr>)"
    using assms by (auto simp: sw_ok_def pos_ok_def)
  moreover have "buffer_ok (acc @ xs) (s\<lparr>sw_buffer := Some b', sw_pos := sw_pos s + length xs\<rparr>)"
    using b assms(4,5) by (auto simp: buffer_ok_def min_def)
  moreover have "flights_ok file (acc @ xs) (s\<lparr>sw_buffer := Some b', sw_pos := sw_pos s + length xs\<rparr>)"
    using flights_ok_append [OF assms(1,2), of xs] by (simp add: flights_ok_def)
  ultimately show ?thesis using fs_ok_append [OF assms(1)] by (simp add: sw_ok_def)
qed

lemma write_fills:
  assumes "sw_ok file acc s" "full_flights s" "sw_buffer s = Some b" "sw_pos s + length xs = sw_buffer_size s"
    and "b' = take (sw_pos s) b @ xs"
  shows "\<exists>s2. flush_one_buffer b' (s\<lparr>sw_buffer := None, sw_pos := sw_pos s + length xs\<rparr>) = Some s2 \<and>
    sw_ok file (acc @ xs) (s2\<lparr>sw_aligned := sw_aligned s2 + sw_buffer_size s2, sw_pos := 0\<rparr>) \<and>
    full_flights (s2\<lparr>sw_aligned := sw_aligned s2 + sw_buffer_size s2, sw_pos := 0\<rparr>) \<and> same_frame s s2"
proof -
  let ?s = "s\<lparr>sw_buffer := None, sw_pos := sw_pos s + length xs\<rparr>"
  have b: "length b = sw_buffer_size s" "take (sw_pos s) b = drop (sw_aligned s) acc" "length acc = sw_aligned s + sw_pos s"
    "0 < sw_buffer_size s" "sw_pos s < sw_buffer_size s" "sw_buffer_size s dvd sw_aligned s" "sw_aligned s \<le> last_flush_pos (sw_flush s)"
    "last_flush_pos (sw_flush s) \<le> length acc"
    "length file \<le> sw_aligned s + sw_buffer_size s"
    using assms by (auto simp: sw_ok_def buffer_ok_def pos_ok_def split: if_splits)
  have fl: "flights_ok file (acc @ xs) ?s" using flights_ok_append [OF assms(1,2), of xs] by (simp add: flights_ok_def)
  obtain f g where f: "flush_one_buffer b' ?s = Some (?s\<lparr>sw_flush := f, sw_next_task := sw_next_task ?s + 1, sw_flights := sw_flights ?s @ [g]\<rparr>)"
      "fs_ok (sw_buffer_size ?s) (good file (acc @ xs)) f"
      "flights_ok file (acc @ xs) (?s\<lparr>sw_flush := f, sw_next_task := sw_next_task ?s + 1, sw_flights := sw_flights ?s @ [g]\<rparr>)"
      "last_flush_pos f = sw_current ?s" "f_pos g = sw_current ?s" "fl_flushed f = fl_flushed (sw_flush ?s)"
    using flush_one_ok [of ?s "acc @ xs" "file" b'] fs_ok_append [OF assms(1), of xs] fl b assms(4,5) by (auto simp: sw_current_def)
  let ?s2 = "?s\<lparr>sw_flush := f, sw_next_task := sw_next_task ?s + 1, sw_flights := sw_flights ?s @ [g]\<rparr>"
  let ?s3 = "?s2\<lparr>sw_aligned := sw_aligned ?s2 + sw_buffer_size ?s2, sw_pos := 0\<rparr>"
  have "pos_ok file (acc @ xs) ?s3" using b f(4) assms(4) by (auto simp: pos_ok_def sw_current_def)
  moreover have "flights_ok file (acc @ xs) ?s3" using f(3) by (simp add: flights_ok_def)
  ultimately have "sw_ok file (acc @ xs) ?s3" using f(2) by (simp add: sw_ok_def buffer_ok_def)
  moreover have "full_flights ?s3" using assms(2,4) f(5) by (auto simp: full_flights_def list_all_iff sw_current_def)
  moreover have "same_frame s ?s2" using f(6) by (simp add: same_frame_def sw_flushed_def)
  ultimately show ?thesis using f(1) by blast
qed

lemma alloc_ok:
  assumes "sw_ok file acc s" "sw_buffer s = None" "sw_status s = FileOpen" "length (alloc (sw_buffer_size s)) = sw_buffer_size s"
  shows "sw_ok file acc (s\<lparr>sw_buffer := Some (alloc (sw_buffer_size s))\<rparr>)"
  using assms by (auto simp: sw_ok_def pos_ok_def buffer_ok_def flights_ok_def)

lemma slice_write_eq:
  assumes "off \<le> length dst"
  shows "slice_write_at dst off src = (let n = min (length src) (length dst - off) in (n, take off dst @ take n src @ drop (off + n) dst))"
  using assms by (simp add: slice_write_at_def)

text \<open>The loop ends; it accepts a prefix, and not an empty one when there is room.\<close>

definition wrote :: "u8 list \<Rightarrow> u8 list \<Rightarrow> u8 list \<Rightarrow> writer \<Rightarrow> u8 list \<times> writer \<Rightarrow> bool" where
  "wrote file acc buf s r \<longleftrightarrow> (case r of (rest, s') \<Rightarrow> \<exists>n \<le> length buf. rest = drop n buf \<and> sw_ok file (acc @ take n buf) s' \<and> full_flights s' \<and> same_frame s s' \<and>
     (buf \<noteq> [] \<and> (sw_buffer s \<noteq> None \<or> fl_pending (sw_flush s) < sw_write_behind s) \<longrightarrow> 0 < n))"

lemma wrote_later:
  assumes "wrote file (acc @ take n buf) (drop n buf) s1 r" "0 < n" "n \<le> length buf" "same_frame s s1"
  shows "wrote file acc buf s r"
proof -
  obtain rest s' m where r: "r = (rest, s')" "m \<le> length buf - n" "rest = drop m (drop n buf)" "sw_ok file ((acc @ take n buf) @ take m (drop n buf)) s'"
      "full_flights s'" "same_frame s1 s'"
    using assms(1) by (auto simp: wrote_def split: prod.splits)
  have "take (n + m) buf = take n buf @ take m (drop n buf)" by (rule take_add)
  then show ?thesis using r assms(2-4) same_frame_trans [OF assms(4) r(6)]
    by (auto simp: wrote_def add.commute intro!: exI [of _ "n + m"])
qed

text \<open>One round of the loop with a buffer at hand.\<close>

lemma write_loop_put:
  assumes "sw_ok file acc s" "full_flights s" "sw_buffer s = Some b" "buf \<noteq> []"
  shows "\<exists>n s1. 0 < n \<and> n \<le> length buf \<and> write_loop alloc buf s = write_loop alloc (drop n buf) s1 \<and>
    sw_ok file (acc @ take n buf) s1 \<and> full_flights s1 \<and> same_frame s s1"
proof -
  have bp: "length b = sw_buffer_size s" "sw_pos s < sw_buffer_size s" using assms by (auto simp: sw_ok_def buffer_ok_def pos_ok_def)
  define n where "n = min (length buf) (sw_buffer_size s - sw_pos s)"
  have n: "0 < n" "n \<le> length buf" "length (take n buf) = n" using assms(4) bp by (auto simp: n_def)
  define b' where "b' = take (sw_pos s) b @ take n buf @ drop (sw_pos s + n) b"
  have sl: "slice_write_at b (sw_pos s) buf = (n, b')" using bp slice_write_eq [of "sw_pos s" b buf] by (simp add: n_def b'_def Let_def)
  show ?thesis
  proof (cases "sw_pos s + n = sw_buffer_size s")
    case True
    have b': "b' = take (sw_pos s) b @ take n buf" using True bp by (simp add: b'_def)
    obtain s2 where s2: "flush_one_buffer b' (s\<lparr>sw_buffer := None, sw_pos := sw_pos s + n\<rparr>) = Some s2"
        "sw_ok file (acc @ take n buf) (s2\<lparr>sw_aligned := sw_aligned s2 + sw_buffer_size s2, sw_pos := 0\<rparr>)"
        "full_flights (s2\<lparr>sw_aligned := sw_aligned s2 + sw_buffer_size s2, sw_pos := 0\<rparr>)" "same_frame s s2"
      using write_fills [OF assms(1-3) _ b'] True n by auto
    let ?s = "s2\<lparr>sw_aligned := sw_aligned s2 + sw_buffer_size s2, sw_pos := 0\<rparr>"
    have "same_frame s ?s" using s2(4) by (simp add: same_frame_def sw_flushed_def)
    moreover have "write_loop alloc buf s = write_loop alloc (drop n buf) ?s"
      using assms(3,4) sl s2(1) True by (simp add: write_loop.simps [of alloc buf s])
    ultimately show ?thesis using n s2(2,3) by blast
  next
    case False
    then have lt: "sw_pos s + n < sw_buffer_size s" using bp(2) unfolding n_def by linarith
    let ?s = "s\<lparr>sw_buffer := Some b', sw_pos := sw_pos s + n\<rparr>"
    have ok: "sw_ok file (acc @ take n buf) ?s" using write_fits [OF assms(1-3), of "take n buf" b'] lt n by (simp add: b'_def)
    have fr: "full_flights ?s" "same_frame s ?s" using assms(2) by (auto simp: full_flights_def same_frame_def sw_flushed_def)
    have eq: "s\<lparr>sw_pos := sw_pos s + n, sw_buffer := Some b'\<rparr> = ?s" by (cases s) simp
    have "write_loop alloc buf s = write_loop alloc (drop n buf) ?s"
      using assms(3,4) sl False unfolding eq [symmetric] by (simp add: write_loop.simps [of alloc buf s])
    then show ?thesis using n ok fr by blast
  qed
qed

lemma write_loop_ok:
  assumes "\<And>n. length (alloc n) = n" "sw_ok file acc s" "full_flights s" "sw_status s = FileOpen"
  shows "\<exists>r. write_loop alloc buf s = Some r \<and> wrote file acc buf s r"
  using assms(2-4)
proof (induction "2 * length buf + (if sw_buffer s = None then 1 else 0)" arbitrary: buf s acc rule: less_induct)
  case less
  consider (stop) "buf = [] \<or> sw_buffer s = None \<and> \<not> fl_pending (sw_flush s) < sw_write_behind s"
    | (alloc) "buf \<noteq> []" "sw_buffer s = None" "fl_pending (sw_flush s) < sw_write_behind s" | (put) b where "buf \<noteq> []" "sw_buffer s = Some b" by (cases "sw_buffer s") auto
  then show ?case
  proof cases
    case stop
    then have "write_loop alloc buf s = Some (buf, s)" by (subst write_loop.simps) auto
    then show ?thesis using less.prems stop by (intro exI [of _ "(buf, s)"] conjI) (auto simp: wrote_def same_frame_def intro!: exI [of _ 0])
  next
    case alloc
    let ?s = "s\<lparr>sw_buffer := Some (alloc (sw_buffer_size s))\<rparr>"
    have "full_flights ?s" using less.prems by (simp add: full_flights_def)
    then obtain r where r: "write_loop alloc buf ?s = Some r" "wrote file acc buf ?s r"
      using less.hyps [of buf ?s acc] alloc alloc_ok [OF less.prems(1) alloc(2) less.prems(3), of alloc] assms(1) less.prems by auto
    then show ?thesis using alloc by (auto simp: write_loop.simps [of alloc buf s] wrote_def same_frame_def sw_flushed_def split: prod.splits)
  next
    case put
    obtain n s1 where n: "0 < n" "n \<le> length buf" "write_loop alloc buf s = write_loop alloc (drop n buf) s1"
        "sw_ok file (acc @ take n buf) s1" "full_flights s1" "same_frame s s1"
      using write_loop_put [OF less.prems(1,2) put(2,1)] by blast
    have m: "2 * length (drop n buf) + (if sw_buffer s1 = None then 1 else 0) < 2 * length buf + (if sw_buffer s = None then 1 else 0)"
      using n(1,2) put(2) by (simp split: if_splits) linarith
    have "sw_status s1 = FileOpen" using n(6) less.prems(3) by (simp add: same_frame_def)
    then obtain r where "write_loop alloc (drop n buf) s1 = Some r" "wrote file (acc @ take n buf) (drop n buf) s1 r"
      using less.hyps [OF m n(4,5)] by blast
    then show ?thesis using wrote_later [OF _ n(1,2,6)] n(3) by auto
  qed
qed

subsection \<open>The other operations keep the invariant\<close>

lemma sw_ok_frame [simp]:
  "sw_ok file acc (s\<lparr>sw_waker := wk\<rparr>) = sw_ok file acc s" "sw_ok file acc (s\<lparr>sw_error := e\<rparr>) = sw_ok file acc s"
  "sw_ok file acc (s\<lparr>sw_synced := p\<rparr>) = sw_ok file acc s" "sw_ok file acc (s\<lparr>sw_wakes := ws\<rparr>) = sw_ok file acc s"
  by (simp_all add: sw_ok_def pos_ok_def buffer_ok_def flights_ok_def)

lemma sw_ok_status: "sw_ok file acc s \<Longrightarrow> x \<noteq> FileOpen \<or> sw_status s = FileOpen \<Longrightarrow> sw_ok file acc (s\<lparr>sw_status := x\<rparr>)"
  by (auto simp: sw_ok_def pos_ok_def buffer_ok_def flights_ok_def)

lemma sw_ok_wake [simp]: "sw_ok file acc (wake_writer s) = sw_ok file acc s"
  by (simp add: wake_writer_def split: option.splits)

lemma wake_writer_frame [simp]:
  "sw_buffer_size (wake_writer s) = sw_buffer_size s" "sw_status (wake_writer s) = sw_status s" "sw_error (wake_writer s) = sw_error s"
  "sw_flush (wake_writer s) = sw_flush s" "sw_flights (wake_writer s) = sw_flights s" "sw_synced (wake_writer s) = sw_synced s"
  "sw_aligned (wake_writer s) = sw_aligned s" "sw_pos (wake_writer s) = sw_pos s"
  by (simp_all add: wake_writer_def split: option.splits)

lemma poll_write_ok:
  assumes "\<And>n. length (alloc n) = n" "sw_ok file acc s" "full_flights s" "sw_status s = FileOpen"
  shows "\<exists>r s'. poll_write alloc wk buf s = Some (r, s') \<and> sw_ok file (acc @ (case r of Ready (Inr n) \<Rightarrow> take n buf | _ \<Rightarrow> [])) s' \<and>
    sw_status s' = FileOpen \<and> sw_flushed s' = sw_flushed s \<and> sw_synced s' = sw_synced s"
proof -
  let ?s = "s\<lparr>sw_waker := None\<rparr>"
  have "full_flights ?s" using assms(3) by (simp add: full_flights_def)
  then obtain rest s2 n where w: "write_loop alloc buf ?s = Some (rest, s2)" "n \<le> length buf" "rest = drop n buf"
      "sw_ok file (acc @ take n buf) s2" "same_frame ?s s2"
    using write_loop_ok [OF assms(1), of "file" acc ?s buf] assms(2,4) by (auto simp: wrote_def)
  have "length buf - length rest = n" using w by simp
  then show ?thesis using w(1,4,5) assms(2,4)
    by (cases "n = 0") (auto simp: poll_write_def Let_def same_frame_def sw_flushed_def simp del: length_0_conv)
qed

text \<open>After a padded flush, the writer has flushed, or is flushing, all that was accepted.\<close>

lemma flush_padded_ok:
  assumes "\<And>n. length (alloc n) = n" "sw_ok file acc s"
  shows "\<exists>b s'. flush_padded alloc s = Some (b, s') \<and> sw_ok file acc s' \<and> same_frame s s' \<and> last_flush_pos (sw_flush s') = sw_current s \<and>
    sw_aligned s' = sw_aligned s \<and> sw_pos s' = sw_pos s"
proof (cases "sw_pos s = 0 \<or> last_flush_pos (sw_flush s) = sw_current s")
  case True
  have "last_flush_pos (sw_flush s) = sw_current s" using True assms(2) by (auto simp: sw_ok_def pos_ok_def sw_current_def)
  then show ?thesis using True assms(2) by (auto simp: flush_padded_def same_frame_def sw_ok_def pos_ok_def)
next
  case False
  have po: "pos_ok file acc s" "length acc = sw_current s" using assms(2) by (auto simp: sw_ok_def pos_ok_def sw_current_def)
  then have lt: "last_flush_pos (sw_flush s) < sw_current s" "0 < sw_pos s" "sw_pos s < sw_buffer_size s" "sw_aligned s \<le> last_flush_pos (sw_flush s)"
      "sw_buffer_size s dvd sw_aligned s"
    using False by (auto simp: pos_ok_def)
  then obtain b where b: "sw_buffer s = Some b" "length b = sw_buffer_size s" "take (sw_pos s) b = drop (sw_aligned s) acc"
    using assms(2) po(2) by (cases "sw_buffer s") (auto simp: sw_ok_def buffer_ok_def)
  define data where "data = take (sw_pos s) b @ replicate (length b - sw_pos s) 0"
  define bf where "bf = (if sw_status s = FileOpen then Some (take (sw_pos s) data @ drop (sw_pos s) (alloc (sw_buffer_size s))) else None)"
  let ?s = "s\<lparr>sw_buffer := bf\<rparr>"
  have d: "length data = sw_buffer_size s" "take (sw_pos s) data = drop (sw_aligned s) acc" using b lt po(2) by (auto simp: data_def sw_current_def)
  have fl: "flights_ok file acc ?s" using assms(2) by (simp add: sw_ok_def flights_ok_def)
  obtain f g where f: "flush_one_buffer data ?s = Some (?s\<lparr>sw_flush := f, sw_next_task := sw_next_task ?s + 1, sw_flights := sw_flights ?s @ [g]\<rparr>)"
      "fs_ok (sw_buffer_size ?s) (good file acc) f"
      "flights_ok file acc (?s\<lparr>sw_flush := f, sw_next_task := sw_next_task ?s + 1, sw_flights := sw_flights ?s @ [g]\<rparr>)"
      "last_flush_pos f = sw_current ?s" "fl_flushed f = fl_flushed (sw_flush ?s)"
    using flush_one_ok [of ?s acc "file" data] fl d lt po assms(2) by (auto simp: sw_current_def sw_ok_def)
  let ?s2 = "?s\<lparr>sw_flush := f, sw_next_task := sw_next_task ?s + 1, sw_flights := sw_flights ?s @ [g]\<rparr>"
  have "pos_ok file acc ?s2" using po lt f(4) by (auto simp: pos_ok_def sw_current_def split: if_splits)
  moreover have "buffer_ok acc ?s2" using d lt po f(4) assms(1) by (auto simp: buffer_ok_def bf_def sw_current_def)
  ultimately have "sw_ok file acc ?s2" using f(2,3) by (simp add: sw_ok_def)
  moreover have "flush_padded alloc s = Some (True, ?s2)"
    using lt b(1) f(1) by (auto simp: flush_padded_def data_def bf_def Let_def)
  ultimately show ?thesis using f(4,5) by (intro exI [of _ True] exI [of _ ?s2]) (simp add: same_frame_def sw_flushed_def sw_current_def)
qed

lemma take_handles_writer:
  assumes "sw_ok file acc s" "take_pending_handles (sw_flush s) = (hs, f)"
  shows "sw_ok file acc (s\<lparr>sw_flush := f\<rparr>)"
  using assms take_pending_ok [OF _ assms(2), of "sw_buffer_size s" "good file acc"]
  by (auto simp: sw_ok_def pos_ok_def buffer_ok_def flights_ok_def)

lemma length_file_write: "length (file_write p xs file) = (if xs = [] then length file else max (length file) (p + length xs))"
  by (auto simp: file_write_def max_def)

lemma nth_file_write:
  assumes "i < length (file_write p xs file)" "xs \<noteq> []"
  shows "file_write p xs file ! i = (if p \<le> i \<and> i < p + length xs then xs ! (i - p) else if i < length file then file ! i else 0)"
  using assms by (auto simp: file_write_def nth_append min_def not_less max_def split: if_splits)

lemma good_file_write:
  assumes "\<And>k. k < length xs \<Longrightarrow> p + k < length acc \<Longrightarrow> xs ! k = acc ! (p + k)" "i < length acc" "good file acc i \<or> p \<le> i \<and> i < p + length xs"
  shows "good (file_write p xs file) acc i"
proof (cases "xs = []")
  case False
  have l: "i < length (file_write p xs file)" using assms(3) False by (auto simp: length_file_write good_def)
  have "xs ! (i - p) = acc ! i" if "p \<le> i" "i < p + length xs" using assms(1) [of "i - p"] assms(2) that by simp
  then show ?thesis using assms(3) l nth_file_write [OF l False] by (auto simp: good_def)
qed (use assms in \<open>auto simp: file_write_def\<close>)

lemma flight_matches:
  assumes "flight_ok bs file acc f" "k < length (f_data f)" "f_at f + k < length acc"
  shows "f_data f ! k = acc ! (f_at f + k)"
proof -
  have "f_pos f = f_at f + length (f_data f) \<or> f_pos f = length acc"
    and t: "take (f_pos f - f_at f) (f_data f) = take (f_pos f - f_at f) (drop (f_at f) acc)"
    using assms(1) unfolding flight_ok_def by blast+
  then have k: "k < f_pos f - f_at f" using assms(2,3) by linarith
  show ?thesis using arg_cong [OF t, of "\<lambda>xs. xs ! k"] k assms(3) by simp
qed

lemma flight_span:
  assumes "sw_ok file acc s" "f \<in> set (sw_flights s)"
  shows "f_at f + sw_buffer_size s \<le> sw_aligned s + (if sw_aligned s < last_flush_pos (sw_flush s) then sw_buffer_size s else 0)"
proof -
  let ?bs = "sw_buffer_size s"
  have f: "f_at f = (f_pos f - 1) div ?bs * ?bs" "0 < f_pos f" "f_pos f \<le> length acc" "f_pos f \<in> set (pendings (sw_flush s))"
    using assms by (auto simp: sw_ok_def flights_ok_def flight_ok_def)
  have p: "0 < ?bs" "?bs dvd sw_aligned s" "length acc < sw_aligned s + ?bs" using assms(1) by (auto simp: sw_ok_def pos_ok_def)
  have c: "flush_chain ?bs (good file acc) (fl_flushed (sw_flush s)) (fl_flushes (sw_flush s))" using assms(1) by (simp add: sw_ok_def fs_ok_def)
  have "f_pos f \<in> set (map fst (fl_flushes (sw_flush s)))" using f(4) by (auto simp: pendings_def)
  then have l: "f_pos f \<le> last_flush_pos (sw_flush s)"
    using flush_chain_sorted [OF c] unfolding last_flush_pos_alt
    by (cases "fl_flushes (sw_flush s)" rule: rev_cases) (auto simp: sorted_wrt_append less_imp_le)
  obtain k where k: "sw_aligned s = k * ?bs" using p(2) by (metis dvd_def mult.commute)
  show ?thesis
  proof (cases "f_pos f \<le> sw_aligned s")
    case True
    then have "(f_pos f - 1) div ?bs < k" using f(2) p(1) k by (simp add: div_less_iff_less_mult)
    then have "((f_pos f - 1) div ?bs + 1) * ?bs \<le> k * ?bs" by (intro mult_le_mono1) simp
    then show ?thesis using f(1) k by simp
  next
    case False
    then have "(f_pos f - 1) div ?bs * ?bs = sw_aligned s" using f(2,3) p by (intro div_block(1)) auto
    then show ?thesis using False f(1) l by simp
  qed
qed

lemma flight_ok_mono:
  assumes "flight_ok bs file acc f" "\<And>i. i < length acc \<Longrightarrow> good file acc i \<Longrightarrow> good file' acc i"
  shows "flight_ok bs file' acc f"
proof -
  have "f_pos f \<le> length acc" "f_landed f \<longrightarrow> (\<forall>i. f_at f \<le> i \<and> i < f_pos f \<longrightarrow> good file acc i)"
    using assms(1) unfolding flight_ok_def by blast+
  then have "f_landed f \<longrightarrow> (\<forall>i. f_at f \<le> i \<and> i < f_pos f \<longrightarrow> good file' acc i)" using assms(2) by auto
  then show ?thesis using assms(1) unfolding flight_ok_def by blast
qed

lemma sw_ok_mono:
  assumes "sw_ok file acc s" "\<And>i. i < length acc \<Longrightarrow> good file acc i \<Longrightarrow> good file' acc i"
    and "length file' \<le> sw_aligned s + (if sw_aligned s < last_flush_pos (sw_flush s) then sw_buffer_size s else 0)"
  shows "sw_ok file' acc s"
proof -
  have "pos_ok file' acc s" using assms(1,3) by (simp add: sw_ok_def pos_ok_def)
  moreover have "fs_ok (sw_buffer_size s) (good file' acc) (sw_flush s)"
    by (rule fs_ok_mono [where P = "good file acc"]) (use assms(1,2) in \<open>auto simp: sw_ok_def pos_ok_def\<close>)
  moreover have "flights_ok file' acc s"
    using assms(1) flight_ok_mono [of "sw_buffer_size s" "file" acc _ file'] assms(2) by (auto simp: sw_ok_def flights_ok_def)
  ultimately show ?thesis using assms(1) by (simp add: sw_ok_def)
qed

text \<open>A write in flight, or its first bytes, reaches the file.\<close>

lemma land_ok:
  assumes "sw_ok file acc s" "f \<in> set (sw_flights s)"
  shows "sw_ok (file_write (f_at f) (take n (f_data f)) file) acc s"
proof (rule sw_ok_mono [OF assms(1)])
  let ?file = "file_write (f_at f) (take n (f_data f)) file"
  have fk: "flight_ok (sw_buffer_size s) file acc f" using assms by (auto simp: sw_ok_def flights_ok_def)
  show "good ?file acc i" if "i < length acc" "good file acc i" for i
    by (rule good_file_write) (use flight_matches [OF fk] that in auto)
  show "length ?file \<le> sw_aligned s + (if sw_aligned s < last_flush_pos (sw_flush s) then sw_buffer_size s else 0)"
    using flight_span [OF assms] assms(1) fk by (auto simp: sw_ok_def pos_ok_def length_file_write flight_ok_def min_def split: if_splits)
qed

lemma remove_at_split: "i < length xs \<Longrightarrow> \<exists>ys zs. xs = ys @ (xs ! i) # zs \<and> remove_at i xs = ys @ zs"
  using id_take_nth_drop [of i xs] by (auto simp: remove_at_def)

lemma set_remove_at: "set (remove_at i xs) \<subseteq> set xs"
  by (auto simp: remove_at_def dest: in_set_takeD in_set_dropD)

lemma flights_ok_remove:
  assumes "flights_ok file acc s" "i < length (sw_flights s)"
  shows "flights_ok file acc (s\<lparr>sw_flights := remove_at i (sw_flights s)\<rparr>)"
    and "f_pos (sw_flights s ! i) \<notin> f_pos ` set (remove_at i (sw_flights s))"
    and "f_task (sw_flights s ! i) \<notin> f_task ` set (remove_at i (sw_flights s))"
proof -
  obtain ys zs where e: "sw_flights s = ys @ (sw_flights s ! i) # zs" "remove_at i (sw_flights s) = ys @ zs" using remove_at_split [OF assms(2)] by blast
  have d: "distinct (map f_pos (ys @ (sw_flights s ! i) # zs))" "distinct (map f_task (ys @ (sw_flights s ! i) # zs))"
    using assms(1) e(1) by (auto simp: flights_ok_def simp del: map_append)
  show "f_pos (sw_flights s ! i) \<notin> f_pos ` set (remove_at i (sw_flights s))" "f_task (sw_flights s ! i) \<notin> f_task ` set (remove_at i (sw_flights s))"
    using d unfolding e(2) by auto
  have "distinct (map f_pos (remove_at i (sw_flights s)))" "distinct (map f_task (remove_at i (sw_flights s)))" using d unfolding e(2) by auto
  then show "flights_ok file acc (s\<lparr>sw_flights := remove_at i (sw_flights s)\<rparr>)"
    using assms(1) set_remove_at [of i "sw_flights s"] by (auto simp: flights_ok_def)
qed

lemma sw_ok_remove: "sw_ok file acc s \<Longrightarrow> i < length (sw_flights s) \<Longrightarrow> sw_ok file acc (s\<lparr>sw_flights := remove_at i (sw_flights s)\<rparr>)"
  using flights_ok_remove(1) by (auto simp: sw_ok_def pos_ok_def buffer_ok_def)

lemma pos_buffer_flights: "pos_ok file acc (s\<lparr>sw_flights := fs\<rparr>) = pos_ok file acc s" "buffer_ok acc (s\<lparr>sw_flights := fs\<rparr>) = buffer_ok acc s"
  by (simp_all add: pos_ok_def buffer_ok_def)

lemma flights_ok_map:
  "flights_ok file acc s \<longleftrightarrow> (\<forall>f \<in> set (sw_flights s). flight_ok (sw_buffer_size s) file acc f) \<and>
     set (map f_pos (sw_flights s)) \<subseteq> set (pendings (sw_flush s)) \<and> distinct (map f_pos (sw_flights s)) \<and>
     distinct (map f_task (sw_flights s)) \<and> (\<forall>t \<in> set (map f_task (sw_flights s)). t < sw_next_task s)"
  by (simp add: flights_ok_def)

lemma flight_ok_landed:
  assumes "flight_ok bs file acc f" "\<And>j. f_at f \<le> j \<Longrightarrow> j < f_pos f \<Longrightarrow> good file acc j"
  shows "flight_ok bs file acc (f\<lparr>f_landed := True\<rparr>)"
proof -
  let ?f = "f\<lparr>f_landed := True\<rparr>"
  have e: "f_at ?f = f_at f" "f_data ?f = f_data f" "f_pos ?f = f_pos f" by simp_all
  show ?thesis using assms(1) unfolding flight_ok_def e by (intro conjI impI allI) (elim conjE, assumption | use assms(2) in blast)+
qed

lemma land_mark_ok:
  assumes "sw_ok file acc s" "i < length (sw_flights s)" "f = sw_flights s ! i"
  shows "sw_ok (file_write (f_at f) (f_data f) file) acc (s\<lparr>sw_flights := (sw_flights s)[i := f\<lparr>f_landed := True\<rparr>]\<rparr>)"
proof -
  let ?file = "file_write (f_at f) (f_data f) file"
  have m: "f \<in> set (sw_flights s)" using assms(2,3) by simp
  have fk: "flight_ok (sw_buffer_size s) file acc f" using assms(1) m by (auto simp: sw_ok_def flights_ok_def)
  have ok: "sw_ok ?file acc s" using land_ok [OF assms(1) m, of "length (f_data f)"] by simp
  then have "flight_ok (sw_buffer_size s) ?file acc f" using m by (auto simp: sw_ok_def flights_ok_def)
  moreover have "good ?file acc j" if "f_at f \<le> j" "j < f_pos f" for j
  proof (rule good_file_write)
    have "f_pos f \<le> length acc" "length (f_data f) = sw_buffer_size s" "f_at f = (f_pos f - 1) div sw_buffer_size s * sw_buffer_size s"
      using fk unfolding flight_ok_def by blast+
    moreover have "0 < sw_buffer_size s" using assms(1) by (simp add: sw_ok_def pos_ok_def)
    ultimately show "j < length acc" "good file acc j \<or> f_at f \<le> j \<and> j < f_at f + length (f_data f)"
      using that dividend_less_div_times [of "sw_buffer_size s" "f_pos f - 1"] by auto
  qed (use flight_matches [OF fk] in auto)
  ultimately have "flight_ok (sw_buffer_size s) ?file acc (f\<lparr>f_landed := True\<rparr>)"
    using flight_ok_landed by blast
  then have "\<forall>h \<in> set ((sw_flights s)[i := f\<lparr>f_landed := True\<rparr>]). flight_ok (sw_buffer_size s) ?file acc h"
    using ok set_update_subset_insert [of "sw_flights s" i "f\<lparr>f_landed := True\<rparr>"] by (auto simp: sw_ok_def flights_ok_def)
  moreover have "map f_pos ((sw_flights s)[i := f\<lparr>f_landed := True\<rparr>]) = map f_pos (sw_flights s)"
      "map f_task ((sw_flights s)[i := f\<lparr>f_landed := True\<rparr>]) = map f_task (sw_flights s)"
    using assms(2,3) by (simp_all add: map_update list_update_same_conv)
  ultimately have "flights_ok ?file acc (s\<lparr>sw_flights := (sw_flights s)[i := f\<lparr>f_landed := True\<rparr>]\<rparr>)"
    using ok by (simp add: sw_ok_def flights_ok_map del: set_map map_eq_conv)
  then show ?thesis using ok by (simp add: sw_ok_def pos_buffer_flights)
qed

lemma flush_task_done_ok:
  assumes "sw_ok file acc s" "i < length (sw_flights s)" "f = sw_flights s ! i" "f_landed f"
  shows "\<exists>s'. flush_task_end (Inr n) (f_pos f) (s\<lparr>sw_flights := remove_at i (sw_flights s)\<rparr>) = Some s' \<and> sw_ok file acc s' \<and>
    sw_flushed s \<le> sw_flushed s' \<and> sw_status s' = sw_status s \<and> sw_synced s' = sw_synced s \<and> sw_error s' = sw_error s \<and>
    (sw_status s \<noteq> FileOpen \<longrightarrow> sw_waker s' = sw_waker s)"
proof -
  let ?bs = "sw_buffer_size s" and ?fs = "remove_at i (sw_flights s)"
  have m: "f \<in> set (sw_flights s)" using assms(2,3) by simp
  have fk: "flight_ok ?bs file acc f" "f_pos f \<in> set (pendings (sw_flush s))" using assms(1) m by (auto simp: sw_ok_def flights_ok_def)
  then have "f_at f = (f_pos f - 1) div ?bs * ?bs" "\<forall>j. f_at f \<le> j \<and> j < f_pos f \<longrightarrow> good file acc j"
    using assms(4) unfolding flight_ok_def by blast+
  then have g: "good file acc j" if "(f_pos f - 1) div ?bs * ?bs \<le> j" "j < f_pos f" for j using that by simp
  have fs: "fs_ok ?bs (good file acc) (sw_flush s)" "flights_ok file acc s" using assms(1) by (simp_all add: sw_ok_def)
  obtain f' where f': "on_complete (f_pos f) (sw_flush s) = Some f'" "fs_ok ?bs (good file acc) f'" "pendings f' = filter (\<lambda>p. p \<noteq> f_pos f) (pendings (sw_flush s))"
      "fl_flushed (sw_flush s) \<le> fl_flushed f'" "last_flush_pos f' = last_flush_pos (sw_flush s)"
    using on_complete_ok [OF fs(1) fk(2)] g by blast
  let ?s = "s\<lparr>sw_flights := ?fs, sw_flush := f'\<rparr>"
  have "f_pos ` set ?fs \<subseteq> set (pendings (sw_flush s)) - {f_pos f}"
    using flights_ok_remove(1,2) [OF fs(2) assms(2)] assms(3) unfolding flights_ok_def by simp blast
  moreover have "set (pendings f') = set (pendings (sw_flush s)) - {f_pos f}" using f'(3) by auto
  ultimately have "flights_ok file acc ?s" using flights_ok_remove(1) [OF fs(2) assms(2)] by (simp add: flights_ok_def)
  moreover have "pos_ok file acc ?s = pos_ok file acc s" "buffer_ok acc ?s = buffer_ok acc s" using f'(5) by (simp_all add: pos_ok_def buffer_ok_def)
  ultimately have "sw_ok file acc ?s" using assms(1) f'(2) by (simp add: sw_ok_def)
  then show ?thesis using f'(1,4) by (auto simp: flush_task_end_def sw_flushed_def)
qed

lemma flush_task_fail_ok:
  assumes "sw_ok file acc s" "i < length (sw_flights s)" "f = sw_flights s ! i"
  shows "\<exists>s'. flush_task_end (Inl ()) (f_pos f) (s\<lparr>sw_flights := remove_at i (sw_flights s)\<rparr>) = Some s' \<and>
    sw_ok (file_write (f_at f) (take n (f_data f)) file) acc s' \<and> sw_flushed s' = sw_flushed s \<and> sw_status s' = sw_status s \<and>
    sw_synced s' = sw_synced s \<and> (sw_status s \<noteq> FileOpen \<longrightarrow> sw_waker s' = sw_waker s)"
proof -
  have "f \<in> set (sw_flights s)" using assms(2,3) by simp
  then have "sw_ok (file_write (f_at f) (take n (f_data f)) file) acc (s\<lparr>sw_flights := remove_at i (sw_flights s)\<rparr>)"
    using sw_ok_remove [OF land_ok [OF assms(1)] assms(2)] by blast
  then show ?thesis by (auto simp: flush_task_end_def sw_flushed_def)
qed

lemma poll_flush_ok:
  assumes "\<And>n. length (alloc n) = n" "sw_ok file acc s"
  shows "\<exists>r s'. poll_flush alloc wk s = Some (r, s') \<and> sw_ok file acc s' \<and> sw_flushed s' = sw_flushed s \<and> sw_status s' = sw_status s \<and> sw_synced s' = sw_synced s"
  using assms flush_padded_ok [OF assms(1), of "file" acc "s\<lparr>sw_waker := Some wk\<rparr>"]
  by (auto simp: poll_flush_def Let_def same_frame_def sw_flushed_def)

lemma flush_inner_start_ok:
  assumes "\<And>n. length (alloc n) = n" "sw_ok file acc s"
  shows "\<exists>c s'. flush_inner_start alloc partial s = Some (c, s') \<and> sw_ok file acc s' \<and> sw_flushed s' = sw_flushed s \<and> sw_status s' = sw_status s \<and>
    sw_synced s' = sw_synced s \<and> fst c \<le> last_flush_pos (sw_flush s')"
proof -
  have t: "\<exists>hs f. take_pending_handles (sw_flush s1) = (hs, f) \<and> sw_ok file acc (s1\<lparr>sw_flush := f\<rparr>) \<and> fl_flushed f = fl_flushed (sw_flush s1) \<and>
      last_flush_pos f = last_flush_pos (sw_flush s1)" if "sw_ok file acc s1" for s1
  proof -
    obtain hs f where h: "take_pending_handles (sw_flush s1) = (hs, f)" by fastforce
    have "fs_ok (sw_buffer_size s1) (good file acc) (sw_flush s1)" using that by (simp add: sw_ok_def)
    then show ?thesis using h take_handles_writer [OF that h] take_pending_ok [OF _ h] by blast
  qed
  obtain b s1 where p: "flush_padded alloc s = Some (b, s1)" "sw_ok file acc s1" "same_frame s s1" "last_flush_pos (sw_flush s1) = sw_current s"
      "sw_aligned s1 = sw_aligned s" "sw_pos s1 = sw_pos s"
    using flush_padded_ok [OF assms] by blast
  have "sw_aligned s \<le> last_flush_pos (sw_flush s)" using assms(2) by (simp add: sw_ok_def pos_ok_def)
  then show ?thesis using t [OF assms(2)] t [OF p(2)] p
    by (auto simp: flush_inner_start_def same_frame_def sw_flushed_def sw_current_def)
qed

lemma sw_ok_flush_range: "sw_ok file acc s \<Longrightarrow> sw_flushed s \<le> last_flush_pos (sw_flush s) \<and> last_flush_pos (sw_flush s) \<le> length acc \<and> length acc = sw_current s"
  using flushed_le_last by (auto simp: sw_ok_def pos_ok_def sw_flushed_def sw_current_def)

lemma initiate_close_ok:
  assumes "\<And>n. length (alloc n) = n" "sw_ok file acc s"
  shows "\<exists>hs s'. initiate_close alloc s = Some ((length acc, hs), s') \<and> sw_ok file acc s' \<and> sw_flushed s' = sw_flushed s \<and> sw_status s' = FileClosing \<and>
    sw_synced s' = sw_synced s \<and> sw_waker s' = sw_waker s"
proof -
  have "sw_ok file acc (s\<lparr>sw_status := FileClosing\<rparr>)" using sw_ok_status [OF assms(2)] by simp
  then obtain b s1 where p: "flush_padded alloc (s\<lparr>sw_status := FileClosing\<rparr>) = Some (b, s1)" "sw_ok file acc s1" "same_frame (s\<lparr>sw_status := FileClosing\<rparr>) s1"
    using flush_padded_ok [OF assms(1)] by blast
  obtain hs f where h: "take_pending_handles (sw_flush s1) = (hs, f)" by fastforce
  have "fs_ok (sw_buffer_size s1) (good file acc) (sw_flush s1)" using p(2) by (simp add: sw_ok_def)
  then have "fl_flushed f = fl_flushed (sw_flush s1)" using take_pending_ok [OF _ h] by blast
  then show ?thesis using p h take_handles_writer [OF p(2) h] sw_ok_flush_range [OF assms(2)]
    by (auto simp: initiate_close_def Let_def same_frame_def sw_flushed_def)
qed

lemma all_good: "(\<And>i. i < length acc \<Longrightarrow> good file acc i) \<Longrightarrow> take (length acc) file = acc"
proof (rule nth_equalityI)
  assume g: "\<And>i. i < length acc \<Longrightarrow> good file acc i"
  show l: "length (take (length acc) file) = length acc" using g [of "length acc - 1"] by (cases "acc = []") (auto simp: good_def)
  show "take (length acc) file ! i = acc ! i" if "i < length (take (length acc) file)" for i using g [of i] that by (simp add: good_def)
qed

text \<open>The closing task: when it ends without an error, the file holds exactly what was accepted.\<close>

lemma close_task_ok:
  assumes "sw_ok file acc s" "sw_status s = FileClosing" "close_task (length acc) es et ec s file = Some (s', file')" "sw_synced s \<le> sw_flushed s"
  shows "sw_ok file' acc s' \<and> sw_status s' = FileClosing \<and> sw_flushed s' = sw_flushed s \<and> sw_synced s' \<le> sw_flushed s \<and> (\<not> sw_error s' \<longrightarrow> file' = acc)"
proof (cases "sw_error s")
  case True
  then show ?thesis using assms by (auto simp: close_task_def sw_flushed_def)
next
  case False
  then have fl: "sw_flushed s = length acc" using assms(3) by (simp add: close_task_def split: if_splits)
  have g: "good file acc i" if "i < length acc" for i
    using assms(1) fl that by (auto simp: sw_ok_def fs_ok_def sw_flushed_def)
  have t: "take (length acc) file = acc" by (rule all_good [OF g])
  have r: "last_flush_pos (sw_flush s) = length acc" "length acc = sw_current s" using sw_ok_flush_range [OF assms(1)] fl by auto
  have len: "length file \<le> sw_aligned s + (if sw_aligned s < length acc then sw_buffer_size s else 0)"
    using assms(1) r(1) unfolding sw_ok_def pos_ok_def by metis
  have "sw_ok acc acc s"
    by (rule sw_ok_mono [OF assms(1)]) (use assms(1) r in \<open>auto simp: good_def sw_ok_def pos_ok_def sw_current_def\<close>)
  moreover have "file = acc" if "\<not> sw_aligned s < sw_flushed s" using len t that fl r(2) by (auto simp: sw_current_def)
  ultimately show ?thesis using assms False fl t
    by (auto simp: close_task_def must_truncate_def sw_flushed_def Let_def split: if_splits)
qed

subsection \<open>The invariant of a writer in use\<close>

definition w_inv :: "wworld \<Rightarrow> bool" where
  "w_inv w \<longleftrightarrow> (let s = ww_writer w in
     sw_ok (ww_file w) (ww_accepted w) s \<and> sw_synced s \<le> sw_flushed s \<and> list_all (\<lambda>p. fst p \<le> sw_flushed s) (ww_fsyncs w) \<and>
     (\<forall>fin hs. ww_close w = Some (fin, hs) \<longrightarrow> fin = length (ww_accepted w) \<and> sw_status s = FileClosing \<and> sw_waker s \<noteq> None))"

lemma list_all_remove_at: "list_all P xs \<Longrightarrow> list_all P (remove_at i xs)"
  using set_remove_at [of i xs] by (auto simp: list_all_iff)

lemma list_all_le: "list_all (\<lambda>p. fst p \<le> n) ps \<Longrightarrow> n \<le> m \<Longrightarrow> list_all (\<lambda>p. fst p \<le> (m :: nat)) ps"
  by (auto simp: list_all_iff)

lemma w_inv_open: "w_inv w \<Longrightarrow> sw_status (ww_writer w) = FileOpen \<Longrightarrow> ww_close w = None"
  by (cases "ww_close w") (auto simp: w_inv_def Let_def)

lemma length_dirty: "length (dirty g n) = n"
  by (simp add: dirty_def)

lemma w_init_inv: "w_init w \<Longrightarrow> w_inv w"
  by (auto simp: w_init_def w_inv_def writer_new_def sw_ok_def pos_ok_def buffer_ok_def fs_ok_def flights_ok_def flush_state_new_def
      last_flush_pos_def sw_flushed_def pendings_def)

lemma write_step_inv:
  assumes "w_inv w" "w_enabled (WWrite g wk buf) w" "careful (WWrite g wk buf) w"
  shows "\<exists>w'. w_exec (WWrite g wk buf) w = Some w' \<and> w_inv w'"
proof -
  have i: "sw_ok (ww_file w) (ww_accepted w) (ww_writer w)" "full_flights (ww_writer w)" "sw_status (ww_writer w) = FileOpen" "ww_close w = None"
    using assms w_inv_open [OF assms(1)] by (auto simp: w_inv_def Let_def careful_def full_flights_def)
  show ?thesis using poll_write_ok [of "dirty g", OF length_dirty i(1-3), of wk buf] assms(1) i(4) by (auto simp: w_inv_def Let_def)
qed

lemma quiet_step_inv:
  assumes "w_inv w" "sw_ok (ww_file w) (ww_accepted w) s" "sw_flushed s = sw_flushed (ww_writer w)" "sw_synced s = sw_synced (ww_writer w)" "ww_close w = None"
  shows "w_inv (w\<lparr>ww_writer := s\<rparr>)" "w_inv (w\<lparr>ww_writer := s, ww_syncs := cs\<rparr>)"
  using assms by (auto simp: w_inv_def Let_def)

lemma sync_step_inv:
  assumes "w_inv w" "w_enabled op w" "op = WFlush g wk \<or> op = WSync g partial"
  shows "\<exists>w'. w_exec op w = Some w' \<and> w_inv w'"
proof -
  have i: "sw_ok (ww_file w) (ww_accepted w) (ww_writer w)" "ww_close w = None"
    using assms w_inv_open [OF assms(1)] by (auto simp: w_inv_def Let_def)
  show ?thesis using assms(3)
  proof
    assume "op = WFlush g wk"
    then show ?thesis using poll_flush_ok [of "dirty g", OF length_dirty i(1), of wk] quiet_step_inv(1) [OF assms(1) _ _ _ i(2)] by auto
  next
    assume "op = WSync g partial"
    then show ?thesis using flush_inner_start_ok [of "dirty g", OF length_dirty i(1), of partial] quiet_step_inv(2) [OF assms(1) _ _ _ i(2)] by auto
  qed
qed

lemma sync_end_inv:
  assumes "w_inv w" "w_exec (WSyncEnd k) w = Some w'"
  shows "w_inv w'"
  using assms by (auto simp: w_inv_def Let_def flush_inner_end_def sw_flushed_def split: if_splits)

lemma fsync_step_inv:
  assumes "w_inv w" "w_enabled op w" "op = WSyncInner \<or> op = WSyncInnerEnd k e \<or> op = WSyncDrop k"
  shows "\<exists>w'. w_exec op w = Some w' \<and> w_inv w'"
proof -
  have le: "fst (ww_fsyncs w ! k) \<le> sw_flushed (ww_writer w)" if "k < length (ww_fsyncs w)" using assms(1) that by (simp add: w_inv_def Let_def list_all_length)
  show ?thesis using assms(3)
  proof (elim disjE)
    assume "op = WSyncInner"
    then show ?thesis using assms(1) by (auto simp: w_inv_def Let_def sync_inner_start_def sw_flushed_def)
  next
    assume op: "op = WSyncInnerEnd k e"
    let ?s = "snd (sync_inner_end (ww_fsyncs w ! k) e (ww_writer w))"
    have "?s = ww_writer w \<or> ?s = ww_writer w\<lparr>sw_synced := fst (ww_fsyncs w ! k)\<rparr>" by (simp add: sync_inner_end_def)
    then show ?thesis using op assms(1,2) le by (auto simp: w_inv_def Let_def sw_flushed_def list_all_remove_at)
  qed (use assms(1) in \<open>simp add: w_inv_def Let_def\<close>)
qed

lemma task_result_inv:
  assumes "w_inv w" "sw_ok file' (ww_accepted w) s" "sw_flushed (ww_writer w) \<le> sw_flushed s" "sw_synced s = sw_synced (ww_writer w)"
    and "sw_status s = sw_status (ww_writer w)" "sw_status (ww_writer w) \<noteq> FileOpen \<longrightarrow> sw_waker s = sw_waker (ww_writer w)"
  shows "w_inv (w\<lparr>ww_writer := s, ww_file := file'\<rparr>)" "file' = ww_file w \<Longrightarrow> w_inv (w\<lparr>ww_writer := s\<rparr>)"
  using assms list_all_le [OF _ assms(3), of "ww_fsyncs w"] by (auto simp: w_inv_def Let_def)

lemma flight_step_inv:
  assumes "w_inv w" "w_enabled op w" "op = WLand i \<or> op = WDone i \<or> op = WFail i n"
  shows "\<exists>w'. w_exec op w = Some w' \<and> w_inv w'"
proof -
  have ok: "sw_ok (ww_file w) (ww_accepted w) (ww_writer w)" "i < length (sw_flights (ww_writer w))" using assms by (auto simp: w_inv_def Let_def)
  show ?thesis using assms(3)
  proof (elim disjE)
    assume "op = WLand i"
    then show ?thesis using task_result_inv(1) [OF assms(1) land_mark_ok [OF ok refl]] by (simp add: Let_def sw_flushed_def)
  next
    assume "op = WDone i"
    then show ?thesis using assms(2) flush_task_done_ok [OF ok refl, of "length (f_data (sw_flights (ww_writer w) ! i))"] task_result_inv(2) [OF assms(1)] by (auto simp: Let_def)
  next
    assume op: "op = WFail i n"
    obtain s' where "flush_task_end (Inl ()) (f_pos (sw_flights (ww_writer w) ! i)) (ww_writer w\<lparr>sw_flights := remove_at i (sw_flights (ww_writer w))\<rparr>) = Some s'"
        "sw_ok (file_write (f_at (sw_flights (ww_writer w) ! i)) (take n (f_data (sw_flights (ww_writer w) ! i))) (ww_file w)) (ww_accepted w) s'"
        "sw_flushed s' = sw_flushed (ww_writer w)" "sw_status s' = sw_status (ww_writer w)" "sw_synced s' = sw_synced (ww_writer w)"
        "sw_status (ww_writer w) \<noteq> FileOpen \<longrightarrow> sw_waker s' = sw_waker (ww_writer w)"
      using flush_task_fail_ok [OF ok refl, of n] by blast
    then show ?thesis using op task_result_inv(1) [OF assms(1)] by (simp add: Let_def)
  qed
qed

lemma close_step_inv:
  assumes "w_inv w" "w_exec (WClose g wk) w = Some w'"
  shows "w_inv w'"
proof -
  let ?s = "ww_writer w"
  have ok: "sw_ok (ww_file w) (ww_accepted w) (?s\<lparr>sw_waker := Some wk\<rparr>)" using assms by (simp add: w_inv_def Let_def)
  show ?thesis using assms initiate_close_ok [of "dirty g", OF length_dirty ok] sw_ok_status [of "ww_file w" "ww_accepted w" "?s\<lparr>sw_waker := None\<rparr>" FileClosed]
    by (auto simp: w_inv_def Let_def poll_close_def sw_flushed_def split: file_status.splits if_splits)
qed

lemma close_task_inv:
  assumes "w_inv w" "w_enabled (WCloseTask es et ec) w" "w_exec (WCloseTask es et ec) w = Some w'"
  shows "w_inv w' \<and> (\<not> sw_error (ww_writer w') \<longrightarrow> ww_file w' = ww_accepted w')"
proof -
  obtain fin hs where c: "ww_close w = Some (fin, hs)" using assms(2) by (auto split: option.splits)
  have i: "sw_ok (ww_file w) (ww_accepted w) (ww_writer w)" "sw_status (ww_writer w) = FileClosing" "fin = length (ww_accepted w)"
      "sw_synced (ww_writer w) \<le> sw_flushed (ww_writer w)"
    using assms(1) c by (auto simp: w_inv_def Let_def)
  obtain s' file' where t: "close_task (length (ww_accepted w)) es et ec (ww_writer w) (ww_file w) = Some (s', file')"
      "w' = w\<lparr>ww_writer := s', ww_file := file', ww_close := None\<rparr>"
    using assms(3) c i(3) by auto
  show ?thesis using close_task_ok [OF i(1,2) t(1) i(4)] t(2) assms(1) by (auto simp: w_inv_def Let_def)
qed

lemma c_step_inv: "w_inv w \<Longrightarrow> c_step w w' \<Longrightarrow> w_inv w'"
proof (erule c_stepE)
  fix op
  assume i: "w_inv w" and e: "w_enabled op w" "careful op w" "w_exec op w = Some w'"
  show "w_inv w'"
  proof (cases op)
    case (WWrite g wk buf)
    then show ?thesis using write_step_inv i e by fastforce
  next
    case (WClose g wk)
    then show ?thesis using close_step_inv i e by blast
  next
    case (WCloseTask es et ec)
    then show ?thesis using close_task_inv i e by blast
  next
    case (WShort j n)
    then show ?thesis using e(2) by (simp add: careful_def)
  next
    case (WSyncEnd k)
    then show ?thesis using sync_end_inv i e by blast
  qed (use sync_step_inv fsync_step_inv flight_step_inv i e in \<open>metis option.inject\<close>)+
qed

interpretation wr: transition_inv w_init c_step w_inv
  by unfold_locales (blast intro: w_init_inv c_step_inv)+

end
