(* ===== verification/StreamOrderly.thy ===== *)
theory StreamOrderly
  imports StreamWriter
begin

section \<open>Who awaits the flushes of a writer\<close>

text \<open>
  The handles of the flush tasks move from the writer to the flush, or the closing task, that awaits them. This theory shows
  when awaiting them is enough to pass the assertions of io/dma_file_stream.rs, and states the properties of the writer.
\<close>

subsection \<open>Orderly use\<close>

text \<open>
  An orderly user starts a flush only when no other is awaited, drops none, and closes the writer with nothing awaited
  and no write or flush pending; no write to the file fails or is cut short.
\<close>

definition orderly :: "wop \<Rightarrow> wworld \<Rightarrow> bool" where
  "orderly op w \<longleftrightarrow> careful op w \<and>
     (case op of WFail i n \<Rightarrow> False | WSyncDrop k \<Rightarrow> False | WSync g p \<Rightarrow> ww_syncs w = []
        | WClose g wk \<Rightarrow> sw_status (ww_writer w) = FileOpen \<longrightarrow> sw_waker (ww_writer w) = None \<and> ww_syncs w = [] | _ \<Rightarrow> True)"

inductive o_step :: "wworld \<Rightarrow> wworld \<Rightarrow> bool" where
  "w_enabled op w \<Longrightarrow> orderly op w \<Longrightarrow> w_exec op w = Some w' \<Longrightarrow> o_step w w'"

inductive_cases o_stepE: "o_step w w'"

text \<open>
  Every pending flush has a task in flight. It holds the handle of the task, and is then past what is awaited, or somebody awaits the task.
\<close>

definition handles_ok :: "(nat \<times> nat list) list \<Rightarrow> writer \<Rightarrow> bool" where
  "handles_ok aw s \<longleftrightarrow>
     (\<forall>q h. (q, FPending h) \<in> set (fl_flushes (sw_flush s)) \<longrightarrow> (\<exists>f \<in> set (sw_flights s). f_pos f = q \<and>
        (case h of Some t \<Rightarrow> t = f_task f \<and> (\<forall>c \<in> set aw. fst c < q) | None \<Rightarrow> \<exists>c \<in> set aw. f_task f \<in> set (snd c)))) \<and>
     (\<forall>c \<in> set aw. fst c \<le> last_flush_pos (sw_flush s) \<and>
        (sw_buffer_size s dvd fst c \<or> fst c \<le> fl_flushed (sw_flush s) \<or> fst c \<in> fst ` set (fl_flushes (sw_flush s))))"

lemma handles_okD:
  "handles_ok aw s \<Longrightarrow> (q, FPending h) \<in> set (fl_flushes (sw_flush s)) \<Longrightarrow> \<exists>f \<in> set (sw_flights s). f_pos f = q \<and>
     (case h of Some t \<Rightarrow> t = f_task f \<and> (\<forall>c \<in> set aw. fst c < q) | None \<Rightarrow> \<exists>c \<in> set aw. f_task f \<in> set (snd c))"
  by (simp add: handles_ok_def)

lemma handles_ok_frame:
  "sw_flush s' = sw_flush s \<Longrightarrow> sw_flights s' = sw_flights s \<Longrightarrow> sw_buffer_size s' = sw_buffer_size s \<Longrightarrow> handles_ok aw s' = handles_ok aw s"
  by (simp add: handles_ok_def)

lemma handles_ok_flush:
  assumes "handles_ok aw s" "flush_one_buffer b s = Some s'"
  shows "handles_ok aw s'"
proof -
  define f where "f = \<lparr>f_at = sw_aligned s, f_data = b, f_pos = sw_current s, f_task = sw_next_task s, f_landed = False\<rparr>"
  have lt: "last_flush_pos (sw_flush s) < sw_current s"
    and e: "fl_flushes (sw_flush s') = fl_flushes (sw_flush s) @ [(sw_current s, FPending (Some (sw_next_task s)))]"
      "fl_flushed (sw_flush s') = fl_flushed (sw_flush s)" "sw_flights s' = sw_flights s @ [f]" "sw_buffer_size s' = sw_buffer_size s"
    using assms(2) by (auto simp: flush_one_buffer_def on_start_def f_def split: if_splits)
  have l: "last_flush_pos (sw_flush s') = sw_current s" using e(1) by (simp add: last_flush_pos_def)
  have "\<forall>c \<in> set aw. fst c < sw_current s" using assms(1) lt by (auto simp: handles_ok_def)
  moreover have "f_pos f = sw_current s" "f_task f = sw_next_task s" by (simp_all add: f_def)
  ultimately show ?thesis using assms(1) unfolding handles_ok_def e l by (fastforce split: option.splits)
qed

lemma write_loop_keeps:
  assumes "write_loop alloc buf s = Some (rest, s')" "Q s"
    and "\<And>s b s'. Q s \<Longrightarrow> flush_one_buffer b s = Some s' \<Longrightarrow> Q s'"
    and "\<And>s b p. Q s \<Longrightarrow> Q (s\<lparr>sw_buffer := b, sw_pos := p\<rparr>)" "\<And>s a p. Q s \<Longrightarrow> Q (s\<lparr>sw_aligned := a, sw_pos := p\<rparr>)"
  shows "Q s'"
proof -
  have "Q s \<longrightarrow> Q (snd (rest, s'))"
  proof (rule write_loop.raw_induct [where P = "\<lambda>alloc buf s r. Q s \<longrightarrow> Q (snd r)", OF _ assms(1)])
    fix loop :: "(nat \<Rightarrow> u8 list) \<Rightarrow> u8 list \<Rightarrow> writer \<Rightarrow> (u8 list \<times> writer) option" and alloc buf s r
    assume IH: "\<And>alloc buf s r. loop alloc buf s = Some r \<Longrightarrow> Q s \<longrightarrow> Q (snd r)"
      and r: "(if buf = [] then Some (buf, s)
      else case sw_buffer s of
             None \<Rightarrow>
               (if fl_pending (sw_flush s) < sw_write_behind s then loop alloc buf (s\<lparr>sw_buffer := Some (alloc (sw_buffer_size s))\<rparr>)
                else Some (buf, s))
           | Some b \<Rightarrow>
               (case slice_write_at b (sw_pos s) buf of (n, b') \<Rightarrow>
                 let s1 = s\<lparr>sw_buffer := None, sw_pos := sw_pos s + n\<rparr>
                 in if sw_pos s1 = sw_buffer_size s
                    then Option.bind (flush_one_buffer b' s1)
                           (\<lambda>s2. loop alloc (drop n buf) (s2\<lparr>sw_aligned := sw_aligned s2 + sw_buffer_size s2, sw_pos := 0\<rparr>))
                    else loop alloc (drop n buf) (s1\<lparr>sw_buffer := Some b'\<rparr>))) = Some r"
    have b: "Q s \<Longrightarrow> Q (s\<lparr>sw_buffer := x\<rparr>)" for x s using assms(4) [where s = s and b = x and p = "sw_pos s"] by simp
    have b2: "Q s \<Longrightarrow> Q (s\<lparr>sw_pos := p, sw_buffer := x\<rparr>)" for x p s using b [OF assms(4) [where s = s and b = None and p = p], of x] by simp
    have fl: "Q s2" if "Q s" "flush_one_buffer b' (s\<lparr>sw_buffer := None, sw_pos := p\<rparr>) = Some s2" for b' p s2 using assms(3,4) that by blast
    show "Q s \<longrightarrow> Q (snd r)"
    proof (cases "buf = [] \<or> sw_buffer s = None")
      case True
      then show ?thesis using r b IH by (auto split: if_splits option.splits)
    next
      case False
      then obtain bb n b' where bb: "buf \<noteq> []" "sw_buffer s = Some bb" "slice_write_at bb (sw_pos s) buf = (n, b')" by (cases "slice_write_at (the (sw_buffer s)) (sw_pos s) buf") auto
      show ?thesis
      proof (cases "sw_pos s + n = sw_buffer_size s")
        case True
        then obtain s2 where s2: "flush_one_buffer b' (s\<lparr>sw_buffer := None, sw_pos := sw_pos s + n\<rparr>) = Some s2"
            "loop alloc (drop n buf) (s2\<lparr>sw_aligned := sw_aligned s2 + sw_buffer_size s2, sw_pos := 0\<rparr>) = Some r"
          using r bb by (auto simp: Let_def split: bind_splits)
        show ?thesis using IH [OF s2(2)] assms(5) fl [OF _ s2(1)] by blast
      next
        case False
        then have "loop alloc (drop n buf) (s\<lparr>sw_pos := sw_pos s + n, sw_buffer := Some b'\<rparr>) = Some r" using r bb by (simp add: Let_def)
        then show ?thesis using IH b2 by blast
      qed
    qed
  qed
  then show ?thesis using assms(2) by simp
qed

lemma handles_ok_write:
  assumes "handles_ok aw s" "poll_write alloc wk buf s = Some (r, s')"
  shows "handles_ok aw s' \<and> (sw_error s' \<longrightarrow> sw_error s) \<and> sw_status s' = sw_status s"
proof -
  have f: "handles_ok aw (s\<lparr>sw_waker := x, sw_error := e\<rparr>) = handles_ok aw s" for s x e by (rule handles_ok_frame) simp_all
  have g: "handles_ok aw (s\<lparr>sw_waker := x\<rparr>) = handles_ok aw s" for s x by (rule handles_ok_frame) simp_all
  have "handles_ok aw s2 \<and> sw_error s2 = sw_error s \<and> sw_status s2 = sw_status s" if l: "write_loop alloc buf (s\<lparr>sw_waker := None\<rparr>) = Some (rest, s2)" for rest s2
  proof (rule write_loop_keeps [where Q = "\<lambda>s2. handles_ok aw s2 \<and> sw_error s2 = sw_error s \<and> sw_status s2 = sw_status s", OF l])
    fix x b y
    assume "handles_ok aw x \<and> sw_error x = sw_error s \<and> sw_status x = sw_status s" "flush_one_buffer b x = Some y"
    then show "handles_ok aw y \<and> sw_error y = sw_error s \<and> sw_status y = sw_status s" using handles_ok_flush by (auto simp: flush_one_buffer_def)
  next
    fix x b p
    assume "handles_ok aw x \<and> sw_error x = sw_error s \<and> sw_status x = sw_status s"
    then show "handles_ok aw (x\<lparr>sw_buffer := b, sw_pos := p\<rparr>) \<and> sw_error (x\<lparr>sw_buffer := b, sw_pos := p\<rparr>) = sw_error s \<and> sw_status (x\<lparr>sw_buffer := b, sw_pos := p\<rparr>) = sw_status s" by (simp add: handles_ok_def)
  next
    fix x a p
    assume "handles_ok aw x \<and> sw_error x = sw_error s \<and> sw_status x = sw_status s"
    then show "handles_ok aw (x\<lparr>sw_aligned := a, sw_pos := p\<rparr>) \<and> sw_error (x\<lparr>sw_aligned := a, sw_pos := p\<rparr>) = sw_error s \<and> sw_status (x\<lparr>sw_aligned := a, sw_pos := p\<rparr>) = sw_status s" by (simp add: handles_ok_def)
  qed (use assms(1) g in simp)
  then show ?thesis using assms by (auto simp: poll_write_def Let_def f g split: if_splits bind_splits)
qed

lemma handles_ok_padded:
  assumes "handles_ok aw s" "flush_padded alloc s = Some (b, s')"
  shows "handles_ok aw s'"
proof -
  have "handles_ok aw (s\<lparr>sw_buffer := x\<rparr>)" for x using assms(1) by (subst handles_ok_frame [of _ s]) simp_all
  then have "handles_ok aw s'" if "flush_one_buffer d (s\<lparr>sw_buffer := x\<rparr>) = Some s'" for d x s' using handles_ok_flush that by blast
  then show ?thesis using assms by (auto simp: flush_padded_def Let_def split: if_splits option.splits)
qed

lemma handles_ok_poll_flush:
  assumes "handles_ok aw s" "poll_flush alloc wk s = Some (r, s')"
  shows "handles_ok aw s'"
proof -
  have "handles_ok aw (s\<lparr>sw_waker := x, sw_error := e\<rparr>)" "handles_ok aw (s\<lparr>sw_waker := x\<rparr>)" for x e
    using assms(1) by (simp_all add: handles_ok_def)
  moreover from this have "handles_ok aw s'" if "flush_padded alloc (s\<lparr>sw_waker := x\<rparr>) = Some (b, s')" for b x s' using handles_ok_padded that by blast
  ultimately show ?thesis using assms(2) by (auto simp: poll_flush_def Let_def split: if_splits)
qed

lemma take_handles_entries:
  "take_handles xs = (hs, ys) \<Longrightarrow> (q, FPending h) \<in> set ys \<Longrightarrow> h = None \<and> ((q, FPending None) \<in> set xs \<or> (\<exists>t \<in> set hs. (q, FPending (Some t)) \<in> set xs))"
proof (induction xs arbitrary: hs ys)
  case (Cons e xs)
  obtain p st where e: "e = (p, st)" by fastforce
  obtain hs' ys' where t: "take_handles xs = (hs', ys')" by fastforce
  show ?case using Cons.IH [OF t] Cons.prems e t by (auto split: flush_status.splits option.splits)
qed simp

text \<open>With nothing awaited, taking the handles makes their tasks awaited.\<close>

lemma handles_ok_take:
  assumes "handles_ok [] s" "take_pending_handles (sw_flush s) = (hs, f)"
    and "target \<le> last_flush_pos (sw_flush s)" "sw_buffer_size s dvd target \<or> target = last_flush_pos (sw_flush s)"
  shows "handles_ok [(target, hs)] (s\<lparr>sw_flush := f\<rparr>)"
proof -
  obtain ys where t: "take_handles (fl_flushes (sw_flush s)) = (hs, ys)" "f = sw_flush s\<lparr>fl_flushes := ys\<rparr>"
    using assms(2) by (auto simp: take_pending_handles_def split: prod.splits)
  have m: "map fst ys = map fst (fl_flushes (sw_flush s))" using take_handles_ok [OF t(1)] by blast
  then have l: "last_flush_pos f = last_flush_pos (sw_flush s)" using t(2) by (simp add: last_flush_pos_alt)
  have i: "fst ` set ys = fst ` set (fl_flushes (sw_flush s))" using arg_cong [OF m, of set] by simp
  have a: "\<exists>g \<in> set (sw_flights s). f_pos g = q \<and> h = Some (f_task g)" if "(q, FPending h) \<in> set (fl_flushes (sw_flush s))" for q h
    using handles_okD [OF assms(1) that] by (cases h) auto
  have p: "\<exists>g \<in> set (sw_flights s). f_pos g = q \<and> f_task g \<in> set hs" "h = None" if "(q, FPending h) \<in> set ys" for q h
    using take_handles_entries [OF t(1) that] a [of q] by blast+
  have "last_flush_pos (sw_flush s) \<le> fl_flushed (sw_flush s) \<or> last_flush_pos (sw_flush s) \<in> fst ` set (fl_flushes (sw_flush s))"
    by (auto simp: last_flush_pos_def)
  then have b: "sw_buffer_size s dvd target \<or> target \<le> fl_flushed (sw_flush s) \<or> target \<in> fst ` set ys" using assms(4) i by auto
  show ?thesis unfolding handles_ok_def
  proof (intro conjI allI impI)
    fix q h
    assume "(q, FPending h) \<in> set (fl_flushes (sw_flush (s\<lparr>sw_flush := f\<rparr>)))"
    then have "(q, FPending h) \<in> set ys" using t(2) by simp
    then show "\<exists>g \<in> set (sw_flights (s\<lparr>sw_flush := f\<rparr>)). f_pos g = q \<and> (case h of Some t \<Rightarrow> t = f_task g \<and> (\<forall>c \<in> set [(target, hs)]. fst c < q)
        | None \<Rightarrow> \<exists>c \<in> set [(target, hs)]. f_task g \<in> set (snd c))"
      using p [of q h] by simp
  qed (use b assms(3) l t(2) in simp)
qed

lemma on_complete_entries:
  assumes "fs_ok bs P f" "on_complete q f = Some f'"
  shows "(p, FPending h) \<in> set (fl_flushes f') \<Longrightarrow> (p, FPending h) \<in> set (fl_flushes f) \<and> p \<noteq> q"
    and "p \<in> fst ` set (fl_flushes f) \<Longrightarrow> p \<le> fl_flushed f' \<or> p \<in> fst ` set (fl_flushes f')"
proof -
  let ?xs = "mark_complete q (fl_flushes f)"
  have so: "sorted_wrt (<) (map fst (fl_flushes f))" using assms(1) flush_chain_sorted by (auto simp: fs_ok_def)
  have "fl_pending f \<noteq> 0" using assms(2) by (cases "fl_pending f = 0") (auto simp: on_complete_def)
  then have e: "fl_flushes f' = dropWhile (\<lambda>e. snd e = FComplete) ?xs" "fl_flushed f' = last (fl_flushed f # map fst (complete_front ?xs))"
    using on_complete_spec [OF so, of q] assms(2) by auto
  show "(p, FPending h) \<in> set (fl_flushes f) \<and> p \<noteq> q" if "(p, FPending h) \<in> set (fl_flushes f')"
    using that e(1) by (auto simp: mark_complete_def dest!: set_dropWhileD split: if_splits)
  assume "p \<in> fst ` set (fl_flushes f)"
  then have "p \<in> set (map fst (complete_front ?xs @ fl_flushes f'))" 
    using e(1) by (simp add: complete_front_def del: map_append set_map) (simp flip: set_map)
  moreover have "p \<le> fl_flushed f'" if "p \<in> set (map fst (complete_front ?xs))"
  proof -
    have "sorted_wrt (<) (map fst (complete_front ?xs @ fl_flushes f'))" using so e(1) by (simp add: complete_front_def del: map_append)
    then show ?thesis using that e(2) by (cases "complete_front ?xs" rule: rev_cases) (auto simp: sorted_wrt_append less_imp_le)
  qed
  ultimately show "p \<le> fl_flushed f' \<or> p \<in> fst ` set (fl_flushes f')" by auto
qed

lemma in_remove_at: "i < length xs \<Longrightarrow> x \<in> set xs \<Longrightarrow> x \<noteq> xs ! i \<Longrightarrow> x \<in> set (remove_at i xs)"
  using remove_at_split [of i xs] by (metis Un_iff set_append set_ConsD)

lemma handles_ok_done:
  assumes "sw_ok file acc s" "handles_ok aw s" "i < length (sw_flights s)" "f = sw_flights s ! i" "f_landed f"
    and "flush_task_end (Inr n) (f_pos f) (s\<lparr>sw_flights := remove_at i (sw_flights s)\<rparr>) = Some s'"
  shows "handles_ok aw s'"
proof -
  have m: "f \<in> set (sw_flights s)" using assms(3,4) by simp
  then have fk: "flight_ok (sw_buffer_size s) file acc f" "f_pos f \<in> set (pendings (sw_flush s))" and fs: "fs_ok (sw_buffer_size s) (good file acc) (sw_flush s)"
    using assms(1) by (auto simp: sw_ok_def flights_ok_def)
  have g: "good file acc j" if "(f_pos f - 1) div sw_buffer_size s * sw_buffer_size s \<le> j" "j < f_pos f" for j
  proof -
    have "f_at f = (f_pos f - 1) div sw_buffer_size s * sw_buffer_size s" "\<forall>j. f_at f \<le> j \<and> j < f_pos f \<longrightarrow> good file acc j"
      using fk(1) assms(5) unfolding flight_ok_def by blast+
    then show ?thesis using that by simp
  qed
  obtain f' where f': "on_complete (f_pos f) (sw_flush s) = Some f'" "fl_flushed (sw_flush s) \<le> fl_flushed f'" "last_flush_pos f' = last_flush_pos (sw_flush s)"
    using on_complete_ok [OF fs fk(2)] g by blast
  have s': "sw_flush s' = f'" "sw_flights s' = remove_at i (sw_flights s)" "sw_buffer_size s' = sw_buffer_size s"
    using assms(6) f'(1) by (auto simp: flush_task_end_def)
  have "\<exists>g \<in> set (remove_at i (sw_flights s)). f_pos g = q \<and>
      (case h of Some t \<Rightarrow> t = f_task g \<and> (\<forall>c \<in> set aw. fst c < q) | None \<Rightarrow> \<exists>c \<in> set aw. f_task g \<in> set (snd c))"
    if "(q, FPending h) \<in> set (fl_flushes f')" for q h
  proof -
    have e: "(q, FPending h) \<in> set (fl_flushes (sw_flush s))" "q \<noteq> f_pos f" using on_complete_entries(1) [OF fs f'(1) that] by auto
    obtain g where g: "g \<in> set (sw_flights s)" "f_pos g = q"
        "case h of Some t \<Rightarrow> t = f_task g \<and> (\<forall>c \<in> set aw. fst c < q) | None \<Rightarrow> \<exists>c \<in> set aw. f_task g \<in> set (snd c)"
      using handles_okD [OF assms(2) e(1)] by blast
    have "g \<noteq> sw_flights s ! i" using g(2) e(2) assms(4) by blast
    then show ?thesis using in_remove_at [OF assms(3) g(1)] g(2,3) by blast
  qed
  moreover have "fst c \<le> last_flush_pos f' \<and> (sw_buffer_size s dvd fst c \<or> fst c \<le> fl_flushed f' \<or> fst c \<in> fst ` set (fl_flushes f'))"
    if "c \<in> set aw" for c
    using assms(2) that f'(2,3) on_complete_entries(2) [OF fs f'(1), of "fst c"] unfolding handles_ok_def by (metis order_trans)
  ultimately show ?thesis unfolding handles_ok_def s' by blast
qed

lemma handles_ok_land:
  assumes "handles_ok aw s" "i < length (sw_flights s)"
  shows "handles_ok aw (s\<lparr>sw_flights := (sw_flights s)[i := (sw_flights s ! i)\<lparr>f_landed := True\<rparr>]\<rparr>)"
proof -
  have "\<exists>g \<in> set ((sw_flights s)[i := (sw_flights s ! i)\<lparr>f_landed := True\<rparr>]). f_pos g = f_pos f \<and> f_task g = f_task f" if m: "f \<in> set (sw_flights s)" for f
  proof -
    obtain k where k: "k < length (sw_flights s)" "sw_flights s ! k = f" using m by (auto simp: in_set_conv_nth)
    let ?fs = "(sw_flights s)[i := (sw_flights s ! i)\<lparr>f_landed := True\<rparr>]"
    have "?fs ! k \<in> set ?fs" using k(1) by (intro nth_mem) simp
    moreover have "f_pos (?fs ! k) = f_pos f \<and> f_task (?fs ! k) = f_task f" using k assms(2) by (auto simp: nth_list_update)
    ultimately show ?thesis by blast
  qed
  then have "\<exists>g \<in> set ((sw_flights s)[i := (sw_flights s ! i)\<lparr>f_landed := True\<rparr>]). f_pos g = q \<and>
      (case h of Some t \<Rightarrow> t = f_task g \<and> (\<forall>c \<in> set aw. fst c < q) | None \<Rightarrow> \<exists>c \<in> set aw. f_task g \<in> set (snd c))"
    if "(q, FPending h) \<in> set (fl_flushes (sw_flush s))" for q h
    using handles_okD [OF assms(1) that] by (cases h) fastforce+
  then show ?thesis using assms(1) by (simp add: handles_ok_def)
qed

text \<open>When all that was awaited has finished, the flushed position has reached the target, and nothing is left to await.\<close>

lemma awaited_done:
  assumes "sw_ok file acc s" "handles_ok [c] s" "finished (snd c) s"
  shows "fst c \<le> sw_flushed s" "handles_ok [] s"
proof -
  have p: "\<exists>f \<in> set (sw_flights s). f_pos f = q \<and> h = Some (f_task f) \<and> fst c < q" if "(q, FPending h) \<in> set (fl_flushes (sw_flush s))" for q h
    using handles_okD [OF assms(2) that] assms(3) by (cases h) (auto simp: finished_def list_all_iff)
  then show "handles_ok [] s" unfolding handles_ok_def by fastforce
  have fs: "fs_ok (sw_buffer_size s) (good file acc) (sw_flush s)" using assms(1) by (simp add: sw_ok_def)
  have c: "fst c \<le> last_flush_pos (sw_flush s)" "sw_buffer_size s dvd fst c \<or> fst c \<le> fl_flushed (sw_flush s) \<or> fst c \<in> fst ` set (fl_flushes (sw_flush s))"
    using assms(2) by (auto simp: handles_ok_def)
  show "fst c \<le> sw_flushed s"
  proof (cases "fl_flushes (sw_flush s)")
    case Nil
    then show ?thesis using c(1) by (simp add: last_flush_pos_def sw_flushed_def)
  next
    case (Cons e es)
    obtain q st where e: "e = (q, st)" by fastforce
    obtain h where "st = FPending h" using fs Cons e by (cases st) (auto simp: fs_ok_def)
    then have lt: "fst c < q" using p [of q h] Cons e by auto
    have ch: "(q - 1) div sw_buffer_size s = fl_flushed (sw_flush s) div sw_buffer_size s" "\<forall>p \<in> set (map fst es). q < p"
      using fs Cons e flush_chain_sorted [of "sw_buffer_size s" "good file acc" q es] by (auto simp: fs_ok_def)
    show ?thesis
    proof (cases "sw_buffer_size s dvd fst c")
      case True
      have "fst c div sw_buffer_size s \<le> (q - 1) div sw_buffer_size s" using lt by (intro div_le_mono) simp
      then have "fst c \<le> fl_flushed (sw_flush s) div sw_buffer_size s * sw_buffer_size s" using True ch(1) by (metis dvd_div_mult_self mult_le_mono1)
      then show ?thesis using div_times_less_eq_dividend le_trans unfolding sw_flushed_def by blast
    next
      case False
      then show ?thesis using c(2) Cons e lt ch(2) by (auto simp: sw_flushed_def)
    qed
  qed
qed

definition awaited :: "wworld \<Rightarrow> (nat \<times> nat list) list" where
  "awaited w = ww_syncs w @ (case ww_close w of None \<Rightarrow> [] | Some c \<Rightarrow> [c])"

definition o_inv :: "wworld \<Rightarrow> bool" where
  "o_inv w \<longleftrightarrow> w_inv w \<and> length (ww_syncs w) \<le> 1 \<and> (ww_syncs w \<noteq> [] \<longrightarrow> sw_status (ww_writer w) = FileOpen) \<and>
     (sw_status (ww_writer w) = FileOpen \<or> ww_close w \<noteq> None \<longrightarrow> \<not> sw_error (ww_writer w)) \<and> handles_ok (awaited w) (ww_writer w)"

lemma o_invD:
  assumes "o_inv w"
  shows "w_inv w" "sw_ok (ww_file w) (ww_accepted w) (ww_writer w)" "handles_ok (awaited w) (ww_writer w)"
    and "sw_status (ww_writer w) = FileOpen \<Longrightarrow> awaited w = ww_syncs w \<and> ww_close w = None \<and> \<not> sw_error (ww_writer w)"
    and "ww_close w \<noteq> None \<Longrightarrow> ww_syncs w = [] \<and> \<not> sw_error (ww_writer w) \<and> sw_status (ww_writer w) = FileClosing"
proof -
  show i: "w_inv w" "sw_ok (ww_file w) (ww_accepted w) (ww_writer w)" "handles_ok (awaited w) (ww_writer w)" using assms by (auto simp: o_inv_def w_inv_def Let_def)
  show "sw_status (ww_writer w) = FileOpen \<Longrightarrow> awaited w = ww_syncs w \<and> ww_close w = None \<and> \<not> sw_error (ww_writer w)"
    using assms w_inv_open [OF i(1)] by (auto simp: o_inv_def awaited_def)
  show "ww_close w \<noteq> None \<Longrightarrow> ww_syncs w = [] \<and> \<not> sw_error (ww_writer w) \<and> sw_status (ww_writer w) = FileClosing"
    using assms by (auto simp: o_inv_def w_inv_def Let_def)
qed

lemma o_init_inv: "w_init w \<Longrightarrow> o_inv w"
  using w_init_inv [of w] by (auto simp: o_inv_def w_init_def writer_new_def flush_state_new_def handles_ok_def awaited_def)

lemma o_write:
  assumes "o_inv w" "w_enabled (WWrite g wk buf) w" "careful (WWrite g wk buf) w"
  shows "\<exists>w'. w_exec (WWrite g wk buf) w = Some w' \<and> o_inv w'"
proof -
  note i = o_invD [OF assms(1)]
  have op: "sw_status (ww_writer w) = FileOpen" using assms(2) by simp
  obtain w' where w': "w_exec (WWrite g wk buf) w = Some w'" "w_inv w'" using write_step_inv [OF i(1) assms(2,3)] by blast
  obtain r s' where p: "poll_write (dirty g) wk buf (ww_writer w) = Some (r, s')" "ww_writer w' = s'" "ww_syncs w' = ww_syncs w" "ww_close w' = ww_close w"
    using w'(1) by auto
  show ?thesis using w' p handles_ok_write [OF i(3) p(1)] i(4) [OF op] assms(1) op by (auto simp: o_inv_def awaited_def)
qed

lemma flush_padded_frame: "flush_padded alloc s = Some (b, s') \<Longrightarrow> sw_error s' = sw_error s \<and> sw_status s' = sw_status s \<and> sw_buffer_size s' = sw_buffer_size s"
  by (auto simp: flush_padded_def flush_one_buffer_def Let_def split: if_splits option.splits)

lemma o_flush:
  assumes "o_inv w" "w_enabled (WFlush g wk) w"
  shows "\<exists>w'. w_exec (WFlush g wk) w = Some w' \<and> o_inv w'"
proof -
  note i = o_invD [OF assms(1)]
  have op: "sw_status (ww_writer w) = FileOpen" using assms(2) by simp
  obtain w' where w': "w_exec (WFlush g wk) w = Some w'" "w_inv w'" using sync_step_inv [OF i(1) assms(2)] by blast
  obtain r s' where p: "poll_flush (dirty g) wk (ww_writer w) = Some (r, s')" "ww_writer w' = s'" "ww_syncs w' = ww_syncs w" "ww_close w' = ww_close w"
    using w'(1) by auto
  have "\<not> sw_error s' \<and> sw_status s' = FileOpen"
    using p(1) i(4) [OF op] op by (auto simp: poll_flush_def Let_def dest: flush_padded_frame split: if_splits)
  then show ?thesis using w' p handles_ok_poll_flush [OF i(3) p(1)] i(4) [OF op] assms(1) by (auto simp: o_inv_def awaited_def)
qed

lemma flush_inner_start_handles:
  assumes "sw_ok file acc s" "\<And>n. length (alloc n) = n" "handles_ok [] s" "flush_inner_start alloc partial s = Some (c, s')"
  shows "handles_ok [c] s' \<and> sw_error s' = sw_error s \<and> sw_status s' = sw_status s"
proof -
  have po: "sw_buffer_size s dvd sw_aligned s" "sw_aligned s \<le> last_flush_pos (sw_flush s)" using assms(1) by (auto simp: sw_ok_def pos_ok_def)
  obtain b s1 where f: "flush_padded alloc s = Some (b, s1)" "last_flush_pos (sw_flush s1) = sw_current s" "sw_aligned s1 = sw_aligned s" "sw_pos s1 = sw_pos s"
    using flush_padded_ok [OF assms(2,1)] by blast
  have h: "handles_ok [(target, hs)] (x\<lparr>sw_flush := y\<rparr>)"
    if "handles_ok [] x" "take_pending_handles (sw_flush x) = (hs, y)" "target \<le> last_flush_pos (sw_flush x)"
      "sw_buffer_size x dvd target \<or> target = last_flush_pos (sw_flush x)" for x target hs y
    using handles_ok_take that by blast
  show ?thesis
  proof (cases "partial \<and> 0 < sw_pos s")
    case True
    then show ?thesis using assms(4) f h [OF handles_ok_padded [OF assms(3) f(1)]] flush_padded_frame [OF f(1)]
      by (auto simp: flush_inner_start_def sw_current_def split: prod.splits)
  next
    case False
    then show ?thesis using assms(4) po h [OF assms(3)] by (auto simp: flush_inner_start_def split: prod.splits)
  qed
qed

lemma o_sync:
  assumes "o_inv w" "w_enabled (WSync g partial) w" "ww_syncs w = []"
  shows "\<exists>w'. w_exec (WSync g partial) w = Some w' \<and> o_inv w'"
proof -
  note i = o_invD [OF assms(1)]
  have op: "sw_status (ww_writer w) = FileOpen" using assms(2) by simp
  obtain w' where w': "w_exec (WSync g partial) w = Some w'" "w_inv w'" using sync_step_inv [OF i(1) assms(2)] by blast
  obtain c s' where p: "flush_inner_start (dirty g) partial (ww_writer w) = Some (c, s')" "ww_writer w' = s'" "ww_syncs w' = ww_syncs w @ [c]" "ww_close w' = ww_close w"
    using w'(1) by auto
  have "handles_ok [] (ww_writer w)" using i(3) i(4) [OF op] assms(3) by simp
  then show ?thesis using flush_inner_start_handles [OF i(2) length_dirty _ p(1)] w' p i(4) [OF op] assms(3) op by (auto simp: o_inv_def awaited_def)
qed

lemma o_sync_end:
  assumes "o_inv w" "w_enabled (WSyncEnd k) w"
  shows "\<exists>w'. w_exec (WSyncEnd k) w = Some w' \<and> o_inv w'"
proof -
  note i = o_invD [OF assms(1)]
  have k: "ww_syncs w = [ww_syncs w ! k]" "k = 0" using assms by (cases "ww_syncs w"; auto simp: o_inv_def)+
  then have op: "sw_status (ww_writer w) = FileOpen" using assms(1) by (auto simp: o_inv_def)
  then have h: "handles_ok [ww_syncs w ! k] (ww_writer w)" using i(3,4) k(1) by simp
  note d = awaited_done [OF i(2) h]
  have e: "w_exec (WSyncEnd k) w = Some (w\<lparr>ww_syncs := remove_at k (ww_syncs w)\<rparr>)"
    using d(1) assms(2) i(4) [OF op] by (simp add: flush_inner_end_def)
  have r: "remove_at k (ww_syncs w) = []" using k by (cases "ww_syncs w") (auto simp: remove_at_def)
  show ?thesis using e sync_end_inv [OF i(1) e] assms(1,2) d(2) r i(4) [OF op] by (auto simp: o_inv_def awaited_def)
qed

lemma o_fsync:
  assumes "o_inv w" "w_enabled op w" "op = WSyncInner \<or> op = WSyncInnerEnd k e"
  shows "\<exists>w'. w_exec op w = Some w' \<and> o_inv w'"
proof -
  obtain w' where w': "w_exec op w = Some w'" "w_inv w'" using fsync_step_inv [OF o_invD(1) [OF assms(1)] assms(2)] assms(3) by blast
  then have "ww_syncs w' = ww_syncs w \<and> ww_close w' = ww_close w \<and> sw_status (ww_writer w') = sw_status (ww_writer w) \<and>
      sw_error (ww_writer w') = sw_error (ww_writer w) \<and> sw_flush (ww_writer w') = sw_flush (ww_writer w) \<and>
      sw_flights (ww_writer w') = sw_flights (ww_writer w) \<and> sw_buffer_size (ww_writer w') = sw_buffer_size (ww_writer w)"
    using assms(3) by (auto simp: sync_inner_end_def split: if_splits)
  then show ?thesis using w' assms(1) handles_ok_frame [of "ww_writer w'" "ww_writer w"] by (auto simp: o_inv_def awaited_def)
qed

lemma o_task:
  assumes "o_inv w" "w_enabled op w" "op = WLand i \<or> op = WDone i"
  shows "\<exists>w'. w_exec op w = Some w' \<and> o_inv w'"
proof -
  note iv = o_invD [OF assms(1)]
  have l: "i < length (sw_flights (ww_writer w))" using assms(2,3) by auto
  obtain w' where w': "w_exec op w = Some w'" "w_inv w'" using flight_step_inv [OF iv(1) assms(2)] assms(3) by blast
  have "handles_ok (awaited w) (ww_writer w') \<and> ww_syncs w' = ww_syncs w \<and> ww_close w' = ww_close w \<and>
      sw_status (ww_writer w') = sw_status (ww_writer w) \<and> sw_error (ww_writer w') = sw_error (ww_writer w)"
    using assms(3)
  proof
    assume "op = WLand i"
    then show ?thesis using w'(1) handles_ok_land [OF iv(3) l] by (auto simp: Let_def)
  next
    assume op: "op = WDone i"
    then obtain s' where s': "flush_task_end (Inr (length (f_data (sw_flights (ww_writer w) ! i)))) (f_pos (sw_flights (ww_writer w) ! i)) (ww_writer w\<lparr>sw_flights := remove_at i (sw_flights (ww_writer w))\<rparr>) = Some s'"
        "w' = w\<lparr>ww_writer := s'\<rparr>" using w'(1) by (auto simp: Let_def)
    have "f_landed (sw_flights (ww_writer w) ! i)" using op assms(2) by simp
    then show ?thesis using s'(2) handles_ok_done [OF iv(2,3) l refl _ s'(1)] s'(1) flush_task_done_ok [OF iv(2) l refl, of "length (f_data (sw_flights (ww_writer w) ! i))"] by auto
  qed
  then show ?thesis using w' assms(1) by (auto simp: o_inv_def awaited_def)
qed

lemma o_close_open:
  assumes "o_inv w" "orderly (WClose g wk) w" "sw_status (ww_writer w) = FileOpen"
  shows "\<exists>w'. w_exec (WClose g wk) w = Some w' \<and> o_inv w'"
proof -
  let ?s = "ww_writer w\<lparr>sw_waker := Some wk, sw_status := FileClosing\<rparr>"
  note i = o_invD [OF assms(1)]
  have w: "sw_waker (ww_writer w) = None" "ww_syncs w = []" using assms(2,3) by (auto simp: orderly_def)
  have ok: "sw_ok (ww_file w) (ww_accepted w) ?s" using i(2) sw_ok_status [of "ww_file w" "ww_accepted w" "ww_writer w\<lparr>sw_waker := Some wk\<rparr>"] by simp
  have h: "handles_ok [] ?s" using i(3) i(4) [OF assms(3)] w(2) by (simp add: handles_ok_def)
  obtain b s1 where p: "flush_padded (dirty g) ?s = Some (b, s1)" "last_flush_pos (sw_flush s1) = sw_current ?s"
    using flush_padded_ok [of "dirty g", OF length_dirty ok] by blast
  obtain hs f where t: "take_pending_handles (sw_flush s1) = (hs, f)" by fastforce
  have h1: "handles_ok [(sw_current ?s, hs)] (s1\<lparr>sw_flush := f\<rparr>)"
    by (rule handles_ok_take [OF handles_ok_padded [OF h p(1)] t]) (simp_all add: p(2))
  have e: "w_exec (WClose g wk) w = Some (w\<lparr>ww_writer := s1\<lparr>sw_flush := f\<rparr>, ww_close := Some (sw_current ?s, hs)\<rparr>)"
    using assms(3) w(1) p(1) t by (simp add: poll_close_def initiate_close_def sw_current_def)
  have "\<not> sw_error s1" using flush_padded_frame [OF p(1)] i(4) [OF assms(3)] by simp
  then have "o_inv (w\<lparr>ww_writer := s1\<lparr>sw_flush := f\<rparr>, ww_close := Some (sw_current ?s, hs)\<rparr>)"
    using close_step_inv [OF i(1) e] w(2) h1 by (simp add: o_inv_def awaited_def)
  then show ?thesis using e by blast
qed

lemma o_close:
  assumes "o_inv w" "orderly (WClose g wk) w"
  shows "\<exists>w'. w_exec (WClose g wk) w = Some w' \<and> o_inv w'"
proof (cases "sw_status (ww_writer w)")
  case FileOpen
  then show ?thesis using o_close_open [OF assms] by blast
next
  case FileClosing
  let ?s = "ww_writer w"
  note i = o_invD [OF assms(1)]
  have h: "handles_ok (awaited w) (?s\<lparr>sw_waker := Some wk\<rparr>)" "handles_ok (awaited w) (?s\<lparr>sw_waker := None, sw_status := FileClosed, sw_error := False\<rparr>)"
    using i(3) by (simp_all add: handles_ok_def)
  show ?thesis
  proof (cases "sw_waker ?s")
    case None
    then have e: "w_exec (WClose g wk) w = Some (w\<lparr>ww_writer := ?s\<lparr>sw_waker := None, sw_status := FileClosed, sw_error := False\<rparr>\<rparr>)"
      using FileClosing by (simp add: poll_close_def)
    have "ww_close w = None" using i(1) None by (cases "ww_close w") (auto simp: w_inv_def Let_def)
    then have "o_inv (w\<lparr>ww_writer := ?s\<lparr>sw_waker := None, sw_status := FileClosed, sw_error := False\<rparr>\<rparr>)"
      using close_step_inv [OF i(1) e] FileClosing h(2) assms(1) by (simp add: o_inv_def awaited_def)
    then show ?thesis using e by blast
  next
    case (Some x)
    then have e: "w_exec (WClose g wk) w = Some (w\<lparr>ww_writer := ?s\<lparr>sw_waker := Some wk\<rparr>\<rparr>)" using FileClosing by (simp add: poll_close_def)
    have "o_inv (w\<lparr>ww_writer := ?s\<lparr>sw_waker := Some wk\<rparr>\<rparr>)"
      using close_step_inv [OF i(1) e] FileClosing h(1) assms(1) by (simp add: o_inv_def awaited_def)
    then show ?thesis using e by blast
  qed
next
  case FileClosed
  note i = o_invD [OF assms(1)]
  have h: "handles_ok (awaited w) (ww_writer w\<lparr>sw_waker := None\<rparr>)" using i(3) by (simp add: handles_ok_def)
  have w': "w_exec (WClose g wk) w = Some (w\<lparr>ww_writer := ww_writer w\<lparr>sw_waker := None\<rparr>\<rparr>)" using FileClosed by (simp add: poll_close_def)
  have "o_inv (w\<lparr>ww_writer := ww_writer w\<lparr>sw_waker := None\<rparr>\<rparr>)"
    using close_step_inv [OF i(1) w'] FileClosed h assms(1) by (auto simp: o_inv_def awaited_def)
  then show ?thesis using w' by blast
qed

lemma o_close_task:
  assumes "o_inv w" "w_enabled (WCloseTask es et ec) w"
  shows "\<exists>w'. w_exec (WCloseTask es et ec) w = Some w' \<and> o_inv w' \<and> (\<not> es \<and> \<not> et \<and> \<not> ec \<longrightarrow> ww_file w' = ww_accepted w' \<and> \<not> sw_error (ww_writer w'))"
proof -
  note i = o_invD [OF assms(1)]
  obtain fin hs where c: "ww_close w = Some (fin, hs)" "finished hs (ww_writer w)" using assms(2) by (auto split: option.splits)
  have x: "fin = length (ww_accepted w)" "\<not> sw_error (ww_writer w)" "ww_syncs w = []" using i(1) i(5) c(1) by (auto simp: w_inv_def Let_def)
  have h: "handles_ok [(fin, hs)] (ww_writer w)" using i(3) c(1) x(3) by (simp add: awaited_def)
  have f: "sw_flushed (ww_writer w) = fin" "handles_ok [] (ww_writer w)"
    using awaited_done [OF i(2) h] c(2) sw_ok_flush_range [OF i(2)] x(1) by auto
  have "close_task fin es et ec (ww_writer w) (ww_file w) \<noteq> None" using x(2) f(1) by (simp add: close_task_def Let_def)
  then obtain s' file' where t: "close_task fin es et ec (ww_writer w) (ww_file w) = Some (s', file')" by auto
  have e: "w_exec (WCloseTask es et ec) w = Some (w\<lparr>ww_writer := s', ww_file := file', ww_close := None\<rparr>)" using t c(1) by simp
  have "sw_status s' = FileClosing" "\<not> es \<and> \<not> et \<and> \<not> ec \<longrightarrow> \<not> sw_error s'"
      "sw_flush s' = sw_flush (ww_writer w) \<and> sw_flights s' = sw_flights (ww_writer w) \<and> sw_buffer_size s' = sw_buffer_size (ww_writer w)"
    using t x(2) f(1) i(5) c(1) by (auto simp: close_task_def Let_def split: if_splits)
  moreover from this have "o_inv (w\<lparr>ww_writer := s', ww_file := file', ww_close := None\<rparr>)"
    using close_task_inv [OF i(1) assms(2) e] x(3) f(2) handles_ok_frame [of s' "ww_writer w"] by (simp add: o_inv_def awaited_def)
  ultimately show ?thesis using e close_task_inv [OF i(1) assms(2) e] by (intro exI [of _ "w\<lparr>ww_writer := s', ww_file := file', ww_close := None\<rparr>"]) simp
qed

lemma o_exec:
  assumes "o_inv w" "w_enabled op w" "orderly op w"
  shows "\<exists>w'. w_exec op w = Some w' \<and> o_inv w'"
proof (cases op)
  case (WWrite g wk buf)
  then show ?thesis using o_write assms by (auto simp: orderly_def)
next
  case (WFlush g wk)
  then show ?thesis using o_flush assms by blast
next
  case (WSync g partial)
  then show ?thesis using o_sync assms by (auto simp: orderly_def)
next
  case (WSyncEnd k)
  then show ?thesis using o_sync_end assms by blast
next
  case (WClose g wk)
  then show ?thesis using o_close assms by blast
next
  case (WCloseTask es et ec)
  then show ?thesis using o_close_task assms by blast
next
  case (WSyncDrop k)
  then show ?thesis using assms(3) by (simp add: orderly_def)
next
  case (WShort i n)
  then show ?thesis using assms(3) by (simp add: orderly_def careful_def)
next
  case (WFail i n)
  then show ?thesis using assms(3) by (simp add: orderly_def)
qed (use o_fsync [OF assms(1,2)] o_task [OF assms(1,2)] in blast)+

lemma o_step_inv: "o_inv w \<Longrightarrow> o_step w w' \<Longrightarrow> o_inv w'"
  using o_exec by (fastforce elim: o_stepE)

interpretation ow: transition_inv w_init o_step o_inv
  by unfold_locales (blast intro: o_init_inv o_step_inv)+

subsection \<open>Runs\<close>

fun w_run :: "(wop \<Rightarrow> wworld \<Rightarrow> bool) \<Rightarrow> wop list \<Rightarrow> wworld \<Rightarrow> wworld option" where
  "w_run ok [] w = Some w"
| "w_run ok (op # ops) w = (if w_enabled op w \<and> ok op w then Option.bind (w_exec op w) (w_run ok ops) else None)"

lemma w_run_steps:
  "w_run (\<lambda>_ _. True) ops w = Some w' \<Longrightarrow> w_step\<^sup>*\<^sup>* w w'"
  "w_run careful ops w = Some w' \<Longrightarrow> c_step\<^sup>*\<^sup>* w w'"
  "w_run orderly ops w = Some w' \<Longrightarrow> o_step\<^sup>*\<^sup>* w w'"
  by (induction ops arbitrary: w) (auto split: if_splits bind_splits intro: converse_rtranclp_into_rtranclp w_step.intros c_step.intros o_step.intros)

definition w_start :: "nat \<Rightarrow> nat \<Rightarrow> bool \<Rightarrow> wworld" where
  "w_start bs wb sync = \<lparr>ww_writer = writer_new bs wb sync, ww_file = [], ww_accepted = [], ww_syncs = [], ww_fsyncs = [], ww_close = None\<rparr>"

lemma w_run_reachable:
  assumes "0 < bs" "0 < wb"
  shows "w_run (\<lambda>_ _. True) ops (w_start bs wb sync) = Some w \<Longrightarrow> reachable w_init w_step w"
    and "w_run careful ops (w_start bs wb sync) = Some w \<Longrightarrow> reachable w_init c_step w"
    and "w_run orderly ops (w_start bs wb sync) = Some w \<Longrightarrow> reachable w_init o_step w"
proof -
  have "w_init (w_start bs wb sync)" using assms by (auto simp: w_init_def w_start_def)
  then show "w_run (\<lambda>_ _. True) ops (w_start bs wb sync) = Some w \<Longrightarrow> reachable w_init w_step w"
    and "w_run careful ops (w_start bs wb sync) = Some w \<Longrightarrow> reachable w_init c_step w"
    and "w_run orderly ops (w_start bs wb sync) = Some w \<Longrightarrow> reachable w_init o_step w"
    using w_run_steps by (auto simp: reachable_def)
qed

definition plain_run :: "wop list" where
  "plain_run = [WWrite [9] 0 [1, 2], WSync [] True, WLand 0, WDone 0, WSyncEnd 0, WSyncInner, WSyncInnerEnd 0 False,
     WWrite [] 0 [3, 4, 5, 6, 7], WLand 0, WClose [] 0, WLand 1, WDone 1, WDone 0]"

definition plain_world :: wworld where
  "plain_world = the (w_run orderly plain_run (w_start 4 2 True))"

lemma plain_steps:
  "reachable w_init o_step plain_world" "reachable w_init c_step plain_world"
proof -
  have "w_run orderly plain_run (w_start 4 2 True) \<noteq> None" "w_run careful plain_run (w_start 4 2 True) = w_run orderly plain_run (w_start 4 2 True)"
    by code_simp+
  then have "w_run orderly plain_run (w_start 4 2 True) = Some plain_world" "w_run careful plain_run (w_start 4 2 True) = Some plain_world"
    by (auto simp: plain_world_def)
  then show "reachable w_init o_step plain_world" "reachable w_init c_step plain_world"
    using w_run_reachable(2,3) [of 4 2 plain_run True plain_world] by simp_all
qed

definition overwrite_run :: "wop list" where
  "overwrite_run = [WWrite [] 0 [1, 2], WSync [] True, WWrite [] 0 [3, 4], WLand 1, WLand 0, WDone 0, WDone 0, WSyncEnd 0, WClose [] 0, WCloseTask False False False]"

text \<open>A write of nothing waits, and nothing will wake it.\<close>

lemma write_empty_hangs: "\<not> sw_error s \<Longrightarrow> sw_waker s = None \<Longrightarrow> poll_write alloc wk [] s = Some (Pending, s\<lparr>sw_waker := Some wk\<rparr>)"
  by (simp add: poll_write_def write_loop.simps)

text \<open>
  A write that the device cuts short goes unnoticed: the flushed position covers bytes that are not in the file, and the writer closes without an error.
\<close>

lemma short_write_lost:
  "\<exists>w. reachable w_init w_step w \<and> ww_accepted w = [1, 2, 3, 4] \<and> ww_file w = [1, 2] \<and> sw_flushed (ww_writer w) = 4 \<and> \<not> sw_error (ww_writer w) \<and>
     sw_status (ww_writer w) = FileClosing \<and> ww_close w = None"
proof -
  let ?ops = "[WWrite [] 0 [1, 2, 3, 4], WShort 0 2, WClose [] 0, WCloseTask False False False]"
  define w where "w = the (w_run (\<lambda>_ _. True) ?ops (w_start 4 2 True))"
  have "w_run (\<lambda>_ _. True) ?ops (w_start 4 2 True) \<noteq> None" by code_simp
  then have "reachable w_init w_step w" using w_run_reachable(1) [of 4 2 ?ops True w] unfolding w_def by (metis option.exhaust_sel zero_less_numeral)
  moreover have "ww_accepted w = [1, 2, 3, 4] \<and> ww_file w = [1, 2] \<and> sw_flushed (ww_writer w) = 4 \<and> \<not> sw_error (ww_writer w) \<and>
     sw_status (ww_writer w) = FileClosing \<and> ww_close w = None" unfolding w_def by code_simp
  ultimately show ?thesis by blast
qed

subsection \<open>Properties\<close>

text \<open>
  Claim C4. In every use of a writer in which no write continues a block whose padded flush is still in flight, and in which the device cuts no write short that it reports as successful,
  whatever the order in which the writes reach the file and whichever of them fail, the bytes before the flushed position are in the file as they were accepted.
\<close>

theorem flushed_is_written:
  assumes "reachable w_init c_step w"
  shows "sw_flushed (ww_writer w) \<le> length (ww_accepted w) \<and>
    take (sw_flushed (ww_writer w)) (ww_file w) = take (sw_flushed (ww_writer w)) (ww_accepted w)"
proof -
  have ok: "sw_ok (ww_file w) (ww_accepted w) (ww_writer w)" using wr.reachable_inv [OF assms] by (simp add: w_inv_def Let_def)
  have le: "sw_flushed (ww_writer w) \<le> length (ww_accepted w)" using sw_ok_flush_range [OF ok] by simp
  have g: "good (ww_file w) (take (sw_flushed (ww_writer w)) (ww_accepted w)) i" if "i < length (take (sw_flushed (ww_writer w)) (ww_accepted w))" for i
    using ok that by (auto simp: sw_ok_def fs_ok_def sw_flushed_def good_def)
  show ?thesis using le all_good [of "take (sw_flushed (ww_writer w)) (ww_accepted w)" "ww_file w"] g by simp
qed

theorem flushed_is_written_witness:
  "sw_flushed (ww_writer plain_world) = 7 \<and> take 7 (ww_file plain_world) = [1, 2, 3, 4, 5, 6, 7]"
proof -
  have "sw_flushed (ww_writer plain_world) = 7" "ww_accepted plain_world = [1, 2, 3, 4, 5, 6, 7]" by code_simp+
  then show ?thesis using flushed_is_written [OF plain_steps(2)] by simp
qed

text \<open>
  Claim C17. Take any use of a writer in which no write continues a block whose padded flush is still in flight, and in which the device cuts no write short that it reports as
  successful. When the task that closes the writer ends without an error, the file holds exactly the bytes that were accepted: the padding of the last block has been cut off.
\<close>

theorem close_exact:
  assumes "reachable w_init c_step w" "w_enabled (WCloseTask es et ec) w" "w_exec (WCloseTask es et ec) w = Some w'" "\<not> sw_error (ww_writer w')"
  shows "ww_file w' = ww_accepted w'"
  using close_task_inv [OF wr.reachable_inv [OF assms(1)] assms(2,3)] assms(4) by blast

theorem close_exact_witness:
  "length (ww_file plain_world) = 8 \<and> map_option ww_file (w_exec (WCloseTask False False False) plain_world) = Some [1, 2, 3, 4, 5, 6, 7]"
proof -
  have enabled: "w_enabled (WCloseTask False False False) plain_world" by code_simp
  obtain w' where w': "w_exec (WCloseTask False False False) plain_world = Some w'" 
    using o_close_task [OF ow.reachable_inv [OF plain_steps(1)] enabled] by blast
  have "map_option (\<lambda>w. (sw_error (ww_writer w), ww_accepted w)) (w_exec (WCloseTask False False False) plain_world) = Some (False, [1, 2, 3, 4, 5, 6, 7])"
    "length (ww_file plain_world) = 8" by code_simp+
  then show ?thesis using close_exact [OF plain_steps(2) enabled w'] w' by (simp del: w_exec.simps)
qed

text \<open>
  Claim C16. An orderly user (no write that continues a block whose padded flush is in flight, one awaited flush at a time, none dropped, closing with nothing pending) never makes the
  writer panic while the device neither fails a write nor cuts one short, at any point of any interleaving with the tasks of the writer; and closing then succeeds with exactly the accepted bytes in the file.
\<close>

theorem orderly_writer:
  assumes "reachable w_init o_step w" "w_enabled op w" "orderly op w"
  shows "\<exists>w'. w_exec op w = Some w' \<and> (op = WCloseTask False False False \<longrightarrow> ww_file w' = ww_accepted w' \<and> \<not> sw_error (ww_writer w'))"
proof -
  note i = ow.reachable_inv [OF assms(1)]
  show ?thesis using o_exec [OF i assms(2,3)] o_close_task [OF i, of False False False] assms(2) by fastforce
qed

theorem orderly_writer_witness:
  "\<exists>w'. w_exec (WCloseTask False False False) plain_world = Some w' \<and> ww_file w' = ww_accepted w' \<and> length (ww_file w') = 7"
proof -
  have e: "w_enabled (WCloseTask False False False) plain_world" "orderly (WCloseTask False False False) plain_world"
    "map_option (\<lambda>w. length (ww_accepted w)) (w_exec (WCloseTask False False False) plain_world) = Some 7" by code_simp+
  show ?thesis using orderly_writer [OF plain_steps(1) e(1,2)] e(3) by (auto simp del: w_exec.simps)
qed

text \<open>
  Claim C36. The condition on writes that continue a block is needed: a write that fills a block while the padded flush of that block is in flight may reach the file first. The padding
  then replaces accepted bytes, although the flushed position covers them, the flush is awaited and the writer closes without an error.
\<close>

theorem padded_overwrite:
  "\<exists>w. reachable w_init w_step w \<and> ww_accepted w = [1, 2, 3, 4] \<and> ww_file w = [1, 2, 0, 0] \<and> sw_flushed (ww_writer w) = 4 \<and> sw_flights (ww_writer w) = [] \<and>
     \<not> sw_error (ww_writer w) \<and> sw_status (ww_writer w) = FileClosing \<and> ww_close w = None"
proof -
  define w where "w = the (w_run (\<lambda>_ _. True) overwrite_run (w_start 4 2 True))"
  have "w_run (\<lambda>_ _. True) overwrite_run (w_start 4 2 True) \<noteq> None" by code_simp
  then have "reachable w_init w_step w" using w_run_reachable(1) [of 4 2 overwrite_run True w] by (auto simp: w_def)
  moreover have "ww_accepted w = [1, 2, 3, 4] \<and> ww_file w = [1, 2, 0, 0] \<and> sw_flushed (ww_writer w) = 4 \<and> sw_flights (ww_writer w) = [] \<and>
     \<not> sw_error (ww_writer w) \<and> sw_status (ww_writer w) = FileClosing \<and> ww_close w = None" unfolding w_def by code_simp
  ultimately show ?thesis by blast
qed

text \<open>
  Claim C37. A flush takes the handles of the pending tasks with it. A second flush that starts meanwhile has nothing to await and fails its assertion, and
  so does closing the writer after a flush was dropped, although no write failed.
\<close>

theorem sync_panics:
  "\<exists>v w. reachable w_init w_step v \<and> \<not> sw_error (ww_writer v) \<and> w_enabled (WSyncEnd 1) v \<and> w_exec (WSyncEnd 1) v = None \<and>
     reachable w_init w_step w \<and> \<not> sw_error (ww_writer w) \<and> w_enabled (WCloseTask False False False) w \<and> w_exec (WCloseTask False False False) w = None"
proof -
  let ?r = "\<lambda>ops. w_run (\<lambda>_ _. True) ops (w_start 4 2 True)"
  let ?v = "[WWrite [] 0 [1, 2], WSync [] True, WSync [] True]"
  let ?w = "[WWrite [] 0 [1, 2], WSync [] True, WSyncDrop 0, WClose [] 0]"
  have "?r ?v \<noteq> None" "?r ?w \<noteq> None" by code_simp+
  then have "?r ?v = Some (the (?r ?v))" "?r ?w = Some (the (?r ?w))" by (metis option.exhaust_sel)+
  then have "reachable w_init w_step (the (?r ?v))" "reachable w_init w_step (the (?r ?w))"
    using w_run_reachable(1) [of 4 2 ?v True "the (?r ?v)"] w_run_reachable(1) [of 4 2 ?w True "the (?r ?w)"] by (simp_all del: w_run.simps)
  moreover have "\<not> sw_error (ww_writer (the (?r ?v))) \<and> w_enabled (WSyncEnd 1) (the (?r ?v)) \<and> w_exec (WSyncEnd 1) (the (?r ?v)) = None" by code_simp
  moreover have "\<not> sw_error (ww_writer (the (?r ?w))) \<and> w_enabled (WCloseTask False False False) (the (?r ?w)) \<and>
      w_exec (WCloseTask False False False) (the (?r ?w)) = None" by code_simp
  ultimately show ?thesis by blast
qed

end
