(* ===== verification/Spec2Isabelle.thy ===== *)
theory Spec2Isabelle
  imports Semaphore RwLock FreeList LocalChannel SpscQueue SharedChannel Task Gate Timers Placement TaskQueues Latch IoSched DmaRead StreamOrderly
begin

text \<open>
  A verification library for glommio, a cooperative thread-per-core runtime on io\_uring. Paths below are relative to
  src/glommio/src.

  \<^bold>\<open>The program.\<close> Each thread of a pool runs one executor. It holds queues of runnable tasks with shares and virtual runtimes
  (executor/), tasks with a reference-counted header (task/), and a reactor with timers and I/O sources (reactor.rs, sys/). Tasks of one thread synchronise through
  semaphores, locks and gates (sync/) and local channels; threads talk through shared channels, which are built on a lock-free ring and on registries of
  wakers in each reactor (channels/). Files are read and written with direct I/O in aligned blocks (io/).

  \<^bold>\<open>Conventions\<close> (theory Prelude). A panic or undefined behaviour is the value None of an option type; a Rust Result is a sum with the error on the
  left; a poll is Pending or Ready. Machine integers are words where they can wrap, and natural numbers otherwise (lengths, positions in a file, names of
  tasks, nodes and wakers). A component that is used over time has a datatype of operations, an executable function that runs one, a test for when its user may call it, and an
  inductive step relation; the locale \<open>transition_inv\<close> of the Prelude turns an invariant of the steps into an invariant of all reachable states, and is interpreted for every component.

  \<^bold>\<open>Theories and code.\<close>
  \<^item> Errors: error.rs. The enums, their texts and the conversions to and from I/O errors.
  \<^item> FreeList: free\_list.rs. The slab and its chain of free slots; the locale \<open>arena\<close> is what its clients rely on.
  \<^item> Semaphore: sync/semaphore.rs. Units are conserved; a release wakes what a greedy specification selects; wake-ups are lost only in the hand-off of a dropped future, where a
    reachable state shows that they are.
  \<^item> RwLock: sync/rwlock.rs. Writers exclude, counters equal guards, no call panics, the queue is never stuck.
  \<^item> LocalChannel: channels/local\_channel.rs. First in, first out; no lost wake-up under cancellation; a lemma shows that a send hangs when the receiver of a full channel is dropped.
  \<^item> Gate: sync/gate.rs, on LocalChannel. Closing waits for exactly the passes that are out.
  \<^item> SpscQueue: channels/spsc\_queue.rs, as whole functions and as interleaved atomic steps of two threads. No step fails, no slot is raced for, order is kept, also across
    wrap-around of the counters. The locale \<open>bounded_queue\<close> is the contract of the ring.
  \<^item> SharedChannel: channels/shared\_channel.rs with the registries of reactor.rs, on SpscQueue and OrderedMap. The received items are the accepted ones under every interleaving, and the end of
    the stream comes after the last; a dropped connect makes the peer wait for ever.
  \<^item> Task: task/. Every operation of the vtable, of wakers and of join handles on one header: memory safety, one runnable, no forgotten join, freed exactly when unowned.
  \<^item> OrderedMap and Timers: the timers of reactor.rs and timer/. The registry is exact, a call panics only for a deadline that an Instant
    cannot hold, and timers fire in the order of their deadlines.
  \<^item> PqTree and Placement: executor/placement/ and the renumbering of sys/hardware\_topology.rs. Both policies are fair for every choice that the heaps leave open (locale \<open>fair_priority\<close>); a pool is
    accepted exactly when its checks say so.
  \<^item> TaskQueues: the queues of executor/mod.rs, executor/multitask.rs and shares.rs. No runnable is forgotten and virtual runtimes stay close until
    they come near the end of the 64-bit range; only a spawn after the removal of the default queue panics.
  \<^item> Latch: executor/latch.rs, with its condition variable, and the start of a pool. All threads start or none does; the start ends and leaves no thread asleep, except after a refused
    event file descriptor.
  \<^item> IoSched: io/sched.rs. A read is shared exactly when one in use covers it, and sources live as long as their handles.
  \<^item> DmaRead: io/bulk\_io.rs and the reads of io/dma\_file.rs. Merged, aligned and shared reads return the bytes of the file that were asked for, up to where the kernel
    stopped reading; a read of 4 GiB returns none.
  \<^item> StreamWriter and StreamOrderly: the writer of io/dma\_file\_stream.rs with its tasks, failing and short writes included. The flushed position is truthful and a closed file is exact, unless a write
    overlaps with a padded flush or the device cuts a write short, where two runs show the loss; an orderly user never meets a failing assertion, and two runs show a user who does.

  \<^bold>\<open>Bounds and fuel.\<close> Recursion is structural or has a termination proof, with these exceptions. \<open>bulk_fill\<close> (DmaRead) and \<open>write_loop\<close> (StreamWriter) are partial functions: not
  returning is None. \<open>write_loop\<close> is shown to return; \<open>bulk_fill\<close> returns for streams that are never pending and is shown not to return otherwise.
  The collection of merged reads in DmaRead takes fuel, and twice the number of requests plus three is shown to reach the end of the stream. The start of a pool takes at most the number of
  steps that the measure \<open>pool_work\<close> of Latch gives, five for each thread and four, beside spurious wake-ups.

  \<^bold>\<open>Assumptions of the model.\<close> Atomic operations of two threads interleave with sequential consistency. A heap of the standard library may return any of its greatest elements.
  The number of references to a task stays below the limit at which the code aborts. Callbacks of the user (wakers, futures) do not re-enter an operation
  except where the text of the theory says so. Writes to a file reach it in any order, whole or up to some byte when they fail or are cut short. A read returns a prefix of
  what the file holds in its range. A stream writer starts on an empty file and is not used after it was closed.

  \<^bold>\<open>Not modelled.\<close>
  \<^item> sys/uring.rs (beyond the length of a read), the I/O sources of reactor.rs, sys/source.rs, sys/blocking.rs, sys/membarrier.rs, sys/sysfs.rs, net/, and file handles beyond reads: they forward to the kernel, whose behaviour is
    not in the repository.
  \<^item> The main loop, shutdown and builders of executor/mod.rs and the stall detector: they are bound to thread-local storage, signals and parking of threads.
  \<^item> channels/channel\_mesh.rs and channels/sharding.rs, which wire shared channels together; the reader of io/dma\_file\_stream.rs and io/buffered\_file\_stream.rs; sync/once\_cell.rs:
    not done.
  \<^item> controllers/deadline\_queue.rs: floating-point arithmetic. sys/dma\_buffer.rs and the memory layout of tasks: raw pointers.
  \<^item> Weaker memory orderings than sequential consistency, Debug output, statistics.
\<close>

end
